(* ===== verification/Yarr_Prelude.thy ===== *)
theory Yarr_Prelude
  imports Main "HOL-Library.Word"
begin

text \<open>
  Shared base of the development: names for the machine integers of the C++ code, the result
  type in which an operation either returns or stops with a fault (a C++ exception that leaves
  the operation, or a read the language leaves undefined), and generic lemmas on words and
  lists that the component theories use through the collections \<open>bits_simps\<close> and
  \<open>result_simps\<close>.
\<close>

unbundle bit_operations_syntax

type_synonym u8 = "8 word"
type_synonym u16 = "16 word"
type_synonym u32 = "32 word"
type_synonym u64 = "64 word"

named_theorems result_simps "computation rules of the result type"
named_theorems bits_simps "bitwise normal forms of fixed-width words"

section \<open>Results\<close>

text \<open>
  \<open>Out_Of_Range\<close> is \<open>std::out_of_range\<close> (\<open>map::at\<close> on a missing key),
  \<open>Runtime_Error\<close> is \<open>std::runtime_error\<close>, \<open>Invalid_Argument\<close> is
  \<open>std::invalid_argument\<close>, \<open>Logic_Error\<close> is \<open>std::logic_error\<close>, and
  \<open>Undefined\<close> marks a step whose behaviour C++ does not define (a read past the end of a
  vector, dereferencing an end iterator). \<open>Aborted\<close> is a call of \<open>abort\<close>.
\<close>

datatype fault =
  Out_Of_Range | Runtime_Error | Invalid_Argument | Logic_Error | Undefined | Aborted

type_synonym 'a result = "fault + 'a"

definition rbind :: "'a result \<Rightarrow> ('a \<Rightarrow> 'b result) \<Rightarrow> 'b result" where
  "rbind r f = (case r of Inl e \<Rightarrow> Inl e | Inr x \<Rightarrow> f x)"

lemma rbind_Inl [simp, result_simps]: "rbind (Inl e) f = Inl e"
  by (simp add: rbind_def)

lemma rbind_Inr [simp, result_simps]: "rbind (Inr x) f = f x"
  by (simp add: rbind_def)

lemma rbind_eq_Inr_iff [result_simps]: "rbind r f = Inr y \<longleftrightarrow> (\<exists>x. r = Inr x \<and> f x = Inr y)"
  by (cases r) simp_all

lemma rbind_assoc: "rbind (rbind r f) g = rbind r (\<lambda>x. rbind (f x) g)"
  by (cases r) simp_all

lemma rbind_cong: "(\<And>x. r = Inr x \<Longrightarrow> f x = g x) \<Longrightarrow> rbind r f = rbind r g"
  by (cases r) simp_all

text \<open>A loop over a list whose body may stop with a fault.\<close>

fun rfold :: "('a \<Rightarrow> 's \<Rightarrow> 's result) \<Rightarrow> 'a list \<Rightarrow> 's \<Rightarrow> 's result" where
  "rfold f [] s = Inr s"
| "rfold f (x # xs) s = rbind (f x s) (rfold f xs)"

lemma rfold_append: "rfold f (xs @ ys) s = rbind (rfold f xs s) (rfold f ys)"
  by (induction xs arbitrary: s) (auto simp: rbind_def split: sum.splits)

lemma rfold_invariant:
  assumes "rfold f xs s = Inr t" and "I s"
    and "\<And>x s t. x \<in> set xs \<Longrightarrow> I s \<Longrightarrow> f x s = Inr t \<Longrightarrow> I t"
  shows "I t"
  using assms
proof (induction xs arbitrary: s)
  case Nil
  then show ?case by simp
next
  case (Cons x xs)
  from Cons.prems(1) obtain u where u: "f x s = Inr u" "rfold f xs u = Inr t"
    by (auto simp: rbind_eq_Inr_iff)
  with Cons.prems(2,3) have "I u" by (metis list.set_intros(1))
  with u(2) Cons.IH Cons.prems(3) show ?case by (metis list.set_intros(2))
qed

text \<open>Outcome of an operation: which faults it may stop with, what holds of what it returns.\<close>

definition rsat :: "(fault \<Rightarrow> bool) \<Rightarrow> ('a \<Rightarrow> bool) \<Rightarrow> 'a result \<Rightarrow> bool" where
  "rsat E P r \<longleftrightarrow> (case r of Inl e \<Rightarrow> E e | Inr x \<Rightarrow> P x)"

lemma rsat_simps [simp]: "rsat E P (Inl e) = E e" "rsat E P (Inr x) = P x"
  by (simp_all add: rsat_def)

lemma rsat_bind:
  "rsat E Q r \<Longrightarrow> (\<And>x. Q x \<Longrightarrow> rsat E P (f x)) \<Longrightarrow> rsat E P (rbind r f)"
  by (cases r) simp_all

lemma rsat_bind_any:
  "rsat E (\<lambda>_. True) r \<Longrightarrow> (\<And>x. rsat E P (f x)) \<Longrightarrow> rsat E P (rbind r f)"
  by (cases r) simp_all

lemma rsat_if: "(b \<Longrightarrow> rsat E P r) \<Longrightarrow> (\<not> b \<Longrightarrow> rsat E P s) \<Longrightarrow> rsat E P (if b then r else s)"
  by simp

lemma rsat_weaken:
  "rsat E P r \<Longrightarrow> (\<And>e. E e \<Longrightarrow> E' e) \<Longrightarrow> (\<And>x. P x \<Longrightarrow> P' x) \<Longrightarrow> rsat E' P' r"
  by (cases r) simp_all

lemma rsat_fold:
  assumes "I s" and "\<And>x s. x \<in> set xs \<Longrightarrow> I s \<Longrightarrow> rsat E I (f x s)"
  shows "rsat E I (rfold f xs s)"
  using assms
proof (induction xs arbitrary: s)
  case (Cons x xs)
  then show ?case by (auto intro!: rsat_bind [of E I])
qed simp

text \<open>\<open>v[i]\<close> on a \<open>std::vector\<close>: the code does not check the index.\<close>

definition vec_read :: "'a list \<Rightarrow> nat \<Rightarrow> 'a result" where
  "vec_read xs i = (if i < length xs then Inr (xs ! i) else Inl Undefined)"

lemma vec_read_in [simp]: "i < length xs \<Longrightarrow> vec_read xs i = Inr (xs ! i)"
  by (simp add: vec_read_def)

lemma vec_read_out [simp]: "length xs \<le> i \<Longrightarrow> vec_read xs i = Inl Undefined"
  by (simp add: vec_read_def)

lemma map_fixpoint: "map f xs = xs \<Longrightarrow> x \<in> set xs \<Longrightarrow> f x = x"
  by (induction xs) auto

section \<open>Words\<close>

lemma word_in_upto:
  fixes x :: "'a::len word"
  assumes "unat x < n"
  shows "x \<in> set (map word_of_nat [0..<n])"
proof -
  have "word_of_nat (unat x) \<in> (word_of_nat ` {0..<n} :: 'a word set)"
    using assms by (intro imageI) simp
  then show ?thesis by simp
qed

lemma all_words_upto:
  fixes P :: "'a::len word \<Rightarrow> bool"
  assumes "list_all (\<lambda>i. P (word_of_nat i)) [0..<n]" and "unat x < n"
  shows "P x"
proof -
  have "unat x \<in> set [0..<n]" using assms(2) by simp
  with assms(1) have "P (word_of_nat (unat x))" unfolding list_all_iff by (rule bspec)
  then show ?thesis by simp
qed

lemma u8_ball:
  fixes P :: "u8 \<Rightarrow> bool"
  assumes "list_all (\<lambda>i. P (word_of_nat i)) [0..<256]"
  shows "P x"
  by (rule all_words_upto [OF assms]) (use unsigned_less [of x, where 'a = nat] in simp)

text \<open>
  The masks the code writes as hexadecimal literals, as \<open>take_bit\<close>, whose bits the
  simplifier computes (\<open>bit_simps\<close>).
\<close>

lemma mask_literals:
  "(1 :: 'a::len word) = mask 1" "(3 :: 'a word) = mask 2" "(7 :: 'a word) = mask 3"
  "(0xf :: 'a word) = mask 4" "(0x1f :: 'a word) = mask 5" "(0x3f :: 'a word) = mask 6"
  "(0x7f :: 'a word) = mask 7" "(0xff :: 'a word) = mask 8" "(0x1ff :: 'a word) = mask 9"
  "(0x3ff :: 'a word) = mask 10" "(0x7ff :: 'a word) = mask 11" "(0xffff :: 'a word) = mask 16"
  "(0xffffff :: 'a word) = mask 24"
  by (simp_all add: mask_eq_exp_minus_1)

lemma and_literals [bits_simps]:
  fixes x :: "'a::len word"
  shows "x AND 1 = take_bit 1 x" "x AND 3 = take_bit 2 x" "x AND 7 = take_bit 3 x"
    "x AND 0xf = take_bit 4 x" "x AND 0x1f = take_bit 5 x" "x AND 0x3f = take_bit 6 x"
    "x AND 0x7f = take_bit 7 x" "x AND 0xff = take_bit 8 x" "x AND 0x1ff = take_bit 9 x"
    "x AND 0x3ff = take_bit 10 x" "x AND 0x7ff = take_bit 11 x"
    "x AND 0xffff = take_bit 16 x" "x AND 0xffffff = take_bit 24 x"
  by (simp_all only: mask_literals take_bit_eq_mask)

lemmas [bits_simps] = bit_simps

text \<open>
  The bits of the literals of the code; the simplifier reduces \<open>bit\<close> of a word numeral to
  \<open>bit\<close> of the integer numeral, so the facts are stated there.
\<close>

lemma bit_pow2_int: "(b :: int) = 2 ^ m \<Longrightarrow> bit b n \<longleftrightarrow> n = m"
  by (simp only: bit_exp_iff) auto

lemma bit_mask_int: "(b :: int) = mask m \<Longrightarrow> bit b n \<longleftrightarrow> n < m"
  by (simp only: bit_mask_iff) auto

lemma bit_pow2_literals [bits_simps]:
  "bit (0x2 :: int) n \<longleftrightarrow> n = 1" "bit (0x4 :: int) n \<longleftrightarrow> n = 2" "bit (0x8 :: int) n \<longleftrightarrow> n = 3"
    "bit (0x10 :: int) n \<longleftrightarrow> n = 4" "bit (0x20 :: int) n \<longleftrightarrow> n = 5" "bit (0x40 :: int) n \<longleftrightarrow> n = 6"
    "bit (0x80 :: int) n \<longleftrightarrow> n = 7" "bit (0x100 :: int) n \<longleftrightarrow> n = 8" "bit (0x200 :: int) n \<longleftrightarrow> n = 9"
    "bit (0x400 :: int) n \<longleftrightarrow> n = 10" "bit (0x800 :: int) n \<longleftrightarrow> n = 11" "bit (0x1000 :: int) n \<longleftrightarrow> n = 12"
    "bit (0x2000 :: int) n \<longleftrightarrow> n = 13" "bit (0x4000 :: int) n \<longleftrightarrow> n = 14" "bit (0x8000 :: int) n \<longleftrightarrow> n = 15"
    "bit (0x10000 :: int) n \<longleftrightarrow> n = 16" "bit (0x20000 :: int) n \<longleftrightarrow> n = 17" "bit (0x40000 :: int) n \<longleftrightarrow> n = 18"
    "bit (0x80000 :: int) n \<longleftrightarrow> n = 19" "bit (0x100000 :: int) n \<longleftrightarrow> n = 20" "bit (0x200000 :: int) n \<longleftrightarrow> n = 21"
    "bit (0x400000 :: int) n \<longleftrightarrow> n = 22" "bit (0x800000 :: int) n \<longleftrightarrow> n = 23" "bit (0x1000000 :: int) n \<longleftrightarrow> n = 24"
    "bit (0x2000000 :: int) n \<longleftrightarrow> n = 25" "bit (0x4000000 :: int) n \<longleftrightarrow> n = 26" "bit (0x8000000 :: int) n \<longleftrightarrow> n = 27"
    "bit (0x10000000 :: int) n \<longleftrightarrow> n = 28" "bit (0x20000000 :: int) n \<longleftrightarrow> n = 29" "bit (0x40000000 :: int) n \<longleftrightarrow> n = 30"
    "bit (0x80000000 :: int) n \<longleftrightarrow> n = 31"
  by (rule bit_pow2_int, simp)+

lemma bit_mask_literals [bits_simps]:
  "bit (0x3 :: int) n \<longleftrightarrow> n < 2" "bit (0x7 :: int) n \<longleftrightarrow> n < 3" "bit (0xf :: int) n \<longleftrightarrow> n < 4"
    "bit (0x1f :: int) n \<longleftrightarrow> n < 5" "bit (0x3f :: int) n \<longleftrightarrow> n < 6" "bit (0x7f :: int) n \<longleftrightarrow> n < 7"
    "bit (0xff :: int) n \<longleftrightarrow> n < 8" "bit (0x1ff :: int) n \<longleftrightarrow> n < 9" "bit (0x3ff :: int) n \<longleftrightarrow> n < 10"
    "bit (0x7ff :: int) n \<longleftrightarrow> n < 11" "bit (0xfff :: int) n \<longleftrightarrow> n < 12" "bit (0xffff :: int) n \<longleftrightarrow> n < 16"
    "bit (0xffffff :: int) n \<longleftrightarrow> n < 24" "bit (0xffffffff :: int) n \<longleftrightarrow> n < 32"
  by (rule bit_mask_int, simp add: mask_eq_exp_minus_1)+

lemma ucast_u8_u16_eq [simp]: "(ucast (a :: u8) :: u16) = ucast b \<longleftrightarrow> a = b"
proof
  assume "(ucast a :: u16) = ucast b"
  then have "(ucast (ucast a :: u16) :: u8) = ucast (ucast b :: u16)" by simp
  moreover have "ucast (ucast c :: u16) = c" for c :: u8
    by (rule bit_word_eqI) (auto simp: bit_simps)
  ultimately show "a = b" by simp
qed simp

lemma unat_take_bit_lt: "unat (take_bit n x :: 'a::len word) < 2 ^ n"
  by (simp add: unsigned_take_bit_eq)

lemma take_bit_idem_unat: "unat x < 2 ^ n \<Longrightarrow> take_bit n (x :: 'a::len word) = x"
  by (metis take_bit_nat_eq_self unsigned_take_bit_eq unsigned_word_eqI)

section \<open>Bit fields of a word\<close>

definition field_get :: "nat \<Rightarrow> nat \<Rightarrow> 'a::len word \<Rightarrow> 'a word" where
  "field_get off w v = drop_bit off v AND mask w"

definition field_put :: "nat \<Rightarrow> nat \<Rightarrow> 'a::len word \<Rightarrow> 'a word \<Rightarrow> 'a word" where
  "field_put off w x v = (v AND NOT (push_bit off (mask w))) OR push_bit off (x AND mask w)"

lemma bit_field_get: "bit (field_get off w v) n \<longleftrightarrow> n < w \<and> bit v (off + n)"
  by (auto simp: field_get_def bit_simps dest: bit_imp_le_length)

lemma bit_field_put:
  "bit (field_put off w x v :: 'a::len word) n \<longleftrightarrow>
   n < LENGTH('a) \<and> (if off \<le> n \<and> n < off + w then bit x (n - off) else bit v n)"
  by (auto simp: field_put_def bit_simps dest: bit_imp_le_length)

lemma field_get_put: "off + w \<le> LENGTH('a) \<Longrightarrow> field_get off w (field_put off w x v :: 'a::len word) = x AND mask w"
  by (rule bit_word_eqI) (auto simp: bit_field_get bit_field_put bit_simps)

lemma field_get_put_other:
  "off + w \<le> off' \<or> off' + w' \<le> off \<Longrightarrow> off' + w' \<le> LENGTH('a) \<Longrightarrow>
   field_get off' w' (field_put off w x v :: 'a::len word) = field_get off' w' v"
  by (rule bit_word_eqI) (auto simp: bit_field_get bit_field_put)

lemma bit_set_clear:
  "bit (v OR push_bit k 1 :: 'a::len word) n \<longleftrightarrow> bit v n \<or> n = k \<and> n < LENGTH('a)"
  "bit (v AND NOT (push_bit k 1) :: 'a::len word) n \<longleftrightarrow> bit v n \<and> n \<noteq> k"
  by (auto simp: bit_simps dest: bit_imp_le_length)

definition set_bit_to :: "nat \<Rightarrow> bool \<Rightarrow> 'a::len word \<Rightarrow> 'a word" where
  "set_bit_to k b v = (if b then v OR push_bit k 1 else v AND NOT (push_bit k 1))"

lemma bit_set_bit_to:
  "bit (set_bit_to k b v :: 'a::len word) n \<longleftrightarrow> (if n = k then b \<and> n < LENGTH('a) else bit v n)"
  by (auto simp: set_bit_to_def bit_simps dest: bit_imp_le_length)

lemma and_push_bit_1: "(v AND push_bit k 1 \<noteq> (0 :: 'a::len word)) \<longleftrightarrow> bit v k"
  by (simp add: bit_iff_and_push_bit_not_eq_0)

end
