(* ===== verification/Six_Eight.thy ===== *)
theory Six_Eight
  imports Yarr_Prelude
begin

text \<open>
  Namespace \<open>SixEight\<close> of src/src/libStar/include/LCBUtils.h: the 6b/8b line code of the
  strip LCB link and its four control characters, and the locale \<open>line_code\<close> of what a
  user of a line code relies on, which this code and the 5b/8b code of the pixel chips both
  provide.
\<close>

section \<open>The code\<close>

function count_bits :: "u8 \<Rightarrow> int" where
  "count_bits d = (if d = 0 then 0 else uint (d AND 1) + count_bits (drop_bit 1 d AND 0x1f))"
  by pat_completeness auto
termination
proof (relation "measure unat", goal_cases)
  case (2 d)
  have "unat (drop_bit 1 d AND 0x1f) \<le> unat (drop_bit 1 d)"
    by (simp add: word_and_le2 flip: word_le_nat_alt)
  also have "\<dots> = unat d div 2" by (metis drop_bit_eq_div power_one_right unat_drop_bit_eq)
  also have "\<dots> < unat d" using 2 by (simp add: unat_gt_0)
  finally show ?case by simp
qed simp

declare count_bits.simps [simp del]

definition disparity :: "u8 \<Rightarrow> int" where
  "disparity d = 2 * count_bits d - 6"

text \<open>
  The inner switches of \<open>encode\<close>. The one for disparity \<open>-4\<close> has no default and no
  break, so a value it does not list falls through into the one for disparity \<open>4\<close>, and a
  value neither lists leaves both and returns \<open>0xff\<close>.
\<close>

definition encode_disp4 :: "u8 \<Rightarrow> u8" where
  "encode_disp4 data6 =
     (case map_of [(0x3e, 0x4e), (0x3d, 0x4d), (0x3b, 0x5a), (0x37, 0x56), (0x2f, 0x6c),
                   (0x1f, 0x5c)] data6 of
        Some c \<Rightarrow> c | None \<Rightarrow> 0xff)"

definition encode_disp_m4 :: "u8 \<Rightarrow> u8" where
  "encode_disp_m4 data6 =
     (case map_of [(0x01, 0x71), (0x02, 0x72), (0x04, 0x65), (0x08, 0x69), (0x10, 0x53),
                   (0x20, 0x63)] data6 of
        Some c \<Rightarrow> c | None \<Rightarrow> encode_disp4 data6)"

definition encode :: "u8 \<Rightarrow> u8" where
  "encode data6 =
     (let d = disparity data6 in
      if d = 0 then 0x80 OR data6
      else if d = 2 then (if data6 = 0x0f then 0x4b else 0x00 OR data6)
      else if d = -2 then (if data6 = 0x30 then 0x74 else 0xc0 OR data6)
      else if d = -6 then 0x59
      else if d = 6 then 0x66
      else if d = -4 then encode_disp_m4 data6
      else if d = 4 then encode_disp4 data6
      else 0xff)"

definition kcode :: "int \<Rightarrow> u8" where
  "kcode k =
     (if k = 0 \<or> k = 56 then 0x78
      else if k = 1 \<or> k = 21 then 0x55
      else if k = 2 \<or> k = 7 then 0x47
      else if k = 3 \<or> k = 42 then 0x6a
      else 0xff)"

definition decode_table :: "(u8 \<times> u8) list" where
  "decode_table =
     [(0x78, 0x80), (0x55, 0x81), (0x47, 0x82), (0x6a, 0x83),
      (0x4e, 0x3e), (0x4d, 0x3d), (0x5a, 0x3b), (0x56, 0x37), (0x6c, 0x2f), (0x5c, 0x1f),
      (0x71, 0x01), (0x72, 0x02), (0x65, 0x04), (0x69, 0x08), (0x53, 0x10), (0x63, 0x20),
      (0x59, 0x00), (0x66, 0x3f),
      (0x4b, 0x0f), (0x74, 0x30)]"

definition decode :: "u8 \<Rightarrow> u8" where
  "decode data8 = (case map_of decode_table data8 of Some v \<Rightarrow> v | None \<Rightarrow> data8 AND 0x3f)"

definition valid_codes :: "u8 list" where
  "valid_codes =
     [0x78, 0x55, 0x47, 0x6a,
      0x4e, 0x4d, 0x5a, 0x56, 0x6c, 0x5c,
      0x71, 0x72, 0x65, 0x69, 0x53, 0x63,
      0x59, 0x66,
      0x4b, 0x74,
      23, 27, 29, 30, 39, 43, 45, 46, 51, 53, 54, 57, 58, 60, 135, 139, 141, 142, 147, 149,
      150, 153, 154, 156, 163, 165, 166, 169, 170, 172, 177, 178, 180, 184, 195, 197, 198,
      201, 202, 204, 209, 210, 212, 216, 225, 226, 228, 232]"

definition is_valid :: "u8 \<Rightarrow> bool" where
  "is_valid data8 \<longleftrightarrow> data8 \<in> set valid_codes"

definition is_kcode :: "u8 \<Rightarrow> bool" where
  "is_kcode data8 \<longleftrightarrow>
     data8 = kcode 0 \<or> data8 = kcode 1 \<or> data8 = kcode 2 \<or> data8 = kcode 3"

section \<open>Exhaustive facts\<close>

text \<open>The code words of the 64 data values, computed once from the definition.\<close>

abbreviation six_values :: "'a::{numeral,zero} list" where
  "six_values \<equiv>
  [0, 1, 2, 3, 4, 5, 6, 7, 8, 9, 10, 11, 12, 13, 14, 15, 16, 17, 18, 19, 20, 21, 22, 23, 24,
   25, 26, 27, 28, 29, 30, 31, 32, 33, 34, 35, 36, 37, 38, 39, 40, 41, 42, 43, 44, 45, 46,
   47, 48, 49, 50, 51, 52, 53, 54, 55, 56, 57, 58, 59, 60, 61, 62, 63]"

lemma upt64:
  "[0..<64] = six_values"
  by (simp add: upt_rec)

lemma six_bit_cases:
  "unat (x::u8) < 64 \<Longrightarrow> x \<in> set six_values"
  by (drule word_in_upto) (simp add: upt64)

lemma encode_table:
  "map encode six_values =
  [89, 113, 114, 195, 101, 197, 198, 135, 105, 201, 202, 139, 204, 141, 142,
   75, 83, 209, 210, 147, 212, 149, 150, 23, 216, 153, 154, 27, 156, 29, 30, 92, 99, 225, 226, 163,
   228, 165, 166, 39, 232, 169, 170, 43, 172, 45, 46, 108, 116, 177, 178, 51, 180, 53, 54, 86, 184,
   57, 58, 90, 60, 77, 78, 102]"
  by (simp add: encode_def disparity_def count_bits.simps encode_disp4_def encode_disp_m4_def)

lemmas encode_simps = encode_table [simplified list.map list.inject simp_thms]

lemma kcode_simps: "kcode 0 = 0x78" "kcode 1 = 0x55" "kcode 2 = 0x47" "kcode 3 = 0x6a"
  by (simp_all add: kcode_def)

lemmas code_word_simps = encode_simps kcode_simps decode_def decode_table_def is_valid_def
  valid_codes_def is_kcode_def

lemma encode_all:
  assumes "list_all (\<lambda>c. P c) (map encode six_values)"
    and "unat d < 64"
  shows "P (encode d)"
proof -
  have "encode d \<in> encode ` set six_values"
    using six_bit_cases [OF assms(2)] by (rule imageI)
  with assms(1) show ?thesis unfolding list_all_iff set_map by (rule bspec)
qed

lemma decode_encode_table:
  "map (\<lambda>d. decode (encode d)) six_values = six_values"
  by (simp add: encode_simps decode_def decode_table_def)

lemma decode_encode: "unat d < 64 \<Longrightarrow> decode (encode d) = d"
  by (rule map_fixpoint [OF decode_encode_table]) (rule six_bit_cases)

lemma is_valid_encode: "unat d < 64 \<Longrightarrow> is_valid (encode d)"
  by (rule encode_all) (simp_all add: encode_simps is_valid_def valid_codes_def)

lemma not_is_kcode_encode: "unat d < 64 \<Longrightarrow> \<not> is_kcode (encode d)"
  by (rule encode_all) (simp_all add: encode_simps is_kcode_def kcode_simps)

lemma decode_le_six: "unat d < 64 \<Longrightarrow> unat (decode (encode d)) < 64"
  by (simp add: decode_encode)

text \<open>The valid codes are the images of the data values and of the four control characters.\<close>

lemma valid_codes_image:
  "set valid_codes = encode ` {d. unat d < 64} \<union> kcode ` {0, 1, 2, 3}"
proof -
  have "{d::u8. unat d < 64} = set six_values"
    by (intro equalityI subsetI) (simp only: mem_Collect_eq six_bit_cases, auto)
  then have img: "encode ` {d. unat d < 64} \<union> kcode ` {0, 1, 2, 3} = set (map encode six_values) \<union> set (map kcode [0, 1, 2, 3])"
    by (simp only: list.set list.map image_insert image_empty)
  show ?thesis
    unfolding img valid_codes_def list.map kcode_simps
    by (rule equalityI) (simp_all add: encode_simps)
qed

text \<open>Number of ones of a code word; four in every valid one, so the line stays balanced.\<close>

definition ones8 :: "u8 \<Rightarrow> nat" where
  "ones8 c = length (filter (bit c) [0..<8])"

lemma valid_codes_balanced: "c \<in> set valid_codes \<Longrightarrow> ones8 c = 4"
proof -
  have "list_all (\<lambda>c. ones8 c = 4) valid_codes"
    unfolding ones8_def by code_simp
  then show "c \<in> set valid_codes \<Longrightarrow> ones8 c = 4" by (simp add: list_all_iff)
qed

lemma is_valid_balanced: "is_valid c \<Longrightarrow> ones8 c = 4"
  unfolding is_valid_def by (rule valid_codes_balanced)

text \<open>Inverting one bit of a byte changes its number of ones by exactly one.\<close>

lemma ones8_sum: "ones8 c = (\<Sum>i\<in>{0..<8}. of_bool (bit c i))"
proof -
  have "ones8 c = card (set (filter (bit c) [0..<8]))"
    unfolding ones8_def by (rule distinct_card [symmetric]) simp
  also have "set (filter (bit c) [0..<8]) = {0..<8} \<inter> Collect (bit c)" by auto
  finally show ?thesis by (simp add: of_bool_def sum.If_cases)
qed

lemma ones8_flip: "n < 8 \<Longrightarrow> ones8 (flip_bit n c) \<noteq> ones8 c"
proof -
  assume n: "n < 8"
  have "(\<Sum>i\<in>{0..<8} - {n}. of_bool (bit (flip_bit n c) i)) =
        ((\<Sum>i\<in>{0..<8} - {n}. of_bool (bit c i)) :: nat)"
    by (rule sum.cong) (auto simp: bit_flip_bit_iff)
  moreover have "(of_bool (bit (flip_bit n c) n) :: nat) \<noteq> of_bool (bit c n)"
    using n by (simp add: bit_flip_bit_iff)
  ultimately show ?thesis
    using n unfolding ones8_sum by (subst (1 2) sum.remove [of _ n]) auto
qed

lemma flip_not_valid: "is_valid c \<Longrightarrow> n < 8 \<Longrightarrow> \<not> is_valid (flip_bit n c)"
  using is_valid_balanced ones8_flip by metis

lemma take6_lt: "unat (d AND 0x3f :: u8) < 64"
  using unat_take_bit_lt [of 6 d] by (simp add: bits_simps)

section \<open>Properties\<close>

text \<open>C22: Each of the 64 data values has a code word that decodes back to it, that
  \<open>is_valid\<close> accepts, that is no control character, and that has four ones and four zeros.\<close>

theorem six_eight_code:
  "let c = encode (d AND 0x3f) in
     decode c = d AND 0x3f \<and> is_valid c \<and> \<not> is_kcode c \<and> ones8 c = 4"
  unfolding Let_def
  by (intro conjI decode_encode is_valid_encode not_is_kcode_encode is_valid_balanced take6_lt)

text \<open>The table of valid codes, which the code writes as a list of 68 literals, is exact:
  a byte is valid if and only if it is the code word of a data value or one of the four control
  characters.\<close>

theorem is_valid_iff_code:
  "is_valid c \<longleftrightarrow> (\<exists>d. c = encode (d AND 0x3f)) \<or> c \<in> {kcode 0, kcode 1, kcode 2, kcode 3}"
proof -
  have "encode ` {d. unat d < 64} = range (\<lambda>d. encode (d AND 0x3f))"
  proof (intro equalityI subsetI)
    fix c assume "c \<in> encode ` {d. unat d < 64}"
    then obtain d where d: "unat d < 64" "c = encode d" by auto
    then have "d AND 0x3f = d" by (simp add: bits_simps take_bit_idem_unat)
    with d(2) show "c \<in> range (\<lambda>d. encode (d AND 0x3f))" by (metis rangeI)
  qed (use take6_lt in auto)
  moreover have "is_valid c \<longleftrightarrow> c \<in> encode ` {d. unat d < 64} \<or> c \<in> kcode ` {0, 1, 2, 3}"
    using valid_codes_image unfolding is_valid_def by blast
  ultimately show ?thesis by auto
qed

end
