(* ===== verification/Line_Code.thy ===== *)
theory Line_Code
  imports Yarr_Prelude
begin

text \<open>
  Both links of the program send data in line-coded symbols: 6b/8b on the strip LCB link
  (src/src/libStar/include/LCBUtils.h) and 5b/8b in the pixel command stream
  (src/src/libRd53b/include/Rd53bCmd.h). The callers use two things of such a code: decoding an
  encoded value gives it back, and a 16-bit frame carries two symbols, high byte first. The
  locale states the first and derives what the callers need of the second.
\<close>

section \<open>Frames of two symbols\<close>

definition join8 :: "u8 \<Rightarrow> u8 \<Rightarrow> u16" where
  "join8 f s = push_bit 8 (ucast f) OR ucast s"

definition hi8 :: "u16 \<Rightarrow> u8" where
  "hi8 f = ucast (drop_bit 8 f AND 0xff)"

definition lo8 :: "u16 \<Rightarrow> u8" where
  "lo8 f = ucast (f AND 0xff)"

lemma hi8_join8 [simp]: "hi8 (join8 a b) = a"
  unfolding hi8_def join8_def
  by (rule bit_word_eqI) (auto simp: bits_simps dest: bit_imp_le_length)

lemma lo8_join8 [simp]: "lo8 (join8 a b) = b"
  unfolding lo8_def join8_def
  by (rule bit_word_eqI) (auto simp: bits_simps dest: bit_imp_le_length)

lemma join8_hi8_lo8 [simp]: "join8 (hi8 f) (lo8 f) = f"
  unfolding hi8_def lo8_def join8_def
  by (rule bit_word_eqI) (auto simp: bits_simps dest: bit_imp_le_length)

lemma join8_inject [simp]: "join8 a b = join8 c d \<longleftrightarrow> a = c \<and> b = d"
  by (metis hi8_join8 lo8_join8)

lemma frame_cases: obtains a b where "f = join8 a b"
  by (metis join8_hi8_lo8)

section \<open>The interface of a line code\<close>

locale line_code =
  fixes enc dec :: "u8 \<Rightarrow> u8"
    and w :: nat
  assumes width: "w \<le> 8"
    and dec_enc: "unat d < 2 ^ w \<Longrightarrow> dec (enc d) = d"
begin

lemma enc_inj: "inj_on enc {d. unat d < 2 ^ w}"
  by (rule inj_onI) (metis dec_enc mem_Collect_eq)

text \<open>The value \<open>x\<close> split into two \<open>w\<close>-bit halves, sent as one frame and joined again.\<close>

lemma dec_enc_take: "dec (enc (ucast (take_bit w (x :: u16)))) = ucast (take_bit w x)"
proof (rule dec_enc)
  have "unat (ucast (take_bit w x) :: u8) \<le> unat (take_bit w x)"
    by (simp add: unsigned_ucast_eq take_bit_nat_less_eq_self)
  also have "\<dots> < 2 ^ w" by (simp add: unsigned_take_bit_eq)
  finally show "unat (ucast (take_bit w x) :: u8) < 2 ^ w" .
qed

lemma frame_roundtrip:
  fixes x :: u16
  assumes "f = join8 (enc (ucast (take_bit w (drop_bit w x)))) (enc (ucast (take_bit w x)))"
  shows "(push_bit w (ucast (dec (hi8 f))) OR ucast (dec (lo8 f)) :: u16) = take_bit (2 * w) x"
  unfolding assms hi8_join8 lo8_join8 dec_enc_take
  using width by (intro bit_word_eqI) (auto simp: bit_simps mult_2)

end

end
