(* ===== verification/Lcb_Frames.thy ===== *)
theory Lcb_Frames
  imports Six_Eight Line_Code
begin

text \<open>
  Namespace \<open>LCB\<close> of src/src/libStar/include/LCBUtils.h: the 16-bit frames of the strip
  control link, built from two 6b/8b symbols. A data frame carries twelve bits: a bunch counter
  reset, a four-bit trigger mask and a seven-bit tag, or, when the top five are clear, seven bits
  of a register command. A frame that starts with the control character K3 is a fast command.
  The lemmas show what each reader returns on each builder.
\<close>

section \<open>The 6b/8b code as a line code\<close>

interpretation lcb: line_code encode decode 6
  by unfold_locales (simp_all add: decode_encode)

lemma valid_encode6 [simp]: "is_valid (encode (ucast (take_bit 6 (x :: 'a::len word))))"
proof (rule is_valid_encode)
  have "unat (ucast (take_bit 6 x) :: u8) \<le> unat (take_bit 6 x)"
    by (simp add: unsigned_ucast_eq take_bit_nat_less_eq_self)
  also have "\<dots> < 2 ^ 6" by (rule unat_take_bit_lt)
  finally show "unat (ucast (take_bit 6 x) :: u8) < 64" by simp
qed

lemma not_kcode_encode6 [simp]: "\<not> is_kcode (encode (ucast (take_bit 6 (x :: 'a::len word))))"
proof (rule not_is_kcode_encode)
  have "unat (ucast (take_bit 6 x) :: u8) \<le> unat (take_bit 6 x)"
    by (simp add: unsigned_ucast_eq take_bit_nat_less_eq_self)
  also have "\<dots> < 2 ^ 6" by (rule unat_take_bit_lt)
  finally show "unat (ucast (take_bit 6 x) :: u8) < 64" by simp
qed

section \<open>Frames\<close>

definition K0 :: u8 where "K0 = kcode 0"
definition K1 :: u8 where "K1 = kcode 1"
definition K2 :: u8 where "K2 = kcode 2"
definition K3 :: u8 where "K3 = kcode 3"

lemmas K_defs = K0_def K1_def K2_def K3_def

datatype FastCmdType =
    NONE | RESVD | LOGIC_RESET | ABC_REG_RESET | ABC_SEU_RESET | ABC_CAL_PULSE
  | ABC_DIGITAL_PULSE | ABC_HIT_COUNT_RESET | ABC_HIT_COUNT_START | ABC_HIT_COUNT_STOP
  | ABC_SLOW_COMMAND_RESET | HCC_STOP_PRLP | HCC_REG_RESET | HCC_SEU_RESET | HCC_PLL_RESET
  | HCC_START_PRLP

text \<open>The enumerators in the order of their values 0 to 15.\<close>

definition fast_cmds :: "FastCmdType list" where
  "fast_cmds =
     [NONE, RESVD, LOGIC_RESET, ABC_REG_RESET, ABC_SEU_RESET, ABC_CAL_PULSE,
      ABC_DIGITAL_PULSE, ABC_HIT_COUNT_RESET, ABC_HIT_COUNT_START, ABC_HIT_COUNT_STOP,
      ABC_SLOW_COMMAND_RESET, HCC_STOP_PRLP, HCC_REG_RESET, HCC_SEU_RESET, HCC_PLL_RESET,
      HCC_START_PRLP]"

fun fast_code :: "FastCmdType \<Rightarrow> u8" where
  "fast_code NONE = 0"
| "fast_code RESVD = 1"
| "fast_code LOGIC_RESET = 2"
| "fast_code ABC_REG_RESET = 3"
| "fast_code ABC_SEU_RESET = 4"
| "fast_code ABC_CAL_PULSE = 5"
| "fast_code ABC_DIGITAL_PULSE = 6"
| "fast_code ABC_HIT_COUNT_RESET = 7"
| "fast_code ABC_HIT_COUNT_START = 8"
| "fast_code ABC_HIT_COUNT_STOP = 9"
| "fast_code ABC_SLOW_COMMAND_RESET = 10"
| "fast_code HCC_STOP_PRLP = 11"
| "fast_code HCC_REG_RESET = 12"
| "fast_code HCC_SEU_RESET = 13"
| "fast_code HCC_PLL_RESET = 14"
| "fast_code HCC_START_PRLP = 15"

definition build_pair :: "u8 \<Rightarrow> u8 \<Rightarrow> u16" where
  "build_pair f s = push_bit 8 (ucast f) OR ucast s"

definition split_pair :: "u16 \<Rightarrow> u8 \<times> u8" where
  "split_pair f = (ucast (drop_bit 8 f AND 0xff), ucast (f AND 0xff))"

definition IDLE :: u16 where
  "IDLE = build_pair K0 K1"

definition raw_bits :: "u16 \<Rightarrow> u16" where
  "raw_bits bs =
     push_bit 8 (ucast (encode (ucast (drop_bit 6 bs AND 0x3f)))) OR
     ucast (encode (ucast (bs AND 0x3f)))"

definition l0a_mask :: "u8 \<Rightarrow> u8 \<Rightarrow> bool \<Rightarrow> u16" where
  "l0a_mask m tag bcr =
     raw_bits ((if bcr then 0x800 else 0) OR push_bit 7 (ucast (m AND 0xf)) OR
               ucast (tag AND 0x7f))"

definition lonely_bcr :: u16 where
  "lonely_bcr = raw_bits 0x800"

text \<open>The twelve bits that the readers below each rebuild from the two symbols.\<close>

definition twelve :: "u16 \<Rightarrow> u16" where
  "twelve f = ucast (decode (ucast (f AND 0xff))) OR
              push_bit 6 (ucast (decode (ucast (drop_bit 8 f AND 0xff))))"

definition has_kcode :: "u16 \<Rightarrow> bool" where
  "has_kcode f \<longleftrightarrow> is_kcode (ucast (f AND 0xff)) \<or> is_kcode (ucast (drop_bit 8 f AND 0xff))"

definition is_l0a_bcr :: "u16 \<Rightarrow> bool" where
  "is_l0a_bcr f = (if has_kcode f then False else twelve f AND 0xf80 \<noteq> 0)"

definition is_bcr :: "u16 \<Rightarrow> bool" where
  "is_bcr f = (if has_kcode f then False else twelve f AND 0x800 \<noteq> 0)"

definition get_l0_mask :: "u16 \<Rightarrow> u16" where
  "get_l0_mask f = drop_bit 7 (twelve f) AND 0xf"

definition get_l0_tag :: "u16 \<Rightarrow> u16" where
  "get_l0_tag f = twelve f AND 0x7f"

definition command_bits :: "u16 \<Rightarrow> u16" where
  "command_bits data = raw_bits (data AND 0x7f)"

definition get_command_bits :: "u16 \<Rightarrow> u16" where
  "get_command_bits f = twelve f AND 0x7f"

definition fast_command :: "FastCmdType \<Rightarrow> u8 \<Rightarrow> u16" where
  "fast_command type delay =
     push_bit 8 (ucast K3) OR ucast (encode (push_bit 4 (delay AND 3) OR (fast_code type AND 0xf)))"

definition is_fast_command :: "u16 \<Rightarrow> bool" where
  "is_fast_command f \<longleftrightarrow> drop_bit 8 f = ucast K3"

definition get_fast_command_bc :: "u16 \<Rightarrow> u8" where
  "get_fast_command_bc f = (let six = decode (ucast (f AND 0xff)) in drop_bit 4 six AND 0xf)"

definition get_fast_command :: "u16 \<Rightarrow> FastCmdType" where
  "get_fast_command f = (let six = decode (ucast (f AND 0xff)) in fast_cmds ! unat (six AND 0xf))"

definition is_valid_frame :: "u16 \<Rightarrow> bool" where
  "is_valid_frame f \<longleftrightarrow>
     is_valid (ucast (f AND 0xff)) \<and> is_valid (ucast (drop_bit 8 f AND 0xff))"

section \<open>Readers on builders\<close>

lemma build_pair_join8: "build_pair = join8"
  by (simp add: fun_eq_iff build_pair_def join8_def)

lemma raw_bits_join8:
  "raw_bits x = join8 (encode (ucast (take_bit 6 (drop_bit 6 x)))) (encode (ucast (take_bit 6 x)))"
  by (simp add: raw_bits_def join8_def and_literals)

lemma twelve_hi_lo: "twelve f = push_bit 6 (ucast (decode (hi8 f))) OR ucast (decode (lo8 f))"
  by (simp add: twelve_def hi8_def lo8_def or.commute)

lemma has_kcode_hi_lo: "has_kcode f \<longleftrightarrow> is_kcode (lo8 f) \<or> is_kcode (hi8 f)"
  by (simp add: has_kcode_def hi8_def lo8_def)

lemma is_valid_frame_hi_lo: "is_valid_frame f \<longleftrightarrow> is_valid (lo8 f) \<and> is_valid (hi8 f)"
  by (simp add: is_valid_frame_def hi8_def lo8_def)

lemma twelve_raw_bits [simp]: "twelve (raw_bits x) = take_bit 12 x"
  unfolding twelve_hi_lo by (rule lcb.frame_roundtrip [OF raw_bits_join8, simplified])

lemma has_kcode_raw_bits [simp]: "\<not> has_kcode (raw_bits x)"
  by (simp add: has_kcode_hi_lo raw_bits_join8)

lemma is_valid_raw_bits [simp]: "is_valid_frame (raw_bits x)"
  by (simp add: is_valid_frame_hi_lo raw_bits_join8)

lemma is_fast_command_hi: "is_fast_command f \<longleftrightarrow> hi8 f = K3"
proof -
  have "drop_bit 8 f = ucast (hi8 f)"
    unfolding hi8_def
    by (rule bit_word_eqI) (auto simp: bits_simps dest: bit_imp_le_length)
  then show ?thesis
    unfolding is_fast_command_def by (simp add: ucast_u8_u16_eq)
qed

lemma kcode_K [simp]: "is_kcode K0" "is_kcode K1" "is_kcode K2" "is_kcode K3"
  by (simp_all add: is_kcode_def K_defs)

lemma valid_K [simp]: "is_valid K0" "is_valid K1" "is_valid K2" "is_valid K3"
  by (simp_all add: K_defs kcode_simps is_valid_def valid_codes_def)

lemma not_fast_command_raw_bits [simp]: "\<not> is_fast_command (raw_bits x)"
proof -
  have "hi8 (raw_bits x) \<noteq> K3"
    using has_kcode_raw_bits [of x] kcode_K(4) by (auto simp: has_kcode_hi_lo)
  then show ?thesis by (simp add: is_fast_command_hi)
qed

text \<open>The fields of a trigger frame.\<close>

lemma and_0x800: "(x :: u16) AND 0x800 \<noteq> 0 \<longleftrightarrow> bit x 11"
proof -
  have "(x AND 0x800) = push_bit 11 (of_bool (bit x 11))"
    by (intro bit_word_eqI) (auto simp: bits_simps)
  then show ?thesis by simp
qed

lemma and_0xf80: "(x :: u16) AND 0xf80 \<noteq> 0 \<longleftrightarrow> bit x 11 \<or> drop_bit 7 x AND 0xf \<noteq> 0"
proof -
  have m: "bit (0xf80 :: int) n \<longleftrightarrow> n = 11 \<or> 7 \<le> n \<and> n - 7 < 4" for n
  proof -
    have "(0xf80 :: int) = push_bit 7 (mask 5)" by (simp add: mask_eq_exp_minus_1)
    then show ?thesis by (simp only: bit_push_bit_iff bit_mask_iff) auto
  qed
  have split: "x AND 0xf80 = (x AND 0x800) OR push_bit 7 (take_bit 4 (drop_bit 7 x))"
    by (intro bit_word_eqI) (auto simp: bits_simps m)
  have inj: "push_bit 7 (take_bit 4 y) = 0 \<longleftrightarrow> take_bit 4 y = 0" for y :: u16
  proof
    assume a: "push_bit 7 (take_bit 4 y) = 0"
    have "take_bit 4 y = drop_bit 7 (push_bit 7 (take_bit 4 y))"
      by (rule bit_word_eqI) (auto simp: bits_simps)
    with a show "take_bit 4 y = 0" by simp
  qed simp
  show ?thesis unfolding split or_eq_0_iff inj and_0x800 [symmetric] and_literals by blast
qed

lemma l0a_bits:
  fixes m tag :: u8 and bcr :: bool
  defines "x \<equiv> (if bcr then 0x800 else 0) OR push_bit 7 (ucast (m AND 0xf)) OR ucast (tag AND 0x7f) :: u16"
  shows "take_bit 12 x = x" and "drop_bit 7 x AND 0xf = ucast (m AND 0xf)"
    and "x AND 0x7f = ucast (tag AND 0x7f)" and "bit x 11 = bcr"
  unfolding x_def and_literals
     apply (rule bit_word_eqI, auto simp: bits_simps)[1]
    apply (rule bit_word_eqI, auto simp: bits_simps)[1]
   apply (rule bit_word_eqI, auto simp: bits_simps)[1]
  apply (auto simp: bits_simps)[1]
  done

lemma fast_cmds_code [simp]: "fast_cmds ! unat (fast_code t) = t"
  by (cases t) (simp_all add: fast_cmds_def)

lemma fast_code_take [simp]: "take_bit 4 (fast_code t) = fast_code t"
  by (cases t) simp_all

lemma take_bit_lt_64: "take_bit 6 (x :: u8) = x \<Longrightarrow> unat x < 64"
  using unat_take_bit_lt [of 6 x] by simp

lemma fast_six_bits:
  fixes delay :: u8 and t :: FastCmdType
  defines "x \<equiv> push_bit 4 (delay AND 3) OR (fast_code t AND 0xf)"
  shows "unat x < 64" and "drop_bit 4 x = delay AND 3" and "x AND 0xf = fast_code t"
proof -
  have "take_bit 6 x = x"
    unfolding x_def and_literals
    by (rule bit_word_eqI) (auto simp: bits_simps simp del: fast_code_take)
  then show "unat x < 64" by (rule take_bit_lt_64)
  show "drop_bit 4 x = delay AND 3"
    unfolding x_def and_literals by (rule bit_word_eqI) (auto simp: bits_simps simp del: fast_code_take dest: bit_imp_le_length)
  have "x AND 0xf = take_bit 4 (fast_code t)"
    unfolding x_def and_literals by (rule bit_word_eqI) (auto simp: bits_simps)
  then show "x AND 0xf = fast_code t" by simp
qed

lemma fast_command_join8:
  "fast_command t d = join8 K3 (encode (push_bit 4 (d AND 3) OR (fast_code t AND 0xf)))"
  by (simp add: fast_command_def join8_def)

lemma fast_frame:
  assumes "unat x < 64"
  defines "f \<equiv> join8 K3 (encode x)"
  shows "is_fast_command f" "get_fast_command f = fast_cmds ! unat (x AND 0xf)"
    "get_fast_command_bc f = drop_bit 4 x AND 0xf" "is_valid_frame f" "\<not> is_l0a_bcr f"
    "\<not> is_bcr f" "f \<noteq> IDLE"
  unfolding f_def is_fast_command_hi get_fast_command_def get_fast_command_bc_def
    is_valid_frame_hi_lo is_l0a_bcr_def is_bcr_def has_kcode_hi_lo lo8_def [symmetric]
    hi8_join8 lo8_join8
  using assms(1)
  by (simp_all add: decode_encode is_valid_encode IDLE_def build_pair_join8)
    (simp add: K_defs kcode_simps)

text \<open>The readers on a register command frame.\<close>

lemma take7_high_bits: "take_bit 7 x AND 0xf80 = (0 :: u16)" "take_bit 7 x AND 0x800 = (0 :: u16)"
proof -
  have m: "drop_bit 7 (take_bit 7 x) AND 0xf = 0"
    unfolding and_literals by (rule bit_word_eqI) (auto simp: bits_simps)
  show "take_bit 7 x AND 0xf80 = (0 :: u16)" "take_bit 7 x AND 0x800 = (0 :: u16)"
    using and_0xf80 [of "take_bit 7 x"] and_0x800 [of "take_bit 7 x"] m
    by (auto simp: bit_take_bit_iff)
qed

lemma command_bits_readers [simp]:
  "get_command_bits (command_bits x) = x AND 0x7f"
  "\<not> is_l0a_bcr (command_bits x)" "\<not> is_bcr (command_bits x)"
  "\<not> is_fast_command (command_bits x)" "\<not> has_kcode (command_bits x)"
  "is_valid_frame (command_bits x)"
proof -
  have sub: "take_bit 12 (take_bit 7 x) = take_bit 7 x"
    by (rule bit_word_eqI) (auto simp: bits_simps)
  show "get_command_bits (command_bits x) = x AND 0x7f"
    "\<not> is_l0a_bcr (command_bits x)" "\<not> is_bcr (command_bits x)"
    "\<not> is_fast_command (command_bits x)" "\<not> has_kcode (command_bits x)"
    "is_valid_frame (command_bits x)"
    unfolding command_bits_def get_command_bits_def is_l0a_bcr_def is_bcr_def and_literals
    by (simp_all add: sub take7_high_bits)
qed

lemma l0a_mask_readers:
  "get_l0_mask (l0a_mask m tag bcr) = ucast (m AND 0xf)"
  "get_l0_tag (l0a_mask m tag bcr) = ucast (tag AND 0x7f)"
  "is_bcr (l0a_mask m tag bcr) = bcr"
  "is_l0a_bcr (l0a_mask m tag bcr) \<longleftrightarrow> bcr \<or> m AND 0xf \<noteq> 0"
  "is_valid_frame (l0a_mask m tag bcr)" "\<not> is_fast_command (l0a_mask m tag bcr)"
  "\<not> has_kcode (l0a_mask m tag bcr)"
proof -
  have "is_l0a_bcr (l0a_mask m tag bcr) = (bcr \<or> ucast (m AND 0xf) \<noteq> (0 :: u16))"
    unfolding l0a_mask_def is_l0a_bcr_def
    by (simp only: has_kcode_raw_bits if_False twelve_raw_bits l0a_bits and_0xf80)
  moreover have "ucast (m AND 0xf) \<noteq> (0 :: u16) \<longleftrightarrow> m AND 0xf \<noteq> 0"
    using ucast_u8_u16_eq [of "m AND 0xf" 0] by (simp only: ucast_0)
  ultimately show "is_l0a_bcr (l0a_mask m tag bcr) \<longleftrightarrow> bcr \<or> m AND 0xf \<noteq> 0" by simp
  show "get_l0_mask (l0a_mask m tag bcr) = ucast (m AND 0xf)"
    "get_l0_tag (l0a_mask m tag bcr) = ucast (tag AND 0x7f)"
    "is_bcr (l0a_mask m tag bcr) = bcr"
    unfolding l0a_mask_def get_l0_mask_def get_l0_tag_def is_bcr_def
    by (simp_all only: has_kcode_raw_bits if_False twelve_raw_bits l0a_bits and_0x800)
  show "is_valid_frame (l0a_mask m tag bcr)" "\<not> is_fast_command (l0a_mask m tag bcr)"
    "\<not> has_kcode (l0a_mask m tag bcr)"
    by (simp_all add: l0a_mask_def)
qed

lemma fast_command_readers:
  "is_fast_command (fast_command t d)" "get_fast_command (fast_command t d) = t"
  "get_fast_command_bc (fast_command t d) = d AND 3" "is_valid_frame (fast_command t d)"
  "\<not> is_l0a_bcr (fast_command t d)" "\<not> is_bcr (fast_command t d)" "fast_command t d \<noteq> IDLE"
proof -
  have "(d AND 3) AND 0xf = d AND 3"
    unfolding and_literals by (rule bit_word_eqI) (auto simp: bits_simps)
  then show "is_fast_command (fast_command t d)" "get_fast_command (fast_command t d) = t"
    "get_fast_command_bc (fast_command t d) = d AND 3" "is_valid_frame (fast_command t d)"
    "\<not> is_l0a_bcr (fast_command t d)" "\<not> is_bcr (fast_command t d)" "fast_command t d \<noteq> IDLE"
    unfolding fast_command_join8
    by (simp_all only: fast_frame fast_six_bits fast_cmds_code simp_thms not_False_eq_True)
qed

section \<open>Properties\<close>

text \<open>C21: The fields of a trigger frame: the readers return the mask, the tag and the bunch
  counter reset it was built from; it counts as a trigger frame when the mask has a bit or the bunch counter
  reset is set, whatever the tag, and never as a fast command.\<close>

theorem l0a_mask_fields:
  "let f = l0a_mask m tag bcr in
     get_l0_mask f = ucast (m AND 0xf) \<and> get_l0_tag f = ucast (tag AND 0x7f) \<and>
     is_bcr f = bcr \<and> is_l0a_bcr f = (\<not> (\<not> bcr \<and> m AND 0xf = 0)) \<and>
     is_valid_frame f \<and> \<not> is_fast_command f"
  by (auto simp: Let_def l0a_mask_readers)

text \<open>The fields of a fast command: the readers return the command and the two bits of
  the bunch crossing slot, and no reader takes the frame for a trigger frame or the idle frame.\<close>

theorem fast_command_fields:
  "let f = fast_command t d in
     is_fast_command f \<and> get_fast_command f = t \<and> get_fast_command_bc f = d AND 3 \<and>
     is_valid_frame f \<and> \<not> is_l0a_bcr f \<and> \<not> is_bcr f \<and> f \<noteq> IDLE"
  by (simp add: Let_def fast_command_readers)

text \<open>A register command frame carries seven bits back unchanged and is neither a trigger
  frame, a bunch counter reset nor a fast command, so the frame kinds are told apart.\<close>

theorem command_bits_fields:
  "let f = command_bits x in
     get_command_bits f = x AND 0x7f \<and> is_valid_frame f \<and> \<not> is_l0a_bcr f \<and> \<not> is_bcr f \<and>
     \<not> is_fast_command f \<and> \<not> has_kcode f"
  by (simp add: Let_def)

text \<open>C23: Any single bit error on the link is seen: inverting one bit of a valid frame gives a
  frame that \<open>is_valid\<close> rejects.\<close>

theorem frame_bit_error_detected:
  assumes "is_valid_frame f" and "n < 16"
  shows "\<not> is_valid_frame (flip_bit n f)"
proof (cases "n < 8")
  case True
  have "lo8 (flip_bit n f) = flip_bit n (lo8 f)"
    unfolding lo8_def using True by (intro bit_word_eqI) (auto simp: bits_simps)
  with assms True flip_not_valid [of "lo8 f" n] show ?thesis by (simp add: is_valid_frame_hi_lo)
next
  case False
  have "hi8 (flip_bit n f) = flip_bit (n - 8) (hi8 f)"
    unfolding hi8_def using False assms(2)
    by (intro bit_word_eqI) (auto simp: bits_simps)
  with assms False flip_not_valid [of "hi8 f" "n - 8"] show ?thesis
    by (simp add: is_valid_frame_hi_lo)
qed

theorem frame_bit_error_detected_witness:
  "is_valid_frame (l0a_mask 5 9 False) \<and> \<not> is_valid_frame (flip_bit 3 (l0a_mask 5 9 False))"
proof
  show v: "is_valid_frame (l0a_mask 5 9 False)"
    by (simp add: l0a_mask_def)
  show "\<not> is_valid_frame (flip_bit 3 (l0a_mask 5 9 False))"
    by (rule frame_bit_error_detected [OF v]) simp
qed

end
