(* ===== verification/Star_Cmd.thy ===== *)
theory Star_Cmd
  imports Lcb_Frames
begin

text \<open>
  Class \<open>StarCmd\<close> (src/src/libStar/include/StarCmd.h, src/src/libStar/StarCmd.cpp): the nine
  LCB frames of a register access of the strip chips. The C++ \<open>int\<close> arguments are 32-bit
  words; every use masks them, so the arithmetic right shift of a negative address and the
  logical one agree.
\<close>

section \<open>Frames of a register access\<close>

definition command_start :: "u32 \<Rightarrow> bool \<Rightarrow> u32" where
  "command_start hccid hccNotAbc =
     (let start = (hccid AND 0xf) OR 0x10
      in if \<not> hccNotAbc then start OR 0x20 else start)"

definition value_part :: "u32 \<Rightarrow> nat \<Rightarrow> u16" where
  "value_part v i = ucast (drop_bit ((4 - i) * 7) v AND 0x7f)"

definition command_sequence ::
  "u32 \<Rightarrow> u32 \<Rightarrow> u32 \<Rightarrow> bool \<Rightarrow> u32 \<Rightarrow> bool \<Rightarrow> u16 list" where
  "command_sequence hccid abcid address readNotWrite value hccNotAbc =
     [build_pair K2 (encode (ucast (command_start hccid hccNotAbc))),
      command_bits (ucast (push_bit 6 (of_bool readNotWrite) OR push_bit 2 (abcid AND 0xf) OR
                           (drop_bit 6 address AND 3))),
      command_bits (ucast (push_bit 1 (address AND 0x3f)))] @
     map (\<lambda>i. command_bits (value_part value i)) [0..<5] @
     [build_pair K2 (encode (ucast (hccid AND 0xf)))]"

definition write_hcc_register :: "u32 \<Rightarrow> u32 \<Rightarrow> u32 \<Rightarrow> u16 list" where
  "write_hcc_register address value hccID = command_sequence hccID 0xf address False value True"

definition write_abc_register :: "u32 \<Rightarrow> u32 \<Rightarrow> u32 \<Rightarrow> u32 \<Rightarrow> u16 list" where
  "write_abc_register address value hccID abcID =
     command_sequence hccID abcID address False value False"

definition read_hcc_register :: "u32 \<Rightarrow> u32 \<Rightarrow> u16 list" where
  "read_hcc_register address hccID = command_sequence hccID 0xf address True 0 True"

definition read_abc_register :: "u32 \<Rightarrow> u32 \<Rightarrow> u32 \<Rightarrow> u16 list" where
  "read_abc_register address hccID abcID = command_sequence hccID abcID address True 0 False"

lemmas star_cmd_defs = write_hcc_register_def write_abc_register_def read_hcc_register_def
  read_abc_register_def

section \<open>What the frames carry\<close>

lemma command_sequence_length [simp]: "length (command_sequence h a r rd v x) = 9"
  by (simp add: command_sequence_def)

lemma command_sequence_nth:
  "command_sequence h a r rd v x ! 0 = build_pair K2 (encode (ucast (command_start h x)))"
  "command_sequence h a r rd v x ! 8 = build_pair K2 (encode (ucast (h AND 0xf)))"
  "command_sequence h a r rd v x ! 1 =
     command_bits (ucast (push_bit 6 (of_bool rd) OR push_bit 2 (a AND 0xf) OR (drop_bit 6 r AND 3)))"
  "command_sequence h a r rd v x ! 2 = command_bits (ucast (push_bit 1 (r AND 0x3f)))"
  by (simp_all add: command_sequence_def upt_rec)

text \<open>The start and end symbols carry six bits.\<close>

lemma command_start_six: "take_bit 6 (ucast (command_start h x) :: u8) = ucast (command_start h x)"
  unfolding command_start_def Let_def and_literals
  by (cases x; rule bit_word_eqI) (auto simp: bits_simps)

lemma command_start_fields:
  "ucast (command_start h x) AND (0xf :: u8) = ucast (h AND 0xf)"
  "bit (ucast (command_start h x) :: u8) 4"
  "bit (ucast (command_start h x) :: u8) 5 \<longleftrightarrow> \<not> x"
  unfolding command_start_def Let_def and_literals
    apply (cases x; rule bit_word_eqI)
     apply (auto simp: bits_simps)
  done

text \<open>Rebuilding a 32-bit value from its five parts, most significant first; the first part has
  only four bits.\<close>

definition join_parts :: "u16 list \<Rightarrow> u32" where
  "join_parts ps = fold (\<lambda>p acc. push_bit 7 acc OR ucast p) ps 0"

lemma join_part_step:
  "push_bit 7 (drop_bit (n + 7) v) OR ucast (ucast (drop_bit n v AND 0x7f) :: u16) = drop_bit n (v :: u32)"
proof (unfold and_literals, rule bit_word_eqI)
  fix k assume "k < LENGTH(32)"
  show "bit (push_bit 7 (drop_bit (n + 7) v) OR ucast (ucast (take_bit 7 (drop_bit n v)) :: u16)) k =
        bit (drop_bit n v) k"
  proof (cases "k < 7")
    case False
    then have "n + 7 + (k - 7) = n + k" by simp
    with False \<open>k < LENGTH(32)\<close> show ?thesis by (simp add: bit_simps)
  qed (use \<open>k < LENGTH(32)\<close> in \<open>auto simp: bit_simps\<close>)
qed

lemma join_parts_value: "join_parts (map (value_part v) [0..<5]) = v"
proof -
  have "(0 :: u32) = drop_bit 35 v"
    by (rule bit_word_eqI) (auto simp: bits_simps dest: bit_imp_le_length)
  then show ?thesis
    using join_part_step [of 28 v] join_part_step [of 21 v] join_part_step [of 14 v]
      join_part_step [of 7 v] join_part_step [of 0 v]
    unfolding join_parts_def value_part_def by (simp add: upt_rec)
qed

end
