(* ===== verification/Star_Fw.thy ===== *)
theory Star_Fw
  imports Yarr_Prelude
begin

text \<open>
  Namespace \<open>LCB_FELIX\<close> (src/src/libStar/include/LCBFwUtils.h): the byte commands that the
  FELIX firmware turns into LCB frames, the words that configure that encoder, and the
  procedure that loads a sequence into its trickle memory. The transmitter is an object of
  another component; the procedure is modelled as the list of calls it makes on it.
\<close>

section \<open>Byte commands\<close>

datatype CmdType = BYPASS | FW_IDLE | FASTCMD | L0A | ABCREGRD | HCCREGRD | ABCREGWR | HCCREGWR

fun cmd_code :: "CmdType \<Rightarrow> u8" where
  "cmd_code BYPASS = 0x00"
| "cmd_code FW_IDLE = 0x80"
| "cmd_code FASTCMD = 0x81"
| "cmd_code L0A = 0x82"
| "cmd_code ABCREGRD = 0xa0"
| "cmd_code HCCREGRD = 0xa1"
| "cmd_code ABCREGWR = 0xa2"
| "cmd_code HCCREGWR = 0xa3"

definition fw_idle :: "u8 list" where
  "fw_idle = [cmd_code FW_IDLE]"

definition fw_fast_command :: "u8 \<Rightarrow> u8 \<Rightarrow> u8 list" where
  "fw_fast_command cmdID delay = [cmd_code FASTCMD, push_bit 4 (delay AND 3) + (cmdID AND 0xf)]"

definition fw_l0a_mask :: "u8 \<Rightarrow> u8 \<Rightarrow> bool \<Rightarrow> u8 list" where
  "fw_l0a_mask m tag bcr = [cmd_code L0A, push_bit 4 (of_bool bcr) + (m AND 0xf), tag]"

definition fw_lonely_bcr :: "u8 list" where
  "fw_lonely_bcr = [cmd_code L0A, 0x10]"

definition fw_read_hcc_register :: "u32 \<Rightarrow> u32 \<Rightarrow> u8 list" where
  "fw_read_hcc_register address hccID =
     [cmd_code HCCREGRD, ucast (address AND 0xff), ucast (push_bit 4 (hccID AND 0xf))]"

definition fw_read_abc_register :: "u32 \<Rightarrow> u32 \<Rightarrow> u32 \<Rightarrow> u8 list" where
  "fw_read_abc_register address hccID abcID =
     [cmd_code ABCREGRD, ucast (address AND 0xff),
      ucast (push_bit 4 (hccID AND 0xf) + (abcID AND 0xf))]"

definition fw_write_hcc_register :: "u32 \<Rightarrow> u32 \<Rightarrow> u32 \<Rightarrow> u8 list" where
  "fw_write_hcc_register address v hccID =
     [cmd_code HCCREGWR, ucast (drop_bit 24 v), ucast (drop_bit 16 v AND 0xff),
      ucast (drop_bit 8 v AND 0xff), ucast (v AND 0xff), ucast (address AND 0xff),
      ucast (push_bit 4 (hccID AND 0xf))]"

definition fw_write_abc_register :: "u32 \<Rightarrow> u32 \<Rightarrow> u32 \<Rightarrow> u32 \<Rightarrow> u8 list" where
  "fw_write_abc_register address v hccID abcID =
     [cmd_code ABCREGWR, ucast (drop_bit 24 v), ucast (drop_bit 16 v AND 0xff),
      ucast (drop_bit 8 v AND 0xff), ucast (v AND 0xff), ucast (address AND 0xff),
      ucast (push_bit 4 (hccID AND 0xf) + (abcID AND 0xf))]"

section \<open>Configuration of the encoder\<close>

datatype ConfigReg =
    L0A_FRAME_PHASE | L0A_FRAME_DELAY | TTC_L0A_ENABLE | TTC_BCR_DELAY | GATING_TTC_ENABLE
  | GATING_BC_START | GATING_BC_STOP | TRICKLE_TRIGGER_PULSE | TRICKLE_TRIGGER_RUN
  | TRICKLE_DATA_START | TRICKLE_DATA_END | TRICKLE_WRITE_ADDR | TRICKLE_SET_WRITE_ADDR_PULSE
  | ENCODING_ENABLE | HCC_MASK | ABC_MASK_0 | ABC_MASK_1 | ABC_MASK_2 | ABC_MASK_3
  | ABC_MASK_4 | ABC_MASK_5 | ABC_MASK_6 | ABC_MASK_7 | ABC_MASK_8 | ABC_MASK_9 | ABC_MASK_A
  | ABC_MASK_B | ABC_MASK_C | ABC_MASK_D | ABC_MASK_E | ABC_MASK_F

fun config_reg_code :: "ConfigReg \<Rightarrow> u8" where
  "config_reg_code L0A_FRAME_PHASE = 0x00"
| "config_reg_code L0A_FRAME_DELAY = 0x01"
| "config_reg_code TTC_L0A_ENABLE = 0x02"
| "config_reg_code TTC_BCR_DELAY = 0x03"
| "config_reg_code GATING_TTC_ENABLE = 0x04"
| "config_reg_code GATING_BC_START = 0x05"
| "config_reg_code GATING_BC_STOP = 0x06"
| "config_reg_code TRICKLE_TRIGGER_PULSE = 0x07"
| "config_reg_code TRICKLE_TRIGGER_RUN = 0x08"
| "config_reg_code TRICKLE_DATA_START = 0x09"
| "config_reg_code TRICKLE_DATA_END = 0x0a"
| "config_reg_code TRICKLE_WRITE_ADDR = 0x0b"
| "config_reg_code TRICKLE_SET_WRITE_ADDR_PULSE = 0x0c"
| "config_reg_code ENCODING_ENABLE = 0x0d"
| "config_reg_code HCC_MASK = 0x0e"
| "config_reg_code ABC_MASK_0 = 0x0f"
| "config_reg_code ABC_MASK_1 = 0x10"
| "config_reg_code ABC_MASK_2 = 0x11"
| "config_reg_code ABC_MASK_3 = 0x12"
| "config_reg_code ABC_MASK_4 = 0x13"
| "config_reg_code ABC_MASK_5 = 0x14"
| "config_reg_code ABC_MASK_6 = 0x15"
| "config_reg_code ABC_MASK_7 = 0x16"
| "config_reg_code ABC_MASK_8 = 0x17"
| "config_reg_code ABC_MASK_9 = 0x18"
| "config_reg_code ABC_MASK_A = 0x19"
| "config_reg_code ABC_MASK_B = 0x1a"
| "config_reg_code ABC_MASK_C = 0x1b"
| "config_reg_code ABC_MASK_D = 0x1c"
| "config_reg_code ABC_MASK_E = 0x1d"
| "config_reg_code ABC_MASK_F = 0x1e"

definition LCBREG :: u8 where "LCBREG = 0x10"

definition config_command_bytes :: "u8 \<Rightarrow> u16 \<Rightarrow> u8 list" where
  "config_command_bytes addr v =
     [LCBREG, ucast (drop_bit 8 v AND 0xff), ucast (v AND 0xff), addr]"

definition config_command :: "u8 \<Rightarrow> u16 \<Rightarrow> u32" where
  "config_command addr v =
     (let cmd = config_command_bytes addr v
      in push_bit 24 (ucast (cmd ! 0)) + push_bit 16 (ucast (cmd ! 1)) +
         push_bit 8 (ucast (cmd ! 2)) + ucast (cmd ! 3))"

section \<open>Loading the trickle memory\<close>

text \<open>The calls on the transmitter; \<open>Wait_Cmd_Empty\<close> is the loop
  \<open>while(!tx.isCmdEmpty());\<close>.\<close>

datatype tx_call =
    Set_Cmd_Enable "u32 list"
  | Write_Fifo u32
  | Release_Fifo
  | Wait_Cmd_Empty

text \<open>The byte at an offset of the sequence, \<open>IDLE\<close> past its end, and the word of the
  four bytes from an index on.\<close>

definition trickle_byte :: "u8 list \<Rightarrow> nat \<Rightarrow> u8" where
  "trickle_byte sequ i = (if i < length sequ then sequ ! i else cmd_code FW_IDLE)"

definition trickle_word :: "u8 list \<Rightarrow> nat \<Rightarrow> u32" where
  "trickle_word sequ iB =
     foldl (\<lambda>word offset. word + push_bit ((3 - offset) * 8) (ucast (trickle_byte sequ (iB + offset))))
       0 [0..<4]"

text \<open>The loop \<open>for (iB=0; iB<sequence.size(); iB+=4)\<close> from index \<open>iB\<close> on, for an index that does not wrap.\<close>

function trickle_words :: "u8 list \<Rightarrow> nat \<Rightarrow> tx_call list" where
  "trickle_words sequ iB =
     (if iB < length sequ
      then [Write_Fifo (trickle_word sequ iB), Release_Fifo] @ trickle_words sequ (iB + 4)
      else [])"
  by pat_completeness auto
termination
  by (relation "measure (\<lambda>(sequ, iB). length sequ - iB)") auto

declare trickle_words.simps [simp del]

definition write_trickle_memory :: "u32 list \<Rightarrow> u32 list \<Rightarrow> u8 list \<Rightarrow> tx_call list" where
  "write_trickle_memory elinks_config elinks_trickle sequ =
     [Set_Cmd_Enable elinks_config,
      Write_Fifo (config_command (config_reg_code TRICKLE_WRITE_ADDR) 0),
      Write_Fifo (config_command (config_reg_code TRICKLE_SET_WRITE_ADDR_PULSE) 1),
      Write_Fifo (config_command (config_reg_code TRICKLE_DATA_START) 0),
      Write_Fifo (config_command (config_reg_code TRICKLE_DATA_END) (of_nat (length sequ))),
      Release_Fifo, Wait_Cmd_Empty, Set_Cmd_Enable elinks_trickle] @
     trickle_words sequ 0 @ [Wait_Cmd_Empty]"

section \<open>Properties\<close>

text \<open>The bytes of a word, most significant first, and the words written to the fifo.\<close>

definition word_bytes :: "u32 \<Rightarrow> u8 list" where
  "word_bytes w = [ucast (drop_bit 24 w), ucast (drop_bit 16 w), ucast (drop_bit 8 w), ucast w]"

fun fifo_words :: "tx_call list \<Rightarrow> u32 list" where
  "fifo_words [] = []"
| "fifo_words (Write_Fifo w # cs) = w # fifo_words cs"
| "fifo_words (_ # cs) = fifo_words cs"

lemma fifo_words_append: "fifo_words (xs @ ys) = fifo_words xs @ fifo_words ys"
  by (induction xs rule: fifo_words.induct) simp_all

definition join_word :: "u8 \<Rightarrow> u8 \<Rightarrow> u8 \<Rightarrow> u8 \<Rightarrow> u32" where
  "join_word a b c d = push_bit 24 (ucast a) OR push_bit 16 (ucast b) OR push_bit 8 (ucast c) OR ucast d"

lemma sum_is_join_word:
  "push_bit 24 (ucast a) + push_bit 16 (ucast b) + push_bit 8 (ucast c) + (ucast d :: u32) =
   join_word a b c d" for a b c d :: u8
proof -
  have 1: "push_bit 24 (ucast a) + push_bit 16 (ucast b) = push_bit 24 (ucast a) OR (push_bit 16 (ucast b) :: u32)"
    by (rule disjunctive_add_eq_or, rule bit_word_eqI) (auto simp: bits_simps dest: bit_imp_le_length)
  have 2: "(push_bit 24 (ucast a) OR push_bit 16 (ucast b)) + push_bit 8 (ucast c) =
           (push_bit 24 (ucast a) OR push_bit 16 (ucast b)) OR (push_bit 8 (ucast c) :: u32)"
    by (rule disjunctive_add_eq_or, rule bit_word_eqI) (auto simp: bits_simps dest: bit_imp_le_length)
  have 3: "((push_bit 24 (ucast a) OR push_bit 16 (ucast b)) OR push_bit 8 (ucast c)) + ucast d =
           ((push_bit 24 (ucast a) OR push_bit 16 (ucast b)) OR push_bit 8 (ucast c)) OR (ucast d :: u32)"
    by (rule disjunctive_add_eq_or, rule bit_word_eqI) (auto simp: bits_simps dest: bit_imp_le_length)
  show ?thesis unfolding 1 2 3 join_word_def by (simp add: or.assoc)
qed

lemma word_bytes_join_word [simp]: "word_bytes (join_word a b c d) = [a, b, c, d]"
  unfolding word_bytes_def join_word_def list.inject
  by (intro conjI refl; rule bit_word_eqI) (auto simp: bits_simps dest: bit_imp_le_length)

lemma join_word_bytes [simp]:
  "join_word (ucast (drop_bit 24 w)) (ucast (drop_bit 16 w)) (ucast (drop_bit 8 w)) (ucast w) = w"
proof (unfold join_word_def, rule bit_word_eqI)
  fix n assume n: "n < LENGTH(32)"
  consider "n < 8" | "8 \<le> n \<and> n < 16" | "16 \<le> n \<and> n < 24" | "24 \<le> n" by linarith
  then show "bit (push_bit 24 (ucast (ucast (drop_bit 24 w) :: u8)) OR push_bit 16 (ucast (ucast (drop_bit 16 w) :: u8)) OR
      push_bit 8 (ucast (ucast (drop_bit 8 w) :: u8)) OR ucast (ucast w :: u8) :: u32) n = bit w n"
    by cases (use n in \<open>auto simp: bit_simps\<close>)
qed

lemma trickle_word_bytes: "word_bytes (trickle_word s i) = map (trickle_byte s) [i, i + 1, i + 2, i + 3]"
  unfolding trickle_word_def
  by (simp add: upt_rec sum_is_join_word [simplified add.assoc] add.assoc numeral_3_eq_3)

lemma pad_four:
  "map (\<lambda>k. if k < length xs then xs ! k else d) [0, 1, 2, 3] =
   take 4 xs @ replicate (4 - length xs) d"
  by (cases xs; cases "tl xs"; cases "tl (tl xs)"; cases "tl (tl (tl xs))")
    (auto simp: numeral_eq_Suc)

lemma trickle_bytes_drop:
  assumes "iB \<le> length s"
  shows "map (trickle_byte s) [iB, iB + 1, iB + 2, iB + 3] =
   take 4 (drop iB s) @ replicate (4 - (length s - iB)) (cmd_code FW_IDLE)"
proof -
  have b: "trickle_byte s (iB + k) = (if k < length (drop iB s) then drop iB s ! k else cmd_code FW_IDLE)" for k
    using assms by (auto simp: trickle_byte_def)
  have "map (trickle_byte s) [iB, iB + 1, iB + 2, iB + 3] = map (\<lambda>k. trickle_byte s (iB + k)) [0, 1, 2, 3]"
    by simp
  then show ?thesis unfolding b pad_four by simp
qed

lemma trickle_bytes_from:
  assumes "iB \<le> length s"
  shows "concat (map word_bytes (fifo_words (trickle_words s iB))) =
         drop iB s @ replicate ((4 - (length s - iB) mod 4) mod 4) (cmd_code FW_IDLE)"
  using assms
proof (induction s iB rule: trickle_words.induct)
  case (1 s iB)
  show ?case
  proof (cases "iB < length s")
    case False
    with 1 show ?thesis by (simp add: trickle_words.simps)
  next
    case True
    then have step: "concat (map word_bytes (fifo_words (trickle_words s iB))) =
      map (trickle_byte s) [iB, iB + 1, iB + 2, iB + 3] @
      concat (map word_bytes (fifo_words (trickle_words s (iB + 4))))"
      by (subst trickle_words.simps) (simp add: trickle_word_bytes)
    show ?thesis
    proof (cases "iB + 4 \<le> length s")
      case whole: True
      then have m: "(length s - iB) mod 4 = (length s - (iB + 4)) mod 4"
        by (simp add: le_mod_geq)
      have "take 4 (drop iB s) @ drop (iB + 4) s = drop iB s"
        by (metis add.commute append_take_drop_id drop_drop)
      then show ?thesis
        unfolding step trickle_bytes_drop [OF 1(2)] 1(1) [OF True whole] m
        using whole by simp
    next
      case False
      then have k: "(4 - (length s - iB) mod 4) mod 4 = 4 - (length s - iB)" using True by simp
      have "trickle_words s (iB + 4) = []" using False by (simp add: trickle_words.simps)
      then show ?thesis
        unfolding step trickle_bytes_drop [OF 1(2)] k using False by simp
    qed
  qed
qed

text \<open>C20: Loading a sequence into the trickle memory of the firmware encoder: the words written
  after the memory was selected are, read as bytes, the sequence itself, filled with idle commands
  up to a multiple of four; no byte is lost, moved or repeated, and the loop ends. (Its index
  is a natural number here and \<open>unsigned\<close> in the code, which differ only for sequences of more than
  \<open>2 ^ 32 - 4\<close> bytes, far more than the memory, with its 16-bit addresses, can hold.)\<close>

theorem trickle_memory_contents:
  "concat (map word_bytes (fifo_words (drop 8 (write_trickle_memory ec et s)))) =
   s @ replicate ((4 - length s mod 4) mod 4) (cmd_code FW_IDLE)"
  using trickle_bytes_from [of 0 s]
  by (simp add: write_trickle_memory_def fifo_words_append)

text \<open>The word that sets a register of the encoder carries the register command, the
  16-bit value and the register number in fields of their own.\<close>

theorem config_command_fields:
  "let w = config_command addr v in
     drop_bit 24 w = ucast LCBREG \<and> ucast (drop_bit 8 w) = v \<and> ucast w = addr"
proof -
  have "ucast (drop_bit 8 v AND 0xff) = (ucast (drop_bit 8 v) :: u8)" "ucast (v AND 0xff) = (ucast v :: u8)"
    by (rule bit_word_eqI, auto simp: bits_simps)+
  then have w: "config_command addr v =
    join_word LCBREG (ucast (drop_bit 8 v)) (ucast v) addr"
    by (simp add: config_command_def config_command_bytes_def sum_is_join_word)
  show ?thesis
    unfolding Let_def w join_word_def LCBREG_def
    by (intro conjI; rule bit_word_eqI) (auto simp: bits_simps dest: bit_imp_le_length)
qed

end
