(* ===== verification/Star_Seq.thy ===== *)
theory Star_Seq
  imports Star_Cmd Star_Fw
begin

text \<open>
  Class \<open>StarSeqGenerator\<close> (src/src/libStar/include/StarSeqGenerator.h,
  src/src/libStar/StarSeqGenerator.cpp): it reads text commands and appends their bytes to a
  sequence, either LCB frames or the commands of the FELIX firmware, counts triggers in a
  sequence, and writes and reads sequence files. The string routines of the C++ library that it
  uses (\<open>std::stoul\<close>, white-space tokenising, \<open>std::getline\<close>) are written out. Log messages
  are left out. Memory is taken to be unbounded.
\<close>

section \<open>String routines\<close>

definition is_space :: "char \<Rightarrow> bool" where
  "is_space c \<longleftrightarrow> c \<in> set [CHR '' '', CHR 0x09, CHR 0x0a, CHR 0x0b, CHR 0x0c, CHR 0x0d]"

definition digit_val :: "char \<Rightarrow> nat option" where
  "digit_val c =
     (let n = of_char c
      in if 48 \<le> n \<and> n \<le> 57 then Some (n - 48)
         else if 97 \<le> n \<and> n \<le> 122 then Some (n - 87)
         else if 65 \<le> n \<and> n \<le> 90 then Some (n - 55)
         else None)"

definition is_digit :: "nat \<Rightarrow> char \<Rightarrow> bool" where
  "is_digit base c = (case digit_val c of Some d \<Rightarrow> d < base | None \<Rightarrow> False)"

definition digits_value :: "nat \<Rightarrow> string \<Rightarrow> nat" where
  "digits_value base ds = foldl (\<lambda>a c. a * base + the (digit_val c)) 0 ds"

text \<open>The base and the digits of a number: base 0 detects the prefixes \<open>0x\<close> and \<open>0\<close>,
  base 16 skips \<open>0x\<close> when a hexadecimal digit follows it.\<close>

definition split_base :: "nat \<Rightarrow> string \<Rightarrow> nat \<times> string" where
  "split_base base s =
     (case s of
        a # b # c # t \<Rightarrow>
          if base \<in> {0, 16} \<and> a = CHR ''0'' \<and> (b = CHR ''x'' \<or> b = CHR ''X'') \<and> is_digit 16 c
          then (16, c # t)
          else if base = 0 then (if a = CHR ''0'' then 8 else 10, s) else (base, s)
      | a # t \<Rightarrow> if base = 0 then (if a = CHR ''0'' then 8 else 10, s) else (base, s)
      | [] \<Rightarrow> (if base = 0 then 10 else base, s))"

definition split_sign :: "string \<Rightarrow> bool \<times> string" where
  "split_sign s =
     (case s of a # t \<Rightarrow> if a = CHR ''-'' then (True, t) else if a = CHR ''+'' then (False, t)
                        else (False, s)
      | [] \<Rightarrow> (False, s))"

definition stoul :: "nat \<Rightarrow> string \<Rightarrow> u64 result" where
  "stoul base s =
     (let (neg, t) = split_sign (dropWhile is_space s);
          (bs, u) = split_base base t;
          ds = takeWhile (is_digit bs) u;
          v = digits_value bs ds
      in if ds = [] then Inl Invalid_Argument
         else if 2 ^ 64 \<le> v then Inl Out_Of_Range
         else Inr (if neg then - of_nat v else of_nat v))"

text \<open>\<open>std::istream_iterator<std::string>\<close>: the maximal runs of other characters.\<close>

function tokens :: "string \<Rightarrow> string list" where
  "tokens s =
     (let t = dropWhile is_space s
      in if t = [] then []
         else takeWhile (\<lambda>c. \<not> is_space c) t # tokens (dropWhile (\<lambda>c. \<not> is_space c) t))"
  by pat_completeness auto
termination
proof (relation "measure length")
  fix s t assume t: "t = dropWhile is_space s" "t \<noteq> []"
  then have "\<not> is_space (hd t)" using hd_dropWhile by blast
  with t(2) have "length (dropWhile (\<lambda>c. \<not> is_space c) t) < length t"
    by (cases t) (auto intro: le_imp_less_Suc length_dropWhile_le)
  also have "\<dots> \<le> length s" using t(1) by (simp add: length_dropWhile_le)
  finally show "(dropWhile (\<lambda>c. \<not> is_space c) t, s) \<in> measure length" by simp
qed simp

declare tokens.simps [simp del]

text \<open>\<open>vector::at\<close>.\<close>

definition vec_at :: "'a list \<Rightarrow> nat \<Rightarrow> 'a result" where
  "vec_at xs i = (if i < length xs then Inr (xs ! i) else Inl Out_Of_Range)"

text \<open>\<open>std::getline\<close> until the stream ends; a newline at the very end opens no further line.\<close>

fun getlines :: "string \<Rightarrow> string list" where
  "getlines [] = []"
| "getlines (c # s) =
     (if c = CHR 0x0a then [] # getlines s
      else case getlines s of
             [] \<Rightarrow> [[c]]
           | l # ls \<Rightarrow> (c # l) # ls)"

section \<open>The generator\<close>

record seq_generator =
  m_sequence :: "u8 list"
  m_fw :: bool

definition seq_clear :: "seq_generator \<Rightarrow> seq_generator" where
  "seq_clear g = g\<lparr>m_sequence := []\<rparr>"

definition seq_empty :: "seq_generator \<Rightarrow> bool" where
  "seq_empty g \<longleftrightarrow> m_sequence g = []"

definition push_bytes :: "u8 list \<Rightarrow> seq_generator \<Rightarrow> seq_generator" where
  "push_bytes bs g = g\<lparr>m_sequence := m_sequence g @ bs\<rparr>"

definition frame_bytes :: "u16 \<Rightarrow> u8 list" where
  "frame_bytes f = [ucast (drop_bit 8 f AND 0xff), ucast (f AND 0xff)]"

definition addIdle :: "u32 \<Rightarrow> seq_generator \<Rightarrow> seq_generator" where
  "addIdle nframes g =
     (((\<lambda>g. if m_fw g then push_bytes [cmd_code FW_IDLE] g else push_bytes (frame_bytes IDLE) g)
       ^^ unat nframes) g)"

definition addL0 :: "u8 \<Rightarrow> u8 \<Rightarrow> bool \<Rightarrow> seq_generator \<Rightarrow> seq_generator" where
  "addL0 m tag bcr g =
     (if m_fw g then push_bytes (fw_l0a_mask m tag bcr) g
      else push_bytes (frame_bytes (l0a_mask m tag bcr)) g)"

text \<open>The cast to the enumeration keeps the low four bits, which is what the frame holds.\<close>

definition addFastCmd :: "u8 \<Rightarrow> u8 \<Rightarrow> seq_generator \<Rightarrow> seq_generator" where
  "addFastCmd type delay g =
     (if m_fw g then push_bytes (fw_fast_command type delay) g
      else push_bytes (frame_bytes (fast_command (fast_cmds ! unat (type AND 0xf)) delay)) g)"

definition addRegWrCmd :: "bool \<Rightarrow> u32 \<Rightarrow> u32 \<Rightarrow> u8 \<Rightarrow> u8 \<Rightarrow> seq_generator \<Rightarrow> seq_generator" where
  "addRegWrCmd isABC address v hccID abcID g =
     (if m_fw g then
        (if isABC then push_bytes (fw_write_abc_register address v (ucast hccID) (ucast abcID)) g
         else push_bytes (fw_write_hcc_register address v (ucast hccID)) g)
      else
        push_bytes (concat (map frame_bytes
          (if isABC then write_abc_register address v (ucast hccID) (ucast abcID)
           else write_hcc_register address v (ucast hccID)))) g)"

definition addRegRdCmd :: "bool \<Rightarrow> u32 \<Rightarrow> u8 \<Rightarrow> u8 \<Rightarrow> seq_generator \<Rightarrow> seq_generator" where
  "addRegRdCmd isABC address hccID abcID g =
     (if m_fw g then
        (if isABC then push_bytes (fw_read_abc_register address (ucast hccID) (ucast abcID)) g
         else push_bytes (fw_read_hcc_register address (ucast hccID)) g)
      else
        push_bytes (concat (map frame_bytes
          (if isABC then read_abc_register address (ucast hccID) (ucast abcID)
           else read_hcc_register address (ucast hccID)))) g)"

section \<open>Text commands\<close>

definition addIdle_tokens :: "string list \<Rightarrow> seq_generator \<Rightarrow> seq_generator result" where
  "addIdle_tokens ts g =
     rbind (rbind (vec_at ts 1) (stoul 0)) (\<lambda>n. Inr (addIdle (ucast n) g))"

definition addL0_tokens :: "string list \<Rightarrow> seq_generator \<Rightarrow> seq_generator result" where
  "addL0_tokens ts g =
     rbind (rbind (vec_at ts 1) (stoul 2)) (\<lambda>m.
     rbind (rbind (vec_at ts 2) (stoul 0)) (\<lambda>tag.
     let bcr = (if 4 \<le> length ts then ts ! 3 = ''bcr'' \<or> ts ! 3 = ''BCR'' else False)
     in Inr (addL0 (ucast (m AND 0xf)) (ucast (tag AND 0x7f)) bcr g)))"

definition addFastCmd_tokens :: "string list \<Rightarrow> seq_generator \<Rightarrow> seq_generator result" where
  "addFastCmd_tokens ts g =
     rbind (rbind (vec_at ts 1) (stoul 0)) (\<lambda>type.
     rbind (rbind (vec_at ts 2) (stoul 0)) (\<lambda>delay.
     Inr (addFastCmd (ucast type) (ucast delay) g)))"

text \<open>An optional identifier token, broadcast (\<open>0xf\<close>) when it is absent.\<close>

definition opt_id :: "string list \<Rightarrow> nat \<Rightarrow> u32 result" where
  "opt_id ts i = (if i < length ts then rbind (stoul 0 (ts ! i)) (\<lambda>x. Inr (ucast x)) else Inr 0xf)"

definition addRegCmd_tokens :: "string list \<Rightarrow> seq_generator \<Rightarrow> seq_generator result" where
  "addRegCmd_tokens ts g =
     rbind (vec_at ts 1) (\<lambda>chip.
     let isABC = (chip = ''abc'' \<or> chip = ''ABC''); isHCC = (chip = ''hcc'' \<or> chip = ''HCC'')
     in if (\<not> isABC) \<noteq> isHCC then Inl Invalid_Argument
     else rbind (vec_at ts 2) (\<lambda>access.
     let isWrite = (access = ''write'')
     in if access \<noteq> ''read'' \<and> access \<noteq> ''write'' then Inl Invalid_Argument
     else rbind (rbind (vec_at ts 3) (stoul 0)) (\<lambda>addr.
     if isWrite then
       rbind (rbind (vec_at ts 4) (stoul 0)) (\<lambda>v.
       rbind (opt_id ts 5) (\<lambda>hccID.
       rbind (opt_id ts 6) (\<lambda>abcID.
       Inr (addRegWrCmd isABC (ucast addr) (ucast v) (ucast hccID) (ucast abcID) g))))
     else
       rbind (opt_id ts 4) (\<lambda>hccID.
       rbind (opt_id ts 5) (\<lambda>abcID.
       Inr (addRegRdCmd isABC (ucast addr) (ucast hccID) (ucast abcID) g))))))"

definition addCommand :: "string \<Rightarrow> seq_generator \<Rightarrow> seq_generator result" where
  "addCommand command g =
     (let ts = tokens command
      in rbind (vec_at ts 0) (\<lambda>cmd_type.
         if cmd_type = ''idle'' then addIdle_tokens ts g
         else if cmd_type = ''l0'' then addL0_tokens ts g
         else if cmd_type = ''fast'' then addFastCmd_tokens ts g
         else if cmd_type = ''reg'' then addRegCmd_tokens ts g
         else Inl Invalid_Argument))"

text \<open>The handlers catch \<open>std::logic_error\<close>, the base of both exceptions \<open>addCommand\<close> throws.\<close>

definition parseCommandString :: "string \<Rightarrow> seq_generator \<Rightarrow> bool \<times> seq_generator" where
  "parseCommandString command g =
     (case addCommand command g of
        Inr g' \<Rightarrow> (True, g')
      | Inl _ \<Rightarrow> (False, seq_clear g))"

fun parse_loop :: "string list \<Rightarrow> bool \<Rightarrow> seq_generator \<Rightarrow> bool \<times> seq_generator" where
  "parse_loop [] success g = (success, g)"
| "parse_loop (c # cs) success g =
     (case addCommand c g of
        Inr g' \<Rightarrow> parse_loop cs success g'
      | Inl _ \<Rightarrow> (False, seq_clear g))"

definition parseCommandSequence ::
  "string list \<Rightarrow> bool \<Rightarrow> seq_generator \<Rightarrow> bool \<times> seq_generator" where
  "parseCommandSequence commands verbose g =
     parse_loop commands (\<not> (commands = [] \<and> verbose)) g"

section \<open>Files\<close>

definition SWTAG :: string where "SWTAG = ''# LCB''"
definition FWTAG :: string where "FWTAG = ''# Trickle''"

definition hex_char :: "nat \<Rightarrow> char" where
  "hex_char n = ''0123456789abcdef'' ! n"

text \<open>\<open>os << std::hex << +cmd\<close> on a byte.\<close>

definition hex_byte :: "u8 \<Rightarrow> string" where
  "hex_byte b =
     (let n = unat b in if n < 16 then [hex_char n] else [hex_char (n div 16), hex_char (n mod 16)])"

definition endl :: "string \<Rightarrow> string" where
  "endl l = l @ [CHR 0x0a]"

definition dump :: "seq_generator \<Rightarrow> string" where
  "dump g = endl (if m_fw g then FWTAG else SWTAG) @
            concat (map (\<lambda>cmd. endl (hex_byte cmd)) (m_sequence g))"

definition load_line :: "string \<Rightarrow> seq_generator \<Rightarrow> seq_generator result" where
  "load_line line g =
     (if line = FWTAG then Inr (g\<lparr>m_fw := True\<rparr>)
      else if line = SWTAG then Inr (g\<lparr>m_fw := False\<rparr>)
      else rbind (stoul 16 line) (\<lambda>x. Inr (push_bytes [ucast x] g)))"

definition load :: "string \<Rightarrow> bool \<Rightarrow> seq_generator \<Rightarrow> seq_generator result" where
  "load is reset g = rfold load_line (getlines is) (if reset then seq_clear g else g)"

section \<open>Counting triggers\<close>

text \<open>The counters are \<open>unsigned\<close>: 32 bits wide, and they wrap.\<close>

definition popcount4 :: "u16 \<Rightarrow> nat" where
  "popcount4 x = length (filter (bit x) [0..<4])"

definition frame_of :: "u8 \<Rightarrow> u8 \<Rightarrow> u16" where
  "frame_of a b = push_bit 8 (ucast a) + ucast b"

fun frames_in :: "u8 list \<Rightarrow> u16 list" where
  "frames_in (a # b # bs) = frame_of a b # frames_in bs"
| "frames_in _ = []"

definition count_l0a :: "seq_generator \<Rightarrow> u32" where
  "count_l0a g =
     (if m_fw g
      then fold (\<lambda>cmd nL0As. if cmd = cmd_code L0A then nL0As + 1 else nL0As) (m_sequence g) 0
      else fold (\<lambda>frame nL0As. if is_l0a_bcr frame then nL0As + 1 else nL0As)
             (frames_in (m_sequence g)) 0)"

text \<open>The firmware loop reads the byte after a trigger command without a check.\<close>

fun fw_triggers :: "u8 list \<Rightarrow> u32 \<Rightarrow> u32 result" where
  "fw_triggers [] ntrigs = Inr ntrigs"
| "fw_triggers (c # bs) ntrigs =
     (if c = cmd_code L0A
      then rbind (vec_read bs 0) (\<lambda>m.
           fw_triggers (drop 2 bs) (ntrigs + of_nat (popcount4 (ucast (m AND 0xf)))))
      else fw_triggers bs ntrigs)"

definition count_triggers :: "seq_generator \<Rightarrow> u32 result" where
  "count_triggers g =
     (if m_fw g then fw_triggers (m_sequence g) 0
      else Inr (fold (\<lambda>frame ntrigs. if is_l0a_bcr frame
                        then ntrigs + of_nat (popcount4 (get_l0_mask frame)) else ntrigs)
                 (frames_in (m_sequence g)) 0))"

section \<open>Sequence files read back\<close>

lemma getlines_endl: "CHR 0x0a \<notin> set l \<Longrightarrow> getlines (endl l @ s) = l # getlines s"
  unfolding endl_def by (induction l) auto

lemma getlines_lines:
  "(\<And>l. l \<in> set ls \<Longrightarrow> CHR 0x0a \<notin> set l) \<Longrightarrow> getlines (concat (map endl ls)) = ls"
  by (induction ls) (simp_all add: getlines_endl)

lemma hex_digit_cases:
  assumes "n < (16 :: nat)"
  shows "n \<in> set [0, 1, 2, 3, 4, 5, 6, 7, 8, 9, 10, 11, 12, 13, 14, 15]"
  using assms by (auto simp: less_Suc_eq numeral_eq_Suc)

lemma hex_char_facts:
  assumes "n < 16"
  shows "digit_val (hex_char n) = Some n" "\<not> is_space (hex_char n)" "hex_char n \<noteq> CHR ''x''"
    "hex_char n \<noteq> CHR ''X''" "hex_char n \<noteq> CHR ''-''" "hex_char n \<noteq> CHR ''+''"
    "hex_char n \<noteq> CHR ''#''" "hex_char n \<noteq> CHR 0x0a"
proof -
  have "list_all (\<lambda>n. digit_val (hex_char n) = Some n \<and> \<not> is_space (hex_char n) \<and>
      hex_char n \<noteq> CHR ''x'' \<and> hex_char n \<noteq> CHR ''X'' \<and> hex_char n \<noteq> CHR ''-'' \<and>
      hex_char n \<noteq> CHR ''+'' \<and> hex_char n \<noteq> CHR ''#'' \<and> hex_char n \<noteq> CHR 0x0a)
    [0, 1, 2, 3, 4, 5, 6, 7, 8, 9, 10, 11, 12, 13, 14, 15]"
    by code_simp
  then show "digit_val (hex_char n) = Some n" "\<not> is_space (hex_char n)" "hex_char n \<noteq> CHR ''x''"
    "hex_char n \<noteq> CHR ''X''" "hex_char n \<noteq> CHR ''-''" "hex_char n \<noteq> CHR ''+''"
    "hex_char n \<noteq> CHR ''#''" "hex_char n \<noteq> CHR 0x0a"
    using hex_digit_cases [OF assms] unfolding list_all_iff by blast+
qed

lemma stoul_hex_digits:
  assumes "x < 16" and "y < 16"
  shows "stoul 16 [hex_char x] = Inr (of_nat x)"
    and "stoul 16 [hex_char x, hex_char y] = Inr (of_nat (x * 16 + y))"
proof -
  have "x < 2 ^ 64" "x * 16 + y < 2 ^ 64" using assms by simp_all
  then show "stoul 16 [hex_char x] = Inr (of_nat x)"
    "stoul 16 [hex_char x, hex_char y] = Inr (of_nat (x * 16 + y))"
    using hex_char_facts [OF assms(1)] hex_char_facts [OF assms(2)] assms
    by (simp_all add: stoul_def split_sign_def split_base_def is_digit_def digits_value_def Let_def
        del: of_nat_add of_nat_mult)
qed

lemma unat_u8_lt: "unat (b :: u8) < 256" "unat b div 16 < 16"
  using unsigned_less [of b, where 'a = nat] by simp_all

lemma stoul_hex_byte: "stoul 16 (hex_byte b) = Inr (ucast b)"
proof -
  have val: "(of_nat (unat b) :: u64) = ucast b" by (simp add: unsigned_ucast_eq)
  have "unat b div 16 * 16 + unat b mod 16 = unat b" by simp
  with val show ?thesis
    by (simp add: hex_byte_def Let_def stoul_hex_digits unat_u8_lt del: of_nat_add of_nat_mult)
qed

lemma hex_byte_not_tag: "hex_byte b \<noteq> FWTAG" "hex_byte b \<noteq> SWTAG" "CHR 0x0a \<notin> set (hex_byte b)"
  using unat_u8_lt(2) [of b]
  by (auto simp: hex_byte_def FWTAG_def SWTAG_def Let_def hex_char_facts
      hex_char_facts(8) [THEN not_sym])

lemma load_bytes:
  "rfold load_line (map hex_byte bs) g = Inr (push_bytes bs g)"
proof (induction bs arbitrary: g)
  case (Cons b bs)
  have "ucast (ucast b :: u64) = b"
    by (rule bit_word_eqI) (auto simp: bits_simps)
  with Cons show ?case
    by (simp add: load_line_def hex_byte_not_tag stoul_hex_byte push_bytes_def)
qed (simp add: push_bytes_def)

text \<open>C24: A sequence file reads back: loading what \<open>dump\<close> wrote gives, whatever the
  generator held before, the same bytes and the same choice of software or firmware commands.\<close>

theorem load_dump: "load (dump g) True g' = Inr g"
proof -
  have lines: "getlines (dump g) = (if m_fw g then FWTAG else SWTAG) # map hex_byte (m_sequence g)"
  proof -
    have "getlines (concat (map endl ((if m_fw g then FWTAG else SWTAG) # map hex_byte (m_sequence g)))) =
          (if m_fw g then FWTAG else SWTAG) # map hex_byte (m_sequence g)"
      by (rule getlines_lines) (auto simp: hex_byte_not_tag FWTAG_def SWTAG_def split: if_splits)
    then show ?thesis by (simp add: dump_def comp_def)
  qed
  show ?thesis
    unfolding load_def lines
    by (cases g) (simp add: load_line_def seq_clear_def load_bytes push_bytes_def FWTAG_def SWTAG_def)
qed

section \<open>Parsing only appends\<close>

definition extends :: "seq_generator \<Rightarrow> seq_generator \<Rightarrow> bool" where
  "extends g g' \<longleftrightarrow> m_fw g' = m_fw g \<and> (\<exists>bs. m_sequence g' = m_sequence g @ bs)"

lemma extends_refl [simp]: "extends g g"
  by (simp add: extends_def)

lemma extends_trans: "extends g h \<Longrightarrow> extends h k \<Longrightarrow> extends g k"
  by (auto simp: extends_def)

lemma extends_push [simp]: "extends g (push_bytes bs g)"
  by (simp add: extends_def push_bytes_def)

lemma extends_add [simp]:
  "extends g (addL0 m tag bcr g)" "extends g (addFastCmd ty d g)"
  "extends g (addRegWrCmd abc r v h a g)" "extends g (addRegRdCmd abc r h a g)"
  by (simp_all add: addL0_def addFastCmd_def addRegWrCmd_def addRegRdCmd_def)

lemma extends_addIdle [simp]: "extends g (addIdle n g)"
proof -
  have "extends g (((\<lambda>g. if m_fw g then push_bytes [cmd_code FW_IDLE] g
                         else push_bytes (frame_bytes IDLE) g) ^^ k) g)" for k
    by (induction k) (auto elim!: extends_trans)
  then show ?thesis by (simp add: addIdle_def)
qed

abbreviation is_logic_error :: "fault \<Rightarrow> bool" where
  "is_logic_error e \<equiv> e \<in> {Invalid_Argument, Out_Of_Range}"

lemma rsat_primitives:
  "rsat is_logic_error (\<lambda>_. True) (stoul b s)" "rsat is_logic_error (\<lambda>_. True) (vec_at xs i)"
  "rsat is_logic_error (\<lambda>_. True) (opt_id ts k)"
proof -
  show s: "rsat is_logic_error (\<lambda>_. True) (stoul b s)" for b s
    by (auto simp: stoul_def Let_def split: prod.splits)
  show "rsat is_logic_error (\<lambda>_. True) (vec_at xs i)" by (simp add: vec_at_def)
  show "rsat is_logic_error (\<lambda>_. True) (opt_id ts k)"
    unfolding opt_id_def by (intro rsat_if rsat_bind_any [OF s]) simp_all
qed

lemmas rsat_token_steps = rsat_if rsat_bind_any [OF rsat_bind_any] rsat_bind_any rsat_primitives

lemma rsat_tokens:
  "rsat is_logic_error (extends g) (addIdle_tokens ts g)"
  "rsat is_logic_error (extends g) (addL0_tokens ts g)"
  "rsat is_logic_error (extends g) (addFastCmd_tokens ts g)"
  "rsat is_logic_error (extends g) (addRegCmd_tokens ts g)"
  unfolding addIdle_tokens_def addL0_tokens_def addFastCmd_tokens_def addRegCmd_tokens_def Let_def
  by (intro rsat_token_steps; simp)+

lemma rsat_addCommand: "rsat is_logic_error (extends g) (addCommand c g)"
  unfolding addCommand_def Let_def
  by (intro rsat_if rsat_bind_any rsat_primitives rsat_tokens) simp

section \<open>Commands as data\<close>

text \<open>The commands, and how each is added.\<close>

datatype seq_op =
    Op_Idle u32
  | Op_L0 u8 u8 bool
  | Op_Fast u8 u8
  | Op_RegWr bool u32 u32 u8 u8
  | Op_RegRd bool u32 u8 u8

fun run_op :: "seq_op \<Rightarrow> seq_generator \<Rightarrow> seq_generator" where
  "run_op (Op_Idle n) = addIdle n"
| "run_op (Op_L0 m tag bcr) = addL0 m tag bcr"
| "run_op (Op_Fast ty d) = addFastCmd ty d"
| "run_op (Op_RegWr abc r v h a) = addRegWrCmd abc r v h a"
| "run_op (Op_RegRd abc r h a) = addRegRdCmd abc r h a"

text \<open>Their text: words with single spaces between them, the mask of a trigger command in binary and
  every other number in hexadecimal.\<close>

fun num_digits :: "nat \<Rightarrow> nat \<Rightarrow> nat \<Rightarrow> string" where
  "num_digits base 0 x = []"
| "num_digits base (Suc k) x = num_digits base k (x div base) @ [hex_char (x mod base)]"

definition hex_text :: "'a::len word \<Rightarrow> string" where
  "hex_text x = ''0x'' @ num_digits 16 8 (unat x)"

fun unwords :: "string list \<Rightarrow> string" where
  "unwords [] = []"
| "unwords [t] = t"
| "unwords (t # u # ts) = t @ CHR '' '' # unwords (u # ts)"

fun op_words :: "seq_op \<Rightarrow> string list" where
  "op_words (Op_Idle n) = [''idle'', hex_text n]"
| "op_words (Op_L0 m tag bcr) =
     [''l0'', num_digits 2 8 (unat m), hex_text tag] @ (if bcr then [''bcr''] else [])"
| "op_words (Op_Fast ty d) = [''fast'', hex_text ty, hex_text d]"
| "op_words (Op_RegWr abc r v h a) =
     [''reg'', if abc then ''abc'' else ''hcc'', ''write'', hex_text r, hex_text v, hex_text h, hex_text a]"
| "op_words (Op_RegRd abc r h a) =
     [''reg'', if abc then ''abc'' else ''hcc'', ''read'', hex_text r, hex_text h, hex_text a]"

definition op_text :: "seq_op \<Rightarrow> string" where
  "op_text op = unwords (op_words op)"

text \<open>The parser keeps four bits of a mask and seven of a tag.\<close>

fun parsed_op :: "seq_op \<Rightarrow> seq_op" where
  "parsed_op (Op_L0 m tag bcr) = Op_L0 (m AND 0xf) (tag AND 0x7f) bcr"
| "parsed_op op = op"

lemma tokens_nil: "tokens [] = []"
  by (simp add: tokens.simps)

lemma tokens_space: "is_space c \<Longrightarrow> tokens (c # s) = tokens s"
  by (subst (1 2) tokens.simps) simp

lemma tokens_word:
  assumes "t \<noteq> []" and "\<forall>c \<in> set t. \<not> is_space c" and "s = [] \<or> is_space (hd s)"
  shows "tokens (t @ s) = t # tokens s"
proof -
  have d: "dropWhile is_space (t @ s) = t @ s" using assms(1,2) by (cases t) simp_all
  have "takeWhile (\<lambda>c. \<not> is_space c) (t @ s) = t" "dropWhile (\<lambda>c. \<not> is_space c) (t @ s) = s"
    using assms(2,3) by (cases s; simp)+
  with d assms(1) show ?thesis by (subst tokens.simps) simp
qed

lemma tokens_unwords: "\<forall>t \<in> set ts. t \<noteq> [] \<and> (\<forall>c \<in> set t. \<not> is_space c) \<Longrightarrow> tokens (unwords ts) = ts"
proof (induction ts rule: unwords.induct)
  case (2 t)
  then show ?case using tokens_word [of t "[]"] by (simp add: tokens_nil)
next
  case (3 t u ts)
  then have "tokens (t @ CHR '' '' # unwords (u # ts)) = t # tokens (CHR '' '' # unwords (u # ts))"
    by (intro tokens_word) (simp_all add: is_space_def)
  with 3 show ?case by (simp add: tokens_space is_space_def)
qed (simp add: tokens_nil)

lemma num_digits_facts:
  assumes "0 < base" and "base \<le> 16"
  shows "length (num_digits base k x) = k" "digits_value base (num_digits base k x) = x mod base ^ k"
    "c \<in> set (num_digits base k x) \<Longrightarrow> \<exists>n < base. c = hex_char n"
proof -
  show "length (num_digits base k x) = k" by (induction k arbitrary: x) simp_all
  show "digits_value base (num_digits base k x) = x mod base ^ k"
  proof (induction k arbitrary: x)
    case (Suc k)
    have "x mod base < 16" using assms by (meson mod_less_divisor order_less_le_trans)
    then have "digits_value base (num_digits base (Suc k) x) = (x div base mod base ^ k) * base + x mod base"
      using Suc [of "x div base"] by (simp add: digits_value_def hex_char_facts(1))
    then show ?case by (simp add: mod_mult2_eq)
  qed (simp add: digits_value_def)
  show "c \<in> set (num_digits base k x) \<Longrightarrow> \<exists>n < base. c = hex_char n"
  proof (induction k arbitrary: x)
    case (Suc k)
    have "x mod base < base" using assms(1) by simp
    with Suc show ?case by auto
  qed simp
qed

lemma num_digits_hex:
  assumes "0 < base" and "base \<le> 16" and "c \<in> set (num_digits base k x)"
  shows "is_digit base c" "\<not> is_space c" "c \<noteq> CHR ''-''" "c \<noteq> CHR ''+''" "c \<noteq> CHR ''x''" "c \<noteq> CHR ''X''"
proof -
  obtain n where n: "n < base" "c = hex_char n" using num_digits_facts(3) [OF assms] by blast
  then have "n < 16" using assms(2) by simp
  from hex_char_facts [OF this] n show "is_digit base c" "\<not> is_space c" "c \<noteq> CHR ''-''" "c \<noteq> CHR ''+''"
    "c \<noteq> CHR ''x''" "c \<noteq> CHR ''X''"
    by (simp_all add: is_digit_def)
qed


lemma stoul_digits:
  assumes "0 < base" "base \<le> 16" and "x < base ^ Suc k" "base ^ Suc k \<le> 2 ^ 64"
  shows "base \<noteq> 0 \<Longrightarrow> base \<noteq> 16 \<Longrightarrow> stoul base (num_digits base (Suc k) x) = Inr (of_nat x)"
    and "base = 16 \<Longrightarrow> stoul 0 (''0x'' @ num_digits base (Suc k) x) = Inr (of_nat x)"
proof -
  let ?ds = "num_digits base (Suc k) x"
  obtain c s where cs: "?ds = c # s" by (cases ?ds) auto
  note h = num_digits_hex [OF assms(1,2)] and f = num_digits_facts [OF assms(1,2)]
  have v: "digits_value base ?ds = x" using f(2) assms(3) by (metis mod_less)
  have all: "takeWhile (is_digit base) ?ds = ?ds" using h(1) by (simp only: takeWhile_eq_all_conv) blast
  have c: "is_digit base c" "\<not> is_space c" "c \<noteq> CHR ''-''" "c \<noteq> CHR ''+''"
    using h [of c "Suc k" x] unfolding cs by simp_all
  have s: "takeWhile (is_digit base) s = s" using all c(1) unfolding cs by simp
  have big: "x < 2 ^ 64" using assms(3,4) by simp
  have sb: "split_base base ?ds = (base, ?ds)" if "base \<noteq> 0" "base \<noteq> 16"
    using that by (simp add: split_base_def split: list.splits)
  show "stoul base ?ds = Inr (of_nat x)" if "base \<noteq> 0" "base \<noteq> 16"
    using sb [OF that] v s c big unfolding cs by (simp add: stoul_def split_sign_def Let_def del: takeWhile_eq_all_conv)
  show "stoul 0 (''0x'' @ ?ds) = Inr (of_nat x)" if "base = 16"
    using that v s c big unfolding cs
    by (simp add: stoul_def split_sign_def split_base_def is_space_def Let_def del: takeWhile_eq_all_conv)
qed

lemma stoul_text:
  "stoul 2 (num_digits 2 8 (unat (m :: u8))) = Inr (ucast m)"
  "stoul 0 (hex_text (b :: u8)) = Inr (ucast b)" "stoul 0 (hex_text (w :: u32)) = Inr (ucast w)"
proof -
  have ww: "unat w < 4294967296" using unsigned_less [of w, where 'a = nat] by simp
  show "stoul 2 (num_digits 2 8 (unat (m :: u8))) = Inr (ucast m)"
    using stoul_digits(1) [of 2 "unat m" 7] unat_u8_lt(1) [of m] by (simp add: unsigned_ucast_eq)
  show "stoul 0 (hex_text (b :: u8)) = Inr (ucast b)"
    using stoul_digits(2) [of 16 "unat b" 7] unat_u8_lt(1) [of b] by (simp add: unsigned_ucast_eq hex_text_def)
  show "stoul 0 (hex_text (w :: u32)) = Inr (ucast w)"
    using stoul_digits(2) [of 16 "unat w" 7] ww by (simp add: unsigned_ucast_eq hex_text_def)
qed

lemma ucast_down [simp]:
  "ucast (ucast (b :: u8) :: u64) = b" "ucast (ucast (w :: u32) :: u64) = w"
  "ucast (ucast (ucast (b :: u8) :: u64) :: u32) = b"
  by (rule bit_word_eqI, auto simp: bits_simps dest: bit_imp_le_length)+

lemma ucast_masked [simp]:
  "ucast (ucast (b :: u8) AND 0xf :: u64) = b AND 0xf" "ucast (ucast (b :: u8) AND 0x7f :: u64) = b AND 0x7f"
  by (simp_all add: unsigned_and_eq)

lemma op_words_ok: "\<forall>t \<in> set (op_words op). t \<noteq> [] \<and> (\<forall>c \<in> set t. \<not> is_space c)"
proof -
  have d: "num_digits b 8 x \<noteq> []" for b x using num_digits.simps(2) [of b 7 x] by simp
  have s: "\<forall>c \<in> set (num_digits b 8 x). \<not> is_space c" if "b = 2 \<or> b = 16" for b x
    using num_digits_hex(2) [of b _ 8 x] that by auto
  have w: "\<not> is_space c" if "c \<in> set ''idle0fastrgbchwx''" for c using that by (auto simp: is_space_def)
  have h: "hex_text x \<noteq> []" "\<forall>c \<in> set (hex_text x). \<not> is_space c" for x :: "'x::len word"
    using s [of 16] w by (simp_all add: hex_text_def)
  show ?thesis by (cases op) (simp_all add: h d s [of 2] w)
qed

lemma addCommand_text: "addCommand (op_text op) g = Inr (run_op (parsed_op op) g)"
proof -
  have t: "tokens (op_text op) = op_words op" unfolding op_text_def by (rule tokens_unwords [OF op_words_ok])
  show ?thesis
    unfolding addCommand_def t Let_def
    by (cases op) (simp_all add: vec_at_def opt_id_def addIdle_tokens_def addL0_tokens_def addFastCmd_tokens_def
        addRegCmd_tokens_def stoul_text)
qed

lemma parse_loop_rfold:
  "parse_loop cs ok g = (case rfold addCommand cs g of Inr g' \<Rightarrow> (ok, g') | Inl e \<Rightarrow> (False, g\<lparr>m_sequence := []\<rparr>))"
proof (induction cs arbitrary: g)
  case (Cons c cs)
  show ?case
  proof (cases "addCommand c g")
    case (Inr h)
    then have "m_fw h = m_fw g" using rsat_addCommand [of g c] by (simp add: extends_def)
    then have "h\<lparr>m_sequence := []\<rparr> = g\<lparr>m_sequence := []\<rparr>" by (cases g; cases h) simp
    with Cons [of h] Inr show ?thesis by (simp split: sum.splits)
  qed (simp add: seq_clear_def)
qed simp

lemma rsat_rfold_addCommand: "rsat is_logic_error (extends g) (rfold addCommand cs g)"
  by (rule rsat_fold) (auto intro: rsat_weaken [OF rsat_addCommand] elim: extends_trans)

lemma rfold_text: "rfold addCommand (map op_text ops) g = Inr (fold run_op (map parsed_op ops) g)"
  by (induction ops arbitrary: g) (simp_all add: addCommand_text)

lemma unknown_command:
  assumes "c \<in> set cs" and "tokens c = [] \<or> hd (tokens c) \<notin> {''idle'', ''l0'', ''fast'', ''reg''}"
  shows "\<exists>e. rfold addCommand cs g = Inl e"
proof -
  obtain xs ys where cs: "cs = xs @ c # ys" using split_list [OF assms(1)] by blast
  have "\<exists>e. addCommand c h = Inl e" for h
    using assms(2) by (cases "tokens c") (auto simp: addCommand_def vec_at_def)
  then show ?thesis unfolding cs by (cases "rfold addCommand xs g") (simp_all add: rfold_append, metis rbind_Inl)
qed

text \<open>C25: A list of text commands is taken whole or not at all. If every command is well formed in
  its turn, the call succeeds (unless the list is empty and help was asked for) and leaves what the
  commands add, at the end of the sequence; if one is malformed, the call reports failure and leaves
  an empty sequence, whatever was in it and whatever came before or after that command; the firmware
  flag never changes and only the two faults the handler catches arise. Which commands are well
  formed: the text of any command is, and is read back as that command, and one without a word or with
  an unknown first word is not.\<close>

theorem parse_sequence_outcome:
  "parseCommandSequence cs verbose g =
     (case rfold addCommand cs g of
        Inr g' \<Rightarrow> (\<not> (cs = [] \<and> verbose), g')
      | Inl e \<Rightarrow> (False, g\<lparr>m_sequence := []\<rparr>)) \<and>
   rsat (\<lambda>e. e = Invalid_Argument \<or> e = Out_Of_Range) (extends g) (rfold addCommand cs g) \<and>
   parseCommandSequence (map op_text ops) verbose g =
     (\<not> (ops = [] \<and> verbose), fold run_op (map parsed_op ops) g) \<and>
   (list_ex (\<lambda>c. tokens c = [] \<or> hd (tokens c) \<notin> {''idle'', ''l0'', ''fast'', ''reg''}) cs \<longrightarrow>
      parseCommandSequence cs verbose g = (False, g\<lparr>m_sequence := []\<rparr>))"
  using rsat_rfold_addCommand [of g cs]
  by (auto simp: parseCommandSequence_def parse_loop_rfold rfold_text rsat_def list_ex_iff dest: unknown_command [of _ cs g]
      split: sum.splits)

theorem parse_sequence_outcome_witness:
  "parseCommandSequence [''l0 1111 5'', ''trigger''] False \<lparr>m_sequence = [1, 2], m_fw = False\<rparr> =
     (False, \<lparr>m_sequence = [], m_fw = False\<rparr>)"
proof -
  have "list_ex (\<lambda>c. tokens c = [] \<or> hd (tokens c) \<notin> {''idle'', ''l0'', ''fast'', ''reg''}) [''l0 1111 5'', ''trigger'']"
    using tokens_unwords [of "[''trigger'']"] by (simp add: is_space_def)
  from parse_sequence_outcome [THEN conjunct2, THEN conjunct2, THEN conjunct2, rule_format, OF this] show ?thesis by simp
qed

section \<open>Counting what was added\<close>

text \<open>The triggers each command stands for.\<close>

fun op_l0a :: "seq_op \<Rightarrow> nat" where
  "op_l0a (Op_L0 m tag bcr) = (if bcr \<or> m AND 0xf \<noteq> 0 then 1 else 0)"
| "op_l0a _ = 0"

fun op_triggers :: "seq_op \<Rightarrow> nat" where
  "op_triggers (Op_L0 m tag bcr) = popcount4 (ucast (m AND 0xf))"
| "op_triggers _ = 0"

text \<open>The frames of one command.\<close>

fun op_frames :: "seq_op \<Rightarrow> u16 list" where
  "op_frames (Op_Idle n) = replicate (unat n) IDLE"
| "op_frames (Op_L0 m tag bcr) = [l0a_mask m tag bcr]"
| "op_frames (Op_Fast ty d) = [fast_command (fast_cmds ! unat (ty AND 0xf)) d]"
| "op_frames (Op_RegWr abc r v h a) =
     (if abc then write_abc_register r v (ucast h) (ucast a) else write_hcc_register r v (ucast h))"
| "op_frames (Op_RegRd abc r h a) =
     (if abc then read_abc_register r (ucast h) (ucast a) else read_hcc_register r (ucast h))"

lemma frame_of_join8: "frame_of a b = join8 a b"
  unfolding frame_of_def join8_def
  by (rule disjunctive_add_eq_or, rule bit_word_eqI) (auto simp: bits_simps dest: bit_imp_le_length)

lemma frame_bytes_hi_lo: "frame_bytes f = [hi8 f, lo8 f]"
  by (simp add: frame_bytes_def hi8_def lo8_def)

lemma frames_in_bytes: "frames_in (concat (map frame_bytes fs)) = fs"
  by (induction fs) (simp_all add: frame_bytes_hi_lo frame_of_join8)

lemma addIdle_software:
  assumes "\<not> m_fw g"
  shows "addIdle n g = push_bytes (concat (map frame_bytes (replicate (unat n) IDLE))) g"
proof -
  have "((\<lambda>g. if m_fw g then push_bytes [cmd_code FW_IDLE] g
             else push_bytes (frame_bytes IDLE) g) ^^ k) g =
        push_bytes (concat (map frame_bytes (replicate k IDLE))) g" for k
    using assms
  proof (induction k arbitrary: g)
    case (Suc k)
    then show ?case by (simp add: push_bytes_def funpow_Suc_right del: funpow.simps)
  qed (simp add: push_bytes_def)
  then show ?thesis by (simp add: addIdle_def)
qed

lemma run_op_frames:
  "\<not> m_fw g \<Longrightarrow> run_op op g = push_bytes (concat (map frame_bytes (op_frames op))) g"
  by (cases op) (simp_all add: addIdle_software addL0_def addFastCmd_def addRegWrCmd_def addRegRdCmd_def)

lemma run_ops_frames:
  "\<not> m_fw g \<Longrightarrow>
   fold run_op ops g = push_bytes (concat (map frame_bytes (concat (map op_frames ops)))) g"
  by (induction ops arbitrary: g) (simp_all add: run_op_frames push_bytes_def)

lemma kcode_not_l0a: "\<not> is_l0a_bcr (build_pair K2 s)" "\<not> is_l0a_bcr IDLE"
  by (simp_all add: is_l0a_bcr_def has_kcode_hi_lo IDLE_def build_pair_join8)

lemma register_frames_not_l0a: "filter is_l0a_bcr (command_sequence h a r rd v x) = []"
  by (simp add: command_sequence_def filter_empty_conv kcode_not_l0a)

lemma register_frame_not_l0a: "f \<in> set (command_sequence h a r rd v x) \<Longrightarrow> \<not> is_l0a_bcr f"
  using register_frames_not_l0a [of h a r rd v x] by (simp add: filter_empty_conv)

lemma popcount4_zero: "x AND 0xf = 0 \<Longrightarrow> popcount4 x = 0"
proof -
  assume "x AND 0xf = 0"
  then have "bit (x AND 0xf) n = False" for n by simp
  then have "n < 4 \<Longrightarrow> \<not> bit x n" for n by (auto simp: bits_simps)
  then show ?thesis by (simp add: popcount4_def filter_empty_conv)
qed

lemma op_frames_l0a: "length (filter is_l0a_bcr (op_frames op)) = op_l0a op"
proof (cases op)
  case (Op_L0 m tag bcr)
  then show ?thesis by (simp add: l0a_mask_readers)
next
  case (Op_Fast ty d)
  then show ?thesis by (simp add: fast_command_readers)
qed (simp_all add: kcode_not_l0a star_cmd_defs register_frames_not_l0a)

lemma op_frames_triggers:
  "sum_list (map (\<lambda>f. popcount4 (get_l0_mask f)) (filter is_l0a_bcr (op_frames op))) = op_triggers op"
proof (cases op)
  case (Op_L0 m tag bcr)
  then show ?thesis by (auto simp: l0a_mask_readers popcount4_zero)
next
  case (Op_Fast ty d)
  then show ?thesis by (simp add: fast_command_readers)
qed (auto simp: kcode_not_l0a star_cmd_defs dest: register_frame_not_l0a)

lemma fold_count:
  "fold (\<lambda>x n. if P x then n + of_nat (h x) else n) xs (n :: u32) = n + of_nat (sum_list (map h (filter P xs)))"
  "fold (\<lambda>x n. if P x then n + 1 else n) xs (n :: u32) = n + of_nat (length (filter P xs))"
  by (induction xs arbitrary: n) (simp_all add: algebra_simps)

text \<open>C26: The counters in software mode, for any list of commands added to an empty sequence:
  \<open>count_l0a\<close> is the number of trigger frames with a trigger or a bunch counter reset (one without a
  trigger counts too) and \<open>count_triggers\<close> the number of mask bits set in them, both modulo
  \<open>2 ^ 32\<close>; register and fast commands and idles, whatever values they carry, never count.\<close>

theorem software_counts:
  "let g = fold run_op ops \<lparr>m_sequence = [], m_fw = False\<rparr> in
     count_l0a g = of_nat (sum_list (map op_l0a ops)) \<and>
     count_triggers g = Inr (of_nat (sum_list (map op_triggers ops)))"
proof -
  have s: "fold run_op ops \<lparr>m_sequence = [], m_fw = False\<rparr> =
    \<lparr>m_sequence = concat (map frame_bytes (concat (map op_frames ops))), m_fw = False\<rparr>"
    using run_ops_frames [of "\<lparr>m_sequence = [], m_fw = False\<rparr>" ops] by (simp add: push_bytes_def)
  have "length (filter is_l0a_bcr (concat (map op_frames ops))) = sum_list (map op_l0a ops)"
    by (induction ops) (simp_all add: op_frames_l0a)
  moreover have "sum_list (map (\<lambda>f. popcount4 (get_l0_mask f))
      (filter is_l0a_bcr (concat (map op_frames ops)))) = sum_list (map op_triggers ops)"
    by (induction ops) (simp_all add: op_frames_triggers)
  ultimately show ?thesis
    unfolding Let_def s by (simp add: count_l0a_def count_triggers_def frames_in_bytes fold_count)
qed

text \<open>The bytes of one firmware command.\<close>

fun op_bytes :: "seq_op \<Rightarrow> u8 list" where
  "op_bytes (Op_Idle n) = replicate (unat n) (cmd_code FW_IDLE)"
| "op_bytes (Op_L0 m tag bcr) = fw_l0a_mask m tag bcr"
| "op_bytes (Op_Fast ty d) = fw_fast_command ty d"
| "op_bytes (Op_RegWr abc r v h a) =
     (if abc then fw_write_abc_register r v (ucast h) (ucast a) else fw_write_hcc_register r v (ucast h))"
| "op_bytes (Op_RegRd abc r h a) =
     (if abc then fw_read_abc_register r (ucast h) (ucast a) else fw_read_hcc_register r (ucast h))"

fun is_l0_op :: "seq_op \<Rightarrow> bool" where
  "is_l0_op (Op_L0 m tag bcr) = True"
| "is_l0_op _ = False"

lemma run_op_bytes: "m_fw g \<Longrightarrow> run_op op g = push_bytes (op_bytes op) g"
proof -
  have "((\<lambda>g. if m_fw g then push_bytes [cmd_code FW_IDLE] g
             else push_bytes (frame_bytes IDLE) g) ^^ k) g =
        push_bytes (replicate k (cmd_code FW_IDLE)) g" if "m_fw g" for k and g :: seq_generator
    using that
  proof (induction k arbitrary: g)
    case (Suc k)
    then show ?case by (simp add: push_bytes_def funpow_Suc_right del: funpow.simps)
  qed (simp add: push_bytes_def)
  then show "m_fw g \<Longrightarrow> ?thesis"
    by (cases op) (simp_all add: addIdle_def addL0_def addFastCmd_def addRegWrCmd_def addRegRdCmd_def)
qed

lemma run_ops_bytes: "m_fw g \<Longrightarrow> fold run_op ops g = push_bytes (concat (map op_bytes ops)) g"
  by (induction ops arbitrary: g) (simp_all add: run_op_bytes push_bytes_def)

lemma op_bytes_l0a:
  "length (filter (\<lambda>b. b = cmd_code L0A) (op_bytes op)) = of_bool (is_l0_op op) + count_list (tl (op_bytes op)) (cmd_code L0A)"
  by (cases op) (simp_all add: fw_l0a_mask_def fw_fast_command_def fw_write_abc_register_def fw_write_hcc_register_def
      fw_read_abc_register_def fw_read_hcc_register_def count_list_eq_length_filter)

lemma fw_triggers_clean: "cmd_code L0A \<notin> set xs \<Longrightarrow> fw_triggers (xs @ bs) n = fw_triggers bs n"
  by (induction xs) auto

lemma fw_triggers_op:
  assumes "is_l0_op op \<or> cmd_code L0A \<notin> set (op_bytes op)"
  shows "fw_triggers (op_bytes op @ bs) n = fw_triggers bs (n + of_nat (op_triggers op))"
proof (cases "is_l0_op op")
  case True
  then obtain m tag bcr where op: "op = Op_L0 m tag bcr" by (cases op) auto
  have "push_bit 4 (of_bool bcr) + (m AND 0xf) = push_bit 4 (of_bool bcr) OR (m AND 0xf)"
    by (rule disjunctive_add_eq_or, rule bit_word_eqI) (auto simp: bits_simps)
  moreover have "push_bit 4 (of_bool bcr) AND 0xf = (0 :: u8)" by (cases bcr) simp_all
  ultimately have "(push_bit 4 (of_bool bcr) + (m AND 0xf)) AND 0xf = m AND 0xf"
    by (simp add: and.assoc bit.conj_disj_distrib2)
  then show ?thesis by (simp add: op fw_l0a_mask_def vec_read_def)
next
  case False
  with assms have "op_triggers op = 0" "cmd_code L0A \<notin> set (op_bytes op)" by (cases op; simp)+
  then show ?thesis by (simp add: fw_triggers_clean)
qed

text \<open>C27: The counters in firmware mode, for any list of commands added to an empty sequence.
  \<open>count_l0a\<close> is the number of trigger commands and, on top, of all bytes after the first of any
  command, the trigger commands too, that happen to be \<open>0x82\<close>. \<open>count_triggers\<close>, which skips the
  two argument bytes of what it takes for a trigger command, is exact as long as no other command
  holds that byte; after such commands, one more command that holds it once adds the low four bits
  of the byte after it to the count, and if it is the last byte, the loop reads past the end of the
  sequence. Both counts are modulo \<open>2 ^ 32\<close>.\<close>

theorem firmware_counts:
  "let g = fold run_op ops \<lparr>m_sequence = [], m_fw = True\<rparr>; n = sum_list (map op_triggers ops) in
     count_l0a g = of_nat (length (filter is_l0_op ops) +
       sum_list (map (\<lambda>op. count_list (tl (op_bytes op)) 0x82) ops)) \<and>
     (list_all (\<lambda>op. is_l0_op op \<or> 0x82 \<notin> set (op_bytes op)) ops \<longrightarrow>
       count_triggers g = Inr (of_nat n) \<and>
       (\<forall>op xs. op_bytes op = xs @ [0x82] \<and> 0x82 \<notin> set xs \<longrightarrow> count_triggers (run_op op g) = Inl Undefined) \<and>
       (\<forall>op xs b ys. op_bytes op = xs @ 0x82 # b # ys \<and> 0x82 \<notin> set xs \<union> set (tl ys) \<longrightarrow>
          count_triggers (run_op op g) = Inr (of_nat (n + popcount4 (ucast (b AND 0xf))))))"
proof -
  have l0a: "cmd_code L0A = 0x82" by simp
  let ?g = "fold run_op ops \<lparr>m_sequence = [], m_fw = True\<rparr>" and ?n = "sum_list (map op_triggers ops)"
  have g: "?g = \<lparr>m_sequence = concat (map op_bytes ops), m_fw = True\<rparr>"
    using run_ops_bytes [of "\<lparr>m_sequence = [], m_fw = True\<rparr>" ops] by (simp add: push_bytes_def)
  have l: "length (filter (\<lambda>b. b = cmd_code L0A) (concat (map op_bytes ops))) =
      length (filter is_l0_op ops) + sum_list (map (\<lambda>op. count_list (tl (op_bytes op)) (cmd_code L0A)) ops)"
    by (induction ops) (simp_all only: op_bytes_l0a list.map concat.simps filter_append length_append, simp_all)
  have scan: "fw_triggers (concat (map op_bytes ops) @ bs) k = fw_triggers bs (k + of_nat ?n)"
    if "list_all (\<lambda>op. is_l0_op op \<or> cmd_code L0A \<notin> set (op_bytes op)) ops" for bs k
    using that by (induction ops arbitrary: k) (simp_all add: fw_triggers_op add.assoc del: cmd_code.simps)
  have step: "count_triggers (run_op op ?g) = fw_triggers (op_bytes op) (of_nat ?n)"
    if "list_all (\<lambda>op. is_l0_op op \<or> cmd_code L0A \<notin> set (op_bytes op)) ops" for op
    using scan [OF that, of "op_bytes op" 0] unfolding g by (simp add: run_op_bytes count_triggers_def push_bytes_def)
  have last: "fw_triggers (xs @ [0x82]) k = Inl Undefined" if "0x82 \<notin> set xs" for xs k
    using fw_triggers_clean [of xs "[0x82]" k] that by (simp add: vec_read_def)
  have more: "fw_triggers (xs @ 0x82 # b # ys) k = Inr (k + of_nat (popcount4 (ucast (b AND 0xf))))"
    if "0x82 \<notin> set xs \<union> set (tl ys)" for xs b ys k
    using fw_triggers_clean [of xs "0x82 # b # ys" k] fw_triggers_clean [of "tl ys" "[]"] that
    by (simp add: vec_read_def drop_Suc)
  show ?thesis
    unfolding Let_def
  proof (intro conjI impI allI; (elim conjE)?)
    show "count_l0a ?g = of_nat (length (filter is_l0_op ops) + sum_list (map (\<lambda>op. count_list (tl (op_bytes op)) 0x82) ops))"
      using l unfolding g by (simp add: count_l0a_def fold_count)
  next
    assume clean: "list_all (\<lambda>op. is_l0_op op \<or> 0x82 \<notin> set (op_bytes op)) ops"
    show "count_triggers ?g = Inr (of_nat ?n)"
      using scan [of "[]" 0] clean unfolding g by (simp add: count_triggers_def)
    show "count_triggers (run_op op ?g) = Inl Undefined" if "op_bytes op = xs @ [0x82]" "0x82 \<notin> set xs" for op xs
      using step clean that last by simp
    show "count_triggers (run_op op ?g) = Inr (of_nat (?n + popcount4 (ucast (b AND 0xf))))"
      if "op_bytes op = xs @ 0x82 # b # ys" "0x82 \<notin> set xs \<union> set (tl ys)" for op xs b ys
      using step clean that more [of xs ys] by simp
  qed
qed

theorem firmware_counts_witness:
  "let g = fold run_op [Op_L0 5 0x82 False, Op_RegWr True 0x20 0x11223344 0xf 0xf] \<lparr>m_sequence = [], m_fw = True\<rparr> in
     count_l0a g = 2 \<and> count_triggers g = Inr 2 \<and>
     count_triggers (run_op (Op_RegRd True 0x20 8 2) g) = Inl Undefined \<and>
     count_triggers (run_op (Op_RegWr True 0x20 0x82070000 0xf 0xf) g) = Inr 5"
proof -
  let ?ops = "[Op_L0 5 0x82 False, Op_RegWr True 0x20 0x11223344 0xf 0xf]"
  let ?g = "fold run_op ?ops \<lparr>m_sequence = [], m_fw = True\<rparr>"
  have b: "op_bytes (Op_L0 5 0x82 False) = [0x82, 5, 0x82]"
    "op_bytes (Op_RegWr True 0x20 0x11223344 0xf 0xf) = [0xa2, 0x11, 0x22, 0x33, 0x44, 0x20, 0xff]"
    "op_bytes (Op_RegRd True 0x20 8 2) = [0xa0, 0x20] @ [0x82]"
    "op_bytes (Op_RegWr True 0x20 0x82070000 0xf 0xf) = [0xa2] @ 0x82 # 7 # [0, 0, 0x20, 0xff]"
    by (simp_all add: fw_l0a_mask_def fw_write_abc_register_def fw_read_abc_register_def)
  have p: "popcount4 5 = 2" "popcount4 7 = 3" by (simp_all add: popcount4_def upt_rec)
  note t = firmware_counts [of ?ops, unfolded Let_def]
  have "list_all (\<lambda>op. is_l0_op op \<or> 0x82 \<notin> set (op_bytes op)) ?ops" by (simp add: b del: op_bytes.simps)
  note u = t [THEN conjunct2, THEN mp, OF this]
  have "count_l0a ?g = 2" using t [THEN conjunct1] by (simp add: b del: op_bytes.simps fold_simps)
  moreover have "count_triggers ?g = Inr 2" using u by (simp add: p del: fold_simps)
  moreover have "count_triggers (run_op (Op_RegRd True 0x20 8 2) ?g) = Inl Undefined" using u b(3) by (simp del: fold_simps op_bytes.simps run_op.simps)
  moreover have "count_triggers (run_op (Op_RegWr True 0x20 0x82070000 0xf 0xf) ?g) = Inr 5"
  proof -
    have "count_triggers (run_op (Op_RegWr True 0x20 0x82070000 0xf 0xf) ?g) =
        Inr (of_nat (sum_list (map op_triggers ?ops) + popcount4 (ucast ((7 :: u8) AND 0xf))))"
      using u [THEN conjunct2, THEN conjunct2, rule_format, of _ "[0xa2]" 7 "[0, 0, 0x20, 0xff]"] b(4)
      by (simp del: fold_simps op_bytes.simps run_op.simps)
    then show ?thesis by (simp add: p del: fold_simps)
  qed
  ultimately show ?thesis unfolding Let_def by blast
qed

end
