(* ===== verification/Reg_Store.thy ===== *)
theory Reg_Store
  imports Yarr_Prelude
begin

text \<open>
  The interface between the configuration classes and their clients: a store of registers by
  address whose read and write stop with \<open>std::out_of_range\<close> on an unknown address. The laws
  are those of a finite array; from them follow the read-modify-write steps and the write loops
  that every configuration class of the strip and pixel chips is made of.
\<close>

locale reg_store =
  fixes get :: "'s \<Rightarrow> 'a \<Rightarrow> 'v result"
    and put :: "'s \<Rightarrow> 'a \<Rightarrow> 'v \<Rightarrow> 's result"
    and inv :: "'s \<Rightarrow> bool"
    and addrs :: "'s \<Rightarrow> 'a set"
  assumes get_in: "inv s \<Longrightarrow> a \<in> addrs s \<Longrightarrow> \<exists>v. get s a = Inr v"
    and get_out: "inv s \<Longrightarrow> a \<notin> addrs s \<Longrightarrow> get s a = Inl Out_Of_Range"
    and put_out: "inv s \<Longrightarrow> a \<notin> addrs s \<Longrightarrow> put s a v = Inl Out_Of_Range"
    and put_in: "inv s \<Longrightarrow> a \<in> addrs s \<Longrightarrow>
       \<exists>t. put s a v = Inr t \<and> inv t \<and> addrs t = addrs s \<and> get t a = Inr v \<and>
           (\<forall>b. b \<noteq> a \<longrightarrow> get t b = get s b)"
begin

lemma put_Inr:
  assumes "inv s" and "put s a v = Inr t"
  shows "a \<in> addrs s" "inv t" "addrs t = addrs s" "get t a = Inr v"
    "b \<noteq> a \<Longrightarrow> get t b = get s b"
proof -
  show a: "a \<in> addrs s" using assms put_out [of s a v] by (cases "a \<in> addrs s") auto
  from put_in [OF assms(1) a, of v] assms(2)
  show "inv t" "addrs t = addrs s" "get t a = Inr v" "b \<noteq> a \<Longrightarrow> get t b = get s b" by auto
qed

lemma get_Inr: "inv s \<Longrightarrow> get s a = Inr v \<Longrightarrow> a \<in> addrs s"
  using get_out by (cases "a \<in> addrs s") auto

text \<open>Read, change, write back.\<close>

lemma modify:
  assumes "inv s" and "a \<in> addrs s"
  obtains v t where "get s a = Inr v" "rbind (get s a) (\<lambda>v. put s a (f v)) = Inr t"
    "inv t" "addrs t = addrs s" "get t a = Inr (f v)" "\<And>b. b \<noteq> a \<Longrightarrow> get t b = get s b"
proof -
  from get_in [OF assms] obtain v where v: "get s a = Inr v" by blast
  from put_in [OF assms, of "f v"] obtain t where
    "put s a (f v) = Inr t" "inv t" "addrs t = addrs s" "get t a = Inr (f v)"
    "\<forall>b. b \<noteq> a \<longrightarrow> get t b = get s b" by blast
  with v show thesis by (intro that [of v t]) auto
qed

text \<open>A loop that writes a list of registers: the last value written to an address is read back,
  other addresses keep theirs.\<close>

lemma put_list:
  assumes "inv s" and "\<forall>(a, v) \<in> set avs. a \<in> addrs s"
  obtains t where "rfold (\<lambda>(a, v) s. put s a v) avs s = Inr t" "inv t" "addrs t = addrs s"
    "\<And>a. get t a = (case map_of (rev avs) a of Some v \<Rightarrow> Inr v | None \<Rightarrow> get s a)"
  using assms
proof (induction avs arbitrary: s thesis)
  case Nil
  then show ?case by simp
next
  case (Cons av avs)
  obtain a v where av: "av = (a, v)" by (cases av)
  with Cons.prems have a: "a \<in> addrs s" by auto
  from put_in [OF Cons.prems(2) a, of v] obtain u where
    u: "put s a v = Inr u" "inv u" "addrs u = addrs s" "get u a = Inr v"
    "\<And>b. b \<noteq> a \<Longrightarrow> get u b = get s b" by blast
  have "\<forall>(a, v) \<in> set avs. a \<in> addrs u" using Cons.prems(3) u(3) by auto
  from Cons.IH [OF _ u(2) this] obtain t where
    t: "rfold (\<lambda>(a, v) s. put s a v) avs u = Inr t" "inv t" "addrs t = addrs u"
    "\<And>a. get t a = (case map_of (rev avs) a of Some v \<Rightarrow> Inr v | None \<Rightarrow> get u a)" by blast
  show ?case
  proof (rule Cons.prems(1))
    show "rfold (\<lambda>(a, v) s. put s a v) (av # avs) s = Inr t" using u(1) t(1) by (simp add: av)
    show "get t b = (case map_of (rev (av # avs)) b of Some v \<Rightarrow> Inr v | None \<Rightarrow> get s b)" for b
      using t(4) [of b] u(4) u(5) [of b]
      by (auto simp: av map_add_def split: option.splits)
  qed (use t u in auto)
qed

end

end
