(* ===== verification/Star_Register.thy ===== *)
theory Star_Register
  imports Reg_Store
begin

text \<open>
  Registers and sub-registers of the strip chips (src/src/libStar/include/StarRegister.h). A
  sub-register is a field of a 32-bit register given by bit offset and width; reading masks and
  shifts, writing refuses a value that does not fit. The lemmas are the field laws: a field read
  after it was written, fields that do not overlap, bits outside a field.
\<close>

section \<open>Descriptions\<close>

record SubRegisterInfo =
  m_regAddress :: nat
  m_bOffset :: nat
  m_width :: nat
  m_subRegName :: string

record RegisterInfo =
  ri_regAddress :: nat
  subRegisterMap :: "string \<rightharpoonup> SubRegisterInfo"

definition new_RegisterInfo :: "nat \<Rightarrow> RegisterInfo" where
  "new_RegisterInfo address = \<lparr>ri_regAddress = address, subRegisterMap = Map.empty\<rparr>"

definition addSubRegister ::
  "RegisterInfo \<Rightarrow> string \<Rightarrow> nat \<Rightarrow> nat \<Rightarrow> RegisterInfo \<times> SubRegisterInfo" where
  "addSubRegister ri subRegName bOffset width =
     (let info = \<lparr>m_regAddress = ri_regAddress ri, m_bOffset = bOffset, m_width = width,
                  m_subRegName = subRegName\<rparr>
      in (ri\<lparr>subRegisterMap := (subRegisterMap ri)(subRegName \<mapsto> info)\<rparr>, info))"

definition ri_getSubRegister :: "RegisterInfo \<Rightarrow> string \<Rightarrow> SubRegisterInfo result" where
  "ri_getSubRegister ri subRegName =
     (case subRegisterMap ri subRegName of Some info \<Rightarrow> Inr info | None \<Rightarrow> Inl Runtime_Error)"

section \<open>Reading and writing fields\<close>

definition maskBits :: "SubRegisterInfo \<Rightarrow> u32" where
  "maskBits info = push_bit (m_width info) 1 - 1"

definition sub_getValue :: "SubRegisterInfo \<Rightarrow> u32 \<Rightarrow> u32" where
  "sub_getValue info reg =
     drop_bit (m_bOffset info) (reg AND push_bit (m_bOffset info) (maskBits info))"

definition sub_updateValue :: "SubRegisterInfo \<Rightarrow> u32 \<Rightarrow> u32 \<Rightarrow> u32 result" where
  "sub_updateValue info cfgBits reg =
     (if cfgBits AND NOT (maskBits info) \<noteq> 0 then Inl Runtime_Error
      else Inr ((reg AND NOT (push_bit (m_bOffset info) (maskBits info))) OR
                push_bit (m_bOffset info) (cfgBits AND maskBits info)))"

record Register =
  m_info :: RegisterInfo
  m_regValue :: u32

definition reg_addr :: "Register \<Rightarrow> nat" where
  "reg_addr r = ri_regAddress (m_info r)"

definition setMySubRegisterValue :: "Register \<Rightarrow> string \<Rightarrow> u32 \<Rightarrow> Register result" where
  "setMySubRegisterValue r subRegName v =
     rbind (ri_getSubRegister (m_info r) subRegName) (\<lambda>info.
     rbind (sub_updateValue info v (m_regValue r)) (\<lambda>x. Inr (r\<lparr>m_regValue := x\<rparr>)))"

definition getMySubRegisterValue :: "Register \<Rightarrow> string \<Rightarrow> u32 result" where
  "getMySubRegisterValue r subRegName =
     rbind (ri_getSubRegister (m_info r) subRegName) (\<lambda>info. Inr (sub_getValue info (m_regValue r)))"

section \<open>Field laws\<close>

definition fits :: "SubRegisterInfo \<Rightarrow> bool" where
  "fits info \<longleftrightarrow> m_bOffset info + m_width info \<le> 32"

definition field_overlap :: "SubRegisterInfo \<Rightarrow> SubRegisterInfo \<Rightarrow> bool" where
  "field_overlap i j \<longleftrightarrow> m_regAddress i = m_regAddress j \<and>
     m_bOffset i < m_bOffset j + m_width j \<and> m_bOffset j < m_bOffset i + m_width i"

lemma maskBits_mask: "maskBits info = mask (m_width info)"
  by (simp add: maskBits_def mask_eq_decr_exp push_bit_eq_mult)

lemma bit_maskBits: "bit (maskBits info) n \<longleftrightarrow> n < m_width info \<and> n < 32"
  by (auto simp: maskBits_mask bit_mask_iff)

lemma bit_sub_getValue:
  "bit (sub_getValue info reg) n \<longleftrightarrow> n < m_width info \<and> bit reg (m_bOffset info + n)"
  by (auto simp: sub_getValue_def bit_simps bit_maskBits dest: bit_imp_le_length)

lemma sub_getValue_take: "sub_getValue info reg = take_bit (m_width info) (drop_bit (m_bOffset info) reg)"
  by (rule bit_word_eqI) (auto simp: bit_sub_getValue bit_simps)

lemma sub_updateValue_ok_iff: "(\<exists>x. sub_updateValue info c reg = Inr x) \<longleftrightarrow> take_bit (m_width info) c = c"
proof -
  have "c AND NOT (mask (m_width info)) = 0 \<longleftrightarrow> take_bit (m_width info) c = c"
  proof
    assume "c AND NOT (mask (m_width info)) = 0"
    then have "\<not> bit (c AND NOT (mask (m_width info))) n" for n by simp
    then show "take_bit (m_width info) c = c"
      by (intro bit_word_eqI) (auto simp: bit_simps)
  next
    assume c: "take_bit (m_width info) c = c"
    show "c AND NOT (mask (m_width info)) = 0"
      by (subst c [symmetric], rule bit_word_eqI) (auto simp: bit_simps)
  qed
  then show ?thesis by (simp add: sub_updateValue_def maskBits_mask)
qed

lemma bit_sub_updateValue:
  assumes "sub_updateValue info c reg = Inr x" and "n < 32"
  shows "bit x n \<longleftrightarrow> (if m_bOffset info \<le> n \<and> n < m_bOffset info + m_width info
                     then bit c (n - m_bOffset info) else bit reg n)"
  using assms
  by (auto simp: sub_updateValue_def bit_simps bit_maskBits split: if_splits)

lemma sub_get_update:
  assumes "sub_updateValue info c reg = Inr x" and "fits info"
  shows "sub_getValue info x = c"
proof (rule bit_word_eqI)
  fix n assume "n < LENGTH(32)"
  have c: "take_bit (m_width info) c = c"
    using assms(1) sub_updateValue_ok_iff by blast
  have "bit c n \<longleftrightarrow> n < m_width info \<and> bit c n"
    by (subst c [symmetric]) (simp add: bit_take_bit_iff)
  then show "bit (sub_getValue info x) n = bit c n"
    using assms(2) bit_sub_updateValue [OF assms(1), of "m_bOffset info + n"]
    by (auto simp: bit_sub_getValue fits_def)
qed

lemma sub_get_update_other:
  assumes "sub_updateValue info c reg = Inr x" and "\<not> field_overlap info j"
    and "m_regAddress info = m_regAddress j" and "fits j"
  shows "sub_getValue j x = sub_getValue j reg"
proof (rule bit_word_eqI)
  fix n assume "n < LENGTH(32)"
  show "bit (sub_getValue j x) n = bit (sub_getValue j reg) n"
    using assms(2-4) bit_sub_updateValue [OF assms(1), of "m_bOffset j + n"]
    by (auto simp: bit_sub_getValue fits_def field_overlap_def)
qed

lemma sub_updateValue_same:
  "sub_updateValue info (sub_getValue info reg) reg = Inr reg"
proof -
  have "sub_getValue info reg AND NOT (maskBits info) = 0"
    by (rule bit_word_eqI) (auto simp: bit_sub_getValue bit_simps bit_maskBits)
  moreover have "(reg AND NOT (push_bit (m_bOffset info) (maskBits info))) OR
      push_bit (m_bOffset info) (sub_getValue info reg AND maskBits info) = reg"
    by (rule bit_word_eqI) (auto simp: bit_sub_getValue bit_simps bit_maskBits)
  ultimately show ?thesis by (simp add: sub_updateValue_def)
qed

section \<open>Tables of fields\<close>

text \<open>The tables of both chips list name, register address, bit offset and width. Each entry is
  added to the shared description of its register and to the map by name; a missing register is
  the given fault (\<open>map::at\<close> throws on the ABC side, the HCC side dereferences a null pointer).\<close>

type_synonym subregdef = "string \<times> nat \<times> nat \<times> nat"

definition add_subreg ::
  "fault \<Rightarrow> subregdef \<Rightarrow> (nat \<rightharpoonup> RegisterInfo) \<times> (string \<rightharpoonup> SubRegisterInfo) \<Rightarrow>
   ((nat \<rightharpoonup> RegisterInfo) \<times> (string \<rightharpoonup> SubRegisterInfo)) result" where
  "add_subreg missing def ms =
     (case def of (reg_id, addr, offset, width) \<Rightarrow>
      case fst ms addr of
        None \<Rightarrow> Inl missing
      | Some ri \<Rightarrow>
          let (ri', info) = addSubRegister ri reg_id offset width
          in Inr ((fst ms)(addr \<mapsto> ri'), (snd ms)(reg_id \<mapsto> info)))"

fun def_overlap :: "subregdef \<Rightarrow> subregdef \<Rightarrow> bool" where
  "def_overlap (n, a, off, w) (n', a', off', w') \<longleftrightarrow> a = a' \<and> off < off' + w' \<and> off' < off + w"

fun def_fits :: "subregdef \<Rightarrow> bool" where
  "def_fits (n, a, off, w) \<longleftrightarrow> 0 < w \<and> off + w \<le> 32"

fun pairwise_list :: "('a \<Rightarrow> 'a \<Rightarrow> bool) \<Rightarrow> 'a list \<Rightarrow> bool" where
  "pairwise_list P [] = True"
| "pairwise_list P (x # xs) \<longleftrightarrow> list_all (P x) xs \<and> pairwise_list P xs"

lemma pairwise_listD:
  assumes "pairwise_list P xs" and "\<And>x y. P x y \<Longrightarrow> P y x"
    and "x \<in> set xs" and "y \<in> set xs" and "x \<noteq> y"
  shows "P x y"
  using assms by (induction xs) (auto simp: list_all_iff)

definition table_ok :: "subregdef list \<Rightarrow> bool" where
  "table_ok defs \<longleftrightarrow> distinct (map fst defs) \<and> list_all def_fits defs \<and>
     pairwise_list (\<lambda>d e. \<not> def_overlap d e) defs"

definition sub_of :: "subregdef \<Rightarrow> SubRegisterInfo" where
  "sub_of def = (case def of (n, a, off, w) \<Rightarrow>
     \<lparr>m_regAddress = a, m_bOffset = off, m_width = w, m_subRegName = n\<rparr>)"

definition regs_named :: "(nat \<rightharpoonup> RegisterInfo) \<Rightarrow> bool" where
  "regs_named m \<longleftrightarrow> (\<forall>a ri. m a = Some ri \<longrightarrow> ri_regAddress ri = a)"

lemma add_subregs:
  assumes "regs_named m" and "\<forall>(n, a, off, w) \<in> set defs. a \<in> dom m"
  obtains m' s' where "rfold (add_subreg e) defs (m, s) = Inr (m', s')" "dom m' = dom m"
    "regs_named m'" "s' = s ++ map_of (rev (map (\<lambda>d. (fst d, sub_of d)) defs))"
  using assms
proof (induction defs arbitrary: m s thesis)
  case Nil
  then show ?case by simp
next
  case (Cons d defs)
  obtain n a off w where d: "d = (n, a, off, w)" by (cases d)
  with Cons.prems(3) obtain ri where ri: "m a = Some ri" by auto
  with Cons.prems(2) have addr: "ri_regAddress ri = a" by (auto simp: regs_named_def)
  obtain m1 where m1: "add_subreg e d (m, s) = Inr (m1, s(n \<mapsto> sub_of d))" "dom m1 = dom m" "regs_named m1"
  proof (rule that)
    show "add_subreg e d (m, s) = Inr (m(a \<mapsto> fst (addSubRegister ri n off w)), s(n \<mapsto> sub_of d))"
      using ri addr by (simp add: add_subreg_def d addSubRegister_def Let_def sub_of_def)
    show "dom (m(a \<mapsto> fst (addSubRegister ri n off w))) = dom m"
      using ri by auto
    show "regs_named (m(a \<mapsto> fst (addSubRegister ri n off w)))"
      using Cons.prems(2) addr by (simp add: regs_named_def addSubRegister_def Let_def)
  qed
  have "\<forall>(n, a, off, w) \<in> set defs. a \<in> dom m1" using Cons.prems(3) m1(2) by auto
  from Cons.IH [OF _ m1(3) this, of "s(n \<mapsto> sub_of d)"] obtain m' s' where
    "rfold (add_subreg e) defs (m1, s(n \<mapsto> sub_of d)) = Inr (m', s')" "dom m' = dom m1"
    "regs_named m'" "s' = s(n \<mapsto> sub_of d) ++ map_of (rev (map (\<lambda>d. (fst d, sub_of d)) defs))"
    by blast
  with m1 show ?case
    by (intro Cons.prems(1) [of m' s']) (simp_all add: d)
qed

text \<open>What the map by name returns for a sound table.\<close>

lemma table_lookup:
  assumes "distinct (map fst defs)"
  shows "map_of (rev (map (\<lambda>d. (fst d, sub_of d)) defs)) n = Some i \<longleftrightarrow>
         (\<exists>d \<in> set defs. fst d = n \<and> i = sub_of d)"
proof -
  have "map fst (rev (map (\<lambda>d. (fst d, sub_of d)) defs)) = rev (map fst defs)"
    by (induction defs) simp_all
  then have "distinct (map fst (rev (map (\<lambda>d. (fst d, sub_of d)) defs)))"
    using assms by simp
  from map_of_eq_Some_iff [OF this, of n i] show ?thesis by auto
qed

lemma table_sound:
  assumes "table_ok defs" and "d \<in> set defs" and "d' \<in> set defs"
  shows "fits (sub_of d)" and "fst d \<noteq> fst d' \<Longrightarrow> \<not> field_overlap (sub_of d) (sub_of d')"
proof -
  show "fits (sub_of d)"
    using assms(1,2) by (auto simp: table_ok_def list_all_iff fits_def sub_of_def split: prod.splits)
  assume ne: "fst d \<noteq> fst d'"
  have "\<not> def_overlap d d'"
  proof (rule pairwise_listD [of "\<lambda>d e. \<not> def_overlap d e" defs])
    show "pairwise_list (\<lambda>d e. \<not> def_overlap d e) defs" using assms(1) by (simp add: table_ok_def)
    show "\<not> def_overlap x y \<Longrightarrow> \<not> def_overlap y x" for x y by (cases x; cases y) auto
  qed (use assms ne in auto)
  then show "\<not> field_overlap (sub_of d) (sub_of d')"
    by (auto simp: field_overlap_def sub_of_def split: prod.splits)
qed

section \<open>Fields of a register store\<close>

text \<open>A register store whose registers are divided into named fields that do not overlap.\<close>

locale field_store = reg_store get put inv addrs
  for get :: "'s \<Rightarrow> nat \<Rightarrow> u32 result"
    and put :: "'s \<Rightarrow> nat \<Rightarrow> u32 \<Rightarrow> 's result"
    and inv :: "'s \<Rightarrow> bool"
    and addrs :: "'s \<Rightarrow> nat set" +
  fixes field :: "'s \<Rightarrow> string \<Rightarrow> SubRegisterInfo option"
  assumes field_in: "inv s \<Longrightarrow> field s r = Some i \<Longrightarrow> m_regAddress i \<in> addrs s \<and> fits i"
    and field_disjoint:
      "inv s \<Longrightarrow> field s r = Some i \<Longrightarrow> field s q = Some j \<Longrightarrow> r \<noteq> q \<Longrightarrow> \<not> field_overlap i j"
    and put_field: "put s a v = Inr t \<Longrightarrow> field t = field s"
begin

lemma set_field_ok:
  assumes "inv s" and "field s r = Some i" and "take_bit (m_width i) x = x"
  obtains v y t where "get s (m_regAddress i) = Inr v" "sub_updateValue i x v = Inr y"
    "put s (m_regAddress i) y = Inr t"
proof -
  from field_in [OF assms(1,2)] have a: "m_regAddress i \<in> addrs s" by simp
  from get_in [OF assms(1) a] obtain v where v: "get s (m_regAddress i) = Inr v" by blast
  from assms(3) obtain y where y: "sub_updateValue i x v = Inr y" using sub_updateValue_ok_iff by blast
  from put_in [OF assms(1) a, of y] obtain t where "put s (m_regAddress i) y = Inr t" by blast
  with v y show thesis by (rule that)
qed

lemma set_field_laws:
  assumes "inv s" and "field s r = Some i" and "get s (m_regAddress i) = Inr v"
    and "sub_updateValue i x v = Inr y" and "put s (m_regAddress i) y = Inr t"
  shows "inv t" "field t = field s" "addrs t = addrs s"
    and "rbind (get t (m_regAddress i)) (\<lambda>v. Inr (sub_getValue i v)) = Inr x"
    and "field s q = Some j \<Longrightarrow> q \<noteq> r \<Longrightarrow>
      rbind (get t (m_regAddress j)) (\<lambda>v. Inr (sub_getValue j v)) =
      rbind (get s (m_regAddress j)) (\<lambda>v. Inr (sub_getValue j v))"
    and "b \<noteq> m_regAddress i \<Longrightarrow> get t b = get s b"
proof -
  note p = put_Inr [OF assms(1,5)]
  show "inv t" "addrs t = addrs s" "b \<noteq> m_regAddress i \<Longrightarrow> get t b = get s b"
    using p by auto
  show "field t = field s" by (rule put_field [OF assms(5)])
  have fit: "fits i" using field_in [OF assms(1,2)] by simp
  show "rbind (get t (m_regAddress i)) (\<lambda>v. Inr (sub_getValue i v)) = Inr x"
    by (simp add: p(4) sub_get_update [OF assms(4) fit])
  show "rbind (get t (m_regAddress j)) (\<lambda>v. Inr (sub_getValue j v)) =
      rbind (get s (m_regAddress j)) (\<lambda>v. Inr (sub_getValue j v))"
    if q: "field s q = Some j" "q \<noteq> r"
  proof (cases "m_regAddress j = m_regAddress i")
    case True
    have "\<not> field_overlap i j" using field_disjoint [OF assms(1,2) q(1)] q(2) by blast
    moreover have "fits j" using field_in [OF assms(1) q(1)] by simp
    ultimately show ?thesis
      using sub_get_update_other [OF assms(4)] True p(4) assms(3) by simp
  qed (simp add: p(5))
qed

text \<open>The law of a field write, with a given fault for an unknown field.\<close>

lemma write_law:
  fixes e :: fault
  defines "rd \<equiv> \<lambda>s q. case field s q of None \<Rightarrow> Inl e
    | Some i \<Rightarrow> rbind (get s (m_regAddress i)) (\<lambda>v. Inr (sub_getValue i v))"
  assumes "inv s"
  shows "case (case field s r of None \<Rightarrow> Inl e
        | Some i \<Rightarrow> rbind (get s (m_regAddress i)) (\<lambda>v. rbind (sub_updateValue i x v) (put s (m_regAddress i)))) of
      Inr t \<Rightarrow> inv t \<and> rd t r = Inr x \<and> (\<forall>q. q \<noteq> r \<longrightarrow> rd t q = rd s q)
    | Inl f \<Rightarrow> (case field s r of None \<Rightarrow> f = e | Some i \<Rightarrow> f = Runtime_Error \<and> take_bit (m_width i) x \<noteq> x)"
proof (cases "field s r")
  case None
  then show ?thesis by simp
next
  case (Some i)
  show ?thesis
  proof (cases "take_bit (m_width i) x = x")
    case True
    from set_field_ok [OF assms(2) Some True] obtain v y t where
      t: "get s (m_regAddress i) = Inr v" "sub_updateValue i x v = Inr y"
        "put s (m_regAddress i) y = Inr t" by blast
    note laws = set_field_laws [OF assms(2) Some t]
    have "rd t q = rd s q" if "q \<noteq> r" for q
      using laws(2) laws(5) [OF _ that] by (simp add: rd_def split: option.split)
    with t Some laws(1,2,4) show ?thesis by (simp add: rd_def)
  next
    case False
    from field_in [OF assms(2) Some] get_in [OF assms(2)] obtain v where
      v: "get s (m_regAddress i) = Inr v" by blast
    from False have "\<nexists>y. sub_updateValue i x v = Inr y" using sub_updateValue_ok_iff by blast
    then have "sub_updateValue i x v = Inl Runtime_Error"
      by (auto simp: sub_updateValue_def split: if_splits)
    with False v Some show ?thesis by simp
  qed
qed

end

end
