(* ===== verification/Reg_Vector.thy ===== *)
theory Reg_Vector
  imports Star_Register
begin

text \<open>
  Both chip configurations of the strips keep their registers in a vector, with an index by
  address that the constructor builds while it appends the registers. The locale states what the
  two record types share; it gives the register store of Reg_Store, and what the constructor
  loop leaves behind.
\<close>

locale reg_vector =
  fixes rmap :: "'s \<Rightarrow> (nat \<rightharpoonup> nat)"
    and rset :: "'s \<Rightarrow> Register list"
    and info :: "'s \<Rightarrow> 'i"
    and with_regs :: "(nat \<rightharpoonup> nat) \<Rightarrow> Register list \<Rightarrow> 's \<Rightarrow> 's"
  assumes rmap_with [simp]: "rmap (with_regs m rs s) = m"
    and rset_with [simp]: "rset (with_regs m rs s) = rs"
    and info_with [simp]: "info (with_regs m rs s) = info s"
begin

definition vget :: "'s \<Rightarrow> nat \<Rightarrow> u32 result" where
  "vget s a =
     (case rmap s a of
        None \<Rightarrow> Inl Out_Of_Range
      | Some i \<Rightarrow> rbind (vec_read (rset s) i) (\<lambda>r. Inr (m_regValue r)))"

definition vput :: "'s \<Rightarrow> nat \<Rightarrow> u32 \<Rightarrow> 's result" where
  "vput s a v =
     (case rmap s a of
        None \<Rightarrow> Inl Out_Of_Range
      | Some i \<Rightarrow> rbind (vec_read (rset s) i) (\<lambda>r.
          Inr (with_regs (rmap s) ((rset s)[i := r\<lparr>m_regValue := v\<rparr>]) s)))"

definition vwf :: "'s \<Rightarrow> bool" where
  "vwf s \<longleftrightarrow> inj_on (rmap s) (dom (rmap s)) \<and> (\<forall>i \<in> ran (rmap s). i < length (rset s))"

lemma vwf_index: "vwf s \<Longrightarrow> rmap s a = Some i \<Longrightarrow> i < length (rset s)"
  by (auto simp: vwf_def ran_def)

lemma vwf_inj: "vwf s \<Longrightarrow> rmap s a = Some i \<Longrightarrow> rmap s b = Some i \<Longrightarrow> a = b"
  unfolding vwf_def by (metis domI inj_onD)

lemma vget_in: "vwf s \<Longrightarrow> rmap s a = Some i \<Longrightarrow> vget s a = Inr (m_regValue (rset s ! i))"
  by (simp add: vget_def vwf_index)

lemma vput_in: "vwf s \<Longrightarrow> rmap s a = Some i \<Longrightarrow>
  vput s a v = Inr (with_regs (rmap s) ((rset s)[i := (rset s ! i)\<lparr>m_regValue := v\<rparr>]) s)"
  by (simp add: vput_def vwf_index)

lemma vput_info: "vput s a v = Inr t \<Longrightarrow> info t = info s"
  by (auto simp: vput_def rbind_eq_Inr_iff split: option.splits)

lemma vstore: "reg_store vget vput vwf (\<lambda>s. dom (rmap s))"
proof
  fix s a v
  assume wf: "vwf s"
  show "a \<in> dom (rmap s) \<Longrightarrow> \<exists>v. vget s a = Inr v" using vget_in [OF wf] by blast
  show "a \<notin> dom (rmap s) \<Longrightarrow> vget s a = Inl Out_Of_Range" by (simp add: vget_def domIff)
  show "a \<notin> dom (rmap s) \<Longrightarrow> vput s a v = Inl Out_Of_Range" by (simp add: vput_def domIff)
  assume "a \<in> dom (rmap s)"
  then obtain i where i: "rmap s a = Some i" by blast
  let ?t = "with_regs (rmap s) ((rset s)[i := (rset s ! i)\<lparr>m_regValue := v\<rparr>]) s"
  have wf_t: "vwf ?t" using wf by (simp add: vwf_def)
  have other: "vget ?t b = vget s b" if "b \<noteq> a" for b
  proof (cases "rmap s b")
    case (Some j)
    with that i wf have "j \<noteq> i" using vwf_inj by blast
    with Some wf wf_t show ?thesis by (simp add: vget_in)
  qed (simp add: vget_def)
  have "vget ?t a = Inr v" using i wf_t vwf_index [OF wf i] by (simp add: vget_in)
  then show "\<exists>t. vput s a v = Inr t \<and> vwf t \<and> dom (rmap t) = dom (rmap s) \<and>
      vget t a = Inr v \<and> (\<forall>b. b \<noteq> a \<longrightarrow> vget t b = vget s b)"
    using vput_in [OF wf i] wf_t other by auto
qed

text \<open>The constructor loop: each register that is not skipped is appended with value 0; a register
  without a description stops it.\<close>

definition vadd :: "(nat \<Rightarrow> bool) \<Rightarrow> ('i \<Rightarrow> nat \<rightharpoonup> RegisterInfo) \<Rightarrow> nat \<Rightarrow> 's \<Rightarrow> 's result" where
  "vadd skip descr r s =
     (if skip r then Inr s
      else case descr (info s) r of
             None \<Rightarrow> Inl Out_Of_Range
           | Some ri \<Rightarrow> Inr (with_regs ((rmap s)(r \<mapsto> length (rset s)))
               (rset s @ [\<lparr>m_info = ri, m_regValue = 0\<rparr>]) s))"

definition vzero :: "'s \<Rightarrow> bool" where
  "vzero s \<longleftrightarrow> (\<forall>x \<in> set (rset s). m_regValue x = 0)"

lemma vzero_get: "vwf s \<Longrightarrow> vzero s \<Longrightarrow> a \<in> dom (rmap s) \<Longrightarrow> vget s a = Inr 0"
proof -
  assume wf: "vwf s" and z: "vzero s" and "a \<in> dom (rmap s)"
  then obtain i where i: "rmap s a = Some i" by blast
  with z vwf_index [OF wf i] show ?thesis by (simp add: vget_in [OF wf i] vzero_def)
qed

lemma vadd_step:
  assumes "vwf s" and "vzero s" and "r \<notin> dom (rmap s)" and "skip r \<or> r \<in> dom (descr (info s))"
  obtains t where "vadd skip descr r s = Inr t" "vwf t" "vzero t" "info t = info s"
    "dom (rmap t) = dom (rmap s) \<union> {a. a = r \<and> \<not> skip r}"
    "length (rset t) = length (rset s) + (if skip r then 0 else 1)"
proof (cases "skip r")
  case True
  with assms show thesis by (intro that [of s]) (simp_all add: vadd_def)
next
  case False
  with assms(4) obtain ri where ri: "descr (info s) r = Some ri" by auto
  let ?t = "with_regs ((rmap s)(r \<mapsto> length (rset s))) (rset s @ [\<lparr>m_info = ri, m_regValue = 0\<rparr>]) s"
  have lt: "i < length (rset s)" if "i \<in> ran (rmap s)" for i using assms(1) that by (simp add: vwf_def)
  have new: "rmap s a \<noteq> Some (length (rset s))" for a
    using lt [OF ranI, of a "length (rset s)"] by auto
  have none: "rmap s r = None" using assms(3) by (simp add: domIff)
  have "inj_on (rmap ?t) (dom (rmap ?t))"
    using assms(1) new new [THEN not_sym] unfolding vwf_def inj_on_def by auto
  moreover have "\<forall>i \<in> ran (rmap ?t). i < length (rset ?t)"
    using lt none by (auto simp: less_Suc_eq)
  ultimately have "vwf ?t" by (simp add: vwf_def)
  with False ri assms(2) show thesis
    by (intro that [of ?t]) (auto simp: vadd_def vzero_def)
qed

lemma vadd_list:
  assumes "vwf s" and "vzero s" and "distinct rs" and "set rs \<inter> dom (rmap s) = {}"
    and "\<forall>r \<in> set rs. skip r \<or> r \<in> dom (descr (info s))"
  obtains t where "rfold (vadd skip descr) rs s = Inr t" "vwf t" "vzero t" "info t = info s"
    "dom (rmap t) = dom (rmap s) \<union> {r \<in> set rs. \<not> skip r}"
    "length (rset t) = length (rset s) + length (filter (\<lambda>r. \<not> skip r) rs)"
  using assms
proof (induction rs arbitrary: s thesis)
  case Nil
  then show ?case by simp
next
  case (Cons r rs)
  have "r \<notin> dom (rmap s)" "skip r \<or> r \<in> dom (descr (info s))" using Cons.prems(5,6) by auto
  from vadd_step [where skip = skip and descr = descr, OF Cons.prems(2,3) this] obtain u where u: "vadd skip descr r s = Inr u" "vwf u" "vzero u"
    "info u = info s" "dom (rmap u) = dom (rmap s) \<union> {a. a = r \<and> \<not> skip r}"
    "length (rset u) = length (rset s) + (if skip r then 0 else 1)" by blast
  have a: "set rs \<inter> dom (rmap u) = {}" using Cons.prems(4,5) u(5) by auto
  have b: "\<forall>r \<in> set rs. skip r \<or> r \<in> dom (descr (info u))" using Cons.prems(6) u(4) by simp
  have d: "distinct rs" using Cons.prems(4) by simp
  obtain t where t: "rfold (vadd skip descr) rs u = Inr t" "vwf t" "vzero t" "info t = info u"
    "dom (rmap t) = dom (rmap u) \<union> {r \<in> set rs. \<not> skip r}"
    "length (rset t) = length (rset u) + length (filter (\<lambda>r. \<not> skip r) rs)"
    by (rule Cons.IH [OF _ u(2,3) d a b]) (rule that)
  show ?case
    by (rule Cons.prems(1) [of t]) (use t u in auto)
qed

lemma vadd_fails:
  assumes "info s = i" and "\<exists>r \<in> set rs. \<not> skip r \<and> r \<notin> dom (descr i)"
  shows "rfold (vadd skip descr) rs s = Inl Out_Of_Range"
  using assms
proof (induction rs arbitrary: s)
  case (Cons r rs)
  show ?case
  proof (cases "vadd skip descr r s")
    case (Inl e)
    then show ?thesis by (auto simp: vadd_def split: if_splits option.splits)
  next
    case (Inr u)
    then have "info u = i" "skip r \<or> r \<in> dom (descr i)"
      using Cons.prems(1) by (auto simp: vadd_def split: if_splits option.splits)
    with Cons Inr show ?thesis by auto
  qed
qed simp

end

text \<open>The description of the registers that a version has.\<close>

lemma reg_map_spec:
  fixes skip :: "nat \<Rightarrow> bool" and rs :: "nat list"
  defines "m \<equiv> fold (\<lambda>reg m. if skip reg then m else m(reg \<mapsto> new_RegisterInfo reg)) rs Map.empty"
  shows "dom m = {r \<in> set rs. \<not> skip r}" and "regs_named m"
proof -
  have "dom (fold (\<lambda>reg m. if skip reg then m else m(reg \<mapsto> new_RegisterInfo reg)) rs m0) =
        dom m0 \<union> {r \<in> set rs. \<not> skip r}" for m0
    by (induction rs arbitrary: m0) auto
  then show "dom m = {r \<in> set rs. \<not> skip r}" by (simp add: m_def)
  have step: "regs_named m0 \<Longrightarrow> regs_named (m0(r \<mapsto> new_RegisterInfo r))" for m0 r
    by (simp add: regs_named_def new_RegisterInfo_def)
  have "regs_named m0 \<Longrightarrow>
    regs_named (fold (\<lambda>reg m. if skip reg then m else m(reg \<mapsto> new_RegisterInfo reg)) rs m0)" for m0
    by (induction rs arbitrary: m0) (simp_all add: step)
  moreover have "regs_named Map.empty" by (simp add: regs_named_def)
  ultimately show "regs_named m" unfolding m_def by blast
qed

end
