(* ===== verification/Star_AbcCfg.thy ===== *)
theory Star_AbcCfg
  imports Reg_Vector
begin

text \<open>
  Configuration of one ABC chip (src/src/libStar/include/AbcCfg.h, src/src/libStar/AbcCfg.cpp,
  the register lists of src/src/libStar/include/StarRegDefs.h and the names of
  src/src/libStar/AbcNames.cpp): the description of the register map of versions 0 and 1, the
  register values in a vector with an index by address, sub-registers, strip masks and trim
  DACs. An enumerator of \<open>ABCStarRegister\<close> is its value, the address; an enumerator of
  \<open>ABCStarSubRegister\<close> is its name, which the code uses as the key of the fields. The
  configuration is shown to refine a map from addresses to values.
\<close>

section \<open>Register lists\<close>

type_synonym ABCStarSubRegister = string

text \<open>\<open>ABC_STAR_REGS\<close>: \<open>SCReg\<close>, \<open>ADCS1\<close> to \<open>ADCS7\<close>; \<open>MaskInput0\<close> to \<open>7\<close>; \<open>CREG0\<close> to \<open>4\<close> and \<open>CREG6\<close>;
  \<open>STAT0\<close> to \<open>4\<close> and \<open>HPR\<close>; \<open>TrimDAC0\<close> to \<open>39\<close>; \<open>CalREG0\<close> to \<open>7\<close>; \<open>HitCountREG0\<close> to \<open>63\<close>.\<close>

definition abc_listRegs :: "nat list" where
  "abc_listRegs =
     [0..<8] @ [16..<24] @ [32..<37] @ [38] @ [48..<53] @ [63] @ [64..<104] @ [104..<112] @ [128..<192]"

definition abc_listSubRegs :: "ABCStarSubRegister list" where
  "abc_listSubRegs =
    [''RRFORCE'', ''WRITEDISABLE'', ''STOPHPR'', ''TESTHPR'', ''EFUSEL'', ''LCBERRCNTCLR'',
     ''BVREF'', ''BIREF'', ''B8BREF'', ''BTRANGE'', ''BVT'', ''COMBIAS'', ''BIFEED'', ''BIPRE'',
     ''STR_DEL_R'', ''STR_DEL'', ''BCAL'', ''BCAL_RANGE'', ''ADC_BIAS'', ''ADC_CH'',
     ''ADC_ENABLE'', ''D_S'', ''D_LOW'', ''D_EN_CTRL'', ''BTMUX'', ''BTMUXD'', ''A_S'',
     ''A_EN_CTRL'', ''TEST_PULSE_ENABLE'', ''ENCOUNT'', ''MASKHPR'', ''PR_ENABLE'',
     ''LP_ENABLE'', ''RRMODE'', ''TM'', ''TESTPATT_ENABLE'', ''TESTPATT1'', ''TESTPATT2'',
     ''CURRDRIV'', ''CALPULSE_ENABLE'', ''CALPULSE_POLARITY'', ''LATENCY'', ''BCFLAG_ENABLE'',
     ''BCOFFSET'', ''DETMODE'', ''MAX_CLUSTER'', ''MAX_CLUSTER_ENABLE'', ''EN_CLUSTER_EMPTY'',
     ''EN_CLUSTER_FULL'', ''EN_CLUSTER_OVFL'', ''EN_REGFIFO_EMPTY'', ''EN_REGFIFO_FULL'',
     ''EN_REGFIFO_OVFL'', ''EN_LPFIFO_EMPTY'', ''EN_LPFIFO_FULL'', ''EN_PRFIFO_EMPTY'',
     ''EN_PRFIFO_FULL'', ''EN_LCB_LOCKED'', ''EN_LCB_DECODE_ERR'', ''EN_LCB_ERRCNT_OVFL'',
     ''EN_LCB_SCMD_ERR'', ''LCB_ERRCOUNT_THR'', ''ADCRESET'', ''DIS_CLK'',
     ''LCB_SELF_TEST_ENABLE'', ''DATA_IDLE'', ''EN_GLITCH_A'', ''EN_GLITCH_B'', ''EN_GLITCH_C'',
     ''EN_GLITCH_V'', ''EN_GLITCH_ADC'', ''RING_OSC_EN'', ''BTMUX_DEC'', ''A_S_DEC'', ''A_LOW'',
     ''D_S_DEC'', ''EN_OUT_DECODER'', ''DTESTOUTSEL'', ''V0_READOUT_MODE'', ''DIS_CLKS_EN'',
     ''READOUT_TIMEOUT_ENABLE'']"

definition MaskInput :: "nat \<Rightarrow> nat" where "MaskInput i = 16 + i"
definition CalReg :: "nat \<Rightarrow> nat" where "CalReg i = 104 + i"
definition Counter :: "nat \<Rightarrow> nat" where "Counter i = 128 + i"
definition TrimLo :: "nat \<Rightarrow> nat" where "TrimLo i = 64 + i"
definition TrimHi :: "nat \<Rightarrow> nat" where "TrimHi i = 96 + i"

definition StripsPerABC :: nat where "StripsPerABC = 256"

text \<open>Names, as in \<open>AbcNames\<close>: an unknown string makes \<open>_from_string\<close> throw
  \<open>std::runtime_error\<close>.\<close>

definition abc_subRegStringIsValid :: "string \<Rightarrow> bool" where
  "abc_subRegStringIsValid n \<longleftrightarrow> n \<in> set abc_listSubRegs"

definition abc_subRegFromString :: "string \<Rightarrow> ABCStarSubRegister result" where
  "abc_subRegFromString n = (if n \<in> set abc_listSubRegs then Inr n else Inl Runtime_Error)"

definition abc_subRegToString :: "ABCStarSubRegister \<Rightarrow> string" where
  "abc_subRegToString r = r"

section \<open>Sub-register tables\<close>

definition s_abcsubregdefs_v0 :: "subregdef list" where
  "s_abcsubregdefs_v0 =
    [(''RRFORCE'', 0, 0, 1),
     (''WRITEDISABLE'', 0, 1, 1),
     (''STOPHPR'', 0, 2, 1),
     (''TESTHPR'', 0, 3, 1),
     (''EFUSEL'', 0, 4, 1),
     (''LCBERRCNTCLR'', 0, 5, 1),
     (''BVREF'', 1, 0, 5),
     (''BIREF'', 1, 8, 5),
     (''B8BREF'', 1, 16, 5),
     (''BTRANGE'', 1, 24, 5),
     (''BVT'', 2, 0, 8),
     (''COMBIAS'', 2, 8, 5),
     (''BIFEED'', 2, 16, 5),
     (''BIPRE'', 2, 24, 5),
     (''STR_DEL_R'', 3, 0, 2),
     (''STR_DEL'', 3, 8, 6),
     (''BCAL'', 3, 16, 9),
     (''BCAL_RANGE'', 3, 25, 1),
     (''ADC_BIAS'', 4, 0, 4),
     (''ADC_CH'', 4, 4, 4),
     (''ADC_ENABLE'', 4, 8, 1),
     (''D_S'', 6, 0, 16),
     (''D_LOW'', 6, 16, 1),
     (''D_EN_CTRL'', 6, 17, 1),
     (''BTMUX'', 7, 0, 14),
     (''BTMUXD'', 7, 14, 1),
     (''A_S'', 7, 15, 16),
     (''A_EN_CTRL'', 7, 31, 1),
     (''TEST_PULSE_ENABLE'', 32, 4, 1),
     (''ENCOUNT'', 32, 5, 1),
     (''MASKHPR'', 32, 6, 1),
     (''PR_ENABLE'', 32, 8, 1),
     (''LP_ENABLE'', 32, 9, 1),
     (''RRMODE'', 32, 10, 2),
     (''TM'', 32, 16, 2),
     (''TESTPATT_ENABLE'', 32, 18, 1),
     (''TESTPATT1'', 32, 20, 4),
     (''TESTPATT2'', 32, 24, 4),
     (''CURRDRIV'', 33, 0, 3),
     (''CALPULSE_ENABLE'', 33, 4, 1),
     (''CALPULSE_POLARITY'', 33, 5, 1),
     (''LATENCY'', 34, 0, 9),
     (''BCFLAG_ENABLE'', 34, 23, 1),
     (''BCOFFSET'', 34, 24, 8),
     (''DETMODE'', 35, 0, 2),
     (''MAX_CLUSTER'', 35, 12, 6),
     (''MAX_CLUSTER_ENABLE'', 35, 18, 1),
     (''EN_CLUSTER_EMPTY'', 36, 0, 1),
     (''EN_CLUSTER_FULL'', 36, 1, 1),
     (''EN_CLUSTER_OVFL'', 36, 2, 1),
     (''EN_REGFIFO_EMPTY'', 36, 3, 1),
     (''EN_REGFIFO_FULL'', 36, 4, 1),
     (''EN_REGFIFO_OVFL'', 36, 5, 1),
     (''EN_LPFIFO_EMPTY'', 36, 6, 1),
     (''EN_LPFIFO_FULL'', 36, 7, 1),
     (''EN_PRFIFO_EMPTY'', 36, 8, 1),
     (''EN_PRFIFO_FULL'', 36, 9, 1),
     (''EN_LCB_LOCKED'', 36, 10, 1),
     (''EN_LCB_DECODE_ERR'', 36, 11, 1),
     (''EN_LCB_ERRCNT_OVFL'', 36, 12, 1),
     (''EN_LCB_SCMD_ERR'', 36, 13, 1),
     (''LCB_ERRCOUNT_THR'', 38, 0, 16)]"

definition s_abcsubregdefs_v1 :: "subregdef list" where
  "s_abcsubregdefs_v1 =
    [(''RRFORCE'', 0, 0, 1),
     (''WRITEDISABLE'', 0, 1, 1),
     (''STOPHPR'', 0, 2, 1),
     (''TESTHPR'', 0, 3, 1),
     (''EFUSEL'', 0, 4, 1),
     (''LCBERRCNTCLR'', 0, 5, 1),
     (''ADCRESET'', 0, 6, 1),
     (''BVREF'', 1, 0, 5),
     (''BIREF'', 1, 5, 5),
     (''B8BREF'', 1, 10, 5),
     (''BTRANGE'', 1, 15, 5),
     (''BVT'', 1, 20, 8),
     (''DIS_CLK'', 1, 28, 3),
     (''LCB_SELF_TEST_ENABLE'', 1, 31, 1),
     (''STR_DEL_R'', 2, 0, 2),
     (''STR_DEL'', 2, 2, 6),
     (''COMBIAS'', 2, 8, 5),
     (''BCAL'', 2, 13, 9),
     (''DATA_IDLE'', 2, 22, 4),
     (''EN_GLITCH_A'', 2, 26, 1),
     (''EN_GLITCH_B'', 2, 27, 1),
     (''EN_GLITCH_C'', 2, 28, 1),
     (''EN_GLITCH_V'', 2, 29, 1),
     (''EN_GLITCH_ADC'', 2, 30, 1),
     (''RING_OSC_EN'', 2, 31, 1),
     (''ADC_BIAS'', 3, 0, 4),
     (''ADC_CH'', 3, 4, 4),
     (''ADC_ENABLE'', 3, 8, 1),
     (''BTMUX_DEC'', 3, 9, 4),
     (''BTMUXD'', 3, 13, 1),
     (''A_S_DEC'', 3, 14, 5),
     (''A_LOW'', 3, 19, 1),
     (''A_EN_CTRL'', 3, 20, 1),
     (''D_S_DEC'', 3, 21, 5),
     (''D_LOW'', 3, 26, 1),
     (''D_EN_CTRL'', 3, 27, 1),
     (''EN_OUT_DECODER'', 3, 28, 4),
     (''TEST_PULSE_ENABLE'', 32, 0, 1),
     (''ENCOUNT'', 32, 1, 1),
     (''MASKHPR'', 32, 2, 1),
     (''PR_ENABLE'', 32, 3, 1),
     (''LP_ENABLE'', 32, 4, 1),
     (''RRMODE'', 32, 5, 2),
     (''TM'', 32, 7, 2),
     (''TESTPATT_ENABLE'', 32, 9, 1),
     (''TESTPATT1'', 32, 10, 4),
     (''TESTPATT2'', 32, 14, 4),
     (''CURRDRIV'', 32, 18, 3),
     (''CALPULSE_ENABLE'', 32, 21, 1),
     (''CALPULSE_POLARITY'', 32, 22, 1),
     (''LATENCY'', 32, 23, 9),
     (''DTESTOUTSEL'', 33, 0, 7),
     (''DETMODE'', 33, 7, 2),
     (''MAX_CLUSTER'', 33, 9, 6),
     (''MAX_CLUSTER_ENABLE'', 33, 15, 1),
     (''V0_READOUT_MODE'', 33, 21, 1),
     (''DIS_CLKS_EN'', 33, 22, 1),
     (''LCB_ERRCOUNT_THR'', 33, 23, 8),
     (''READOUT_TIMEOUT_ENABLE'', 33, 31, 1)]"

section \<open>Register information\<close>

record AbcStarRegInfo =
  abcregisterMap :: "nat \<rightharpoonup> RegisterInfo"
  abcWriteMap :: "nat \<rightharpoonup> RegisterInfo"
  abcSubRegisterMap_all :: "ABCStarSubRegister \<rightharpoonup> SubRegisterInfo"

text \<open>Registers that version 1 leaves out: \<open>ADCS4\<close> to \<open>ADCS7\<close>, \<open>CREG2\<close> to \<open>CREG6\<close>.\<close>

definition abc_skip_v1 :: "int \<Rightarrow> nat \<Rightarrow> bool" where
  "abc_skip_v1 version reg \<longleftrightarrow> version = 1 \<and> (3 < reg \<and> reg \<le> 7 \<or> 33 < reg \<and> reg \<le> 38)"

definition abc_reg_map :: "int \<Rightarrow> nat \<rightharpoonup> RegisterInfo" where
  "abc_reg_map version =
     fold (\<lambda>reg m. if abc_skip_v1 version reg then m else m(reg \<mapsto> new_RegisterInfo reg))
       abc_listRegs Map.empty"

definition abc_write_regs :: "int \<Rightarrow> nat list" where
  "abc_write_regs version =
     filter (\<lambda>reg. \<not> (reg = 0 \<or> 48 \<le> reg \<and> reg \<le> 63 \<or> 128 \<le> reg) \<and> \<not> abc_skip_v1 version reg)
       abc_listRegs"

definition abc_subregdefs :: "int \<Rightarrow> subregdef list" where
  "abc_subregdefs version = (if version = 0 then s_abcsubregdefs_v0 else s_abcsubregdefs_v1)"

definition new_AbcStarRegInfo :: "int \<Rightarrow> AbcStarRegInfo result" where
  "new_AbcStarRegInfo version =
     rbind (rfold (add_subreg Out_Of_Range) (abc_subregdefs version) (abc_reg_map version, Map.empty)) (\<lambda>(regMap, subs).
     Inr \<lparr>abcregisterMap = regMap,
          abcWriteMap = (\<lambda>a. if a \<in> set (abc_write_regs version) then regMap a else None),
          abcSubRegisterMap_all = subs\<rparr>)"

definition abc_instance :: "int \<Rightarrow> AbcStarRegInfo result" where
  "abc_instance version = new_AbcStarRegInfo (if version > 0 then 1 else 0)"

definition abc_subRegFromEnum :: "AbcStarRegInfo \<Rightarrow> ABCStarSubRegister \<Rightarrow> SubRegisterInfo result" where
  "abc_subRegFromEnum info subReg =
     (case abcSubRegisterMap_all info subReg of Some i \<Rightarrow> Inr i | None \<Rightarrow> Inl Out_Of_Range)"

definition abc_getSubRegisterParentAddr :: "AbcStarRegInfo \<Rightarrow> ABCStarSubRegister \<Rightarrow> nat result" where
  "abc_getSubRegisterParentAddr info subReg =
     rbind (abc_subRegFromEnum info subReg) (\<lambda>i. Inr (m_regAddress i))"

section \<open>The configuration\<close>

record AbcCfg =
  m_abcID :: u32
  m_registerMap :: "nat \<rightharpoonup> nat"
  m_registerSet :: "Register list"
  abc_info :: AbcStarRegInfo

definition abc_getRegister :: "AbcCfg \<Rightarrow> nat \<Rightarrow> Register result" where
  "abc_getRegister c addr =
     (case m_registerMap c addr of
        None \<Rightarrow> Inl Out_Of_Range
      | Some index \<Rightarrow> vec_read (m_registerSet c) index)"

text \<open>Replacing the register a reference from \<open>getRegister\<close> points to.\<close>

definition abc_update :: "AbcCfg \<Rightarrow> nat \<Rightarrow> Register \<Rightarrow> AbcCfg" where
  "abc_update c addr r =
     (case m_registerMap c addr of
        None \<Rightarrow> c
      | Some index \<Rightarrow> c\<lparr>m_registerSet := (m_registerSet c)[index := r]\<rparr>)"

definition abc_getRegisterValue :: "AbcCfg \<Rightarrow> nat \<Rightarrow> u32 result" where
  "abc_getRegisterValue c addr = rbind (abc_getRegister c addr) (\<lambda>r. Inr (m_regValue r))"

definition abc_setRegisterValue :: "AbcCfg \<Rightarrow> nat \<Rightarrow> u32 \<Rightarrow> AbcCfg result" where
  "abc_setRegisterValue c addr v =
     rbind (abc_getRegister c addr) (\<lambda>r. Inr (abc_update c addr (r\<lparr>m_regValue := v\<rparr>)))"

definition abc_setSubRegisterValue :: "AbcCfg \<Rightarrow> ABCStarSubRegister \<Rightarrow> u32 \<Rightarrow> AbcCfg result" where
  "abc_setSubRegisterValue c subReg v =
     rbind (abc_subRegFromEnum (abc_info c) subReg) (\<lambda>info.
     rbind (abc_getRegister c (m_regAddress info)) (\<lambda>reg.
     rbind (sub_updateValue info v (m_regValue reg)) (\<lambda>x.
     Inr (abc_update c (m_regAddress info) (reg\<lparr>m_regValue := x\<rparr>)))))"

definition abc_getSubRegisterValue :: "AbcCfg \<Rightarrow> ABCStarSubRegister \<Rightarrow> u32 result" where
  "abc_getSubRegisterValue c subReg =
     rbind (abc_subRegFromEnum (abc_info c) subReg) (\<lambda>info.
     rbind (abc_getRegister c (m_regAddress info)) (\<lambda>reg. Inr (sub_getValue info (m_regValue reg))))"

definition abc_getSubRegisterParentValue :: "AbcCfg \<Rightarrow> ABCStarSubRegister \<Rightarrow> u32 result" where
  "abc_getSubRegisterParentValue c subReg =
     rbind (abc_subRegFromEnum (abc_info c) subReg) (\<lambda>info.
     rbind (abc_getRegister c (m_regAddress info)) (\<lambda>reg. Inr (m_regValue reg)))"

definition abc_add_reg :: "int \<Rightarrow> nat \<Rightarrow> AbcCfg \<Rightarrow> AbcCfg result" where
  "abc_add_reg version reg c =
     (if abc_skip_v1 version reg then Inr c
      else case abcregisterMap (abc_info c) reg of
             None \<Rightarrow> Inl Out_Of_Range
           | Some ri \<Rightarrow>
               let rs = m_registerSet c @ [\<lparr>m_info = ri, m_regValue = 0\<rparr>]
               in Inr (c\<lparr>m_registerSet := rs, m_registerMap := (m_registerMap c)(reg \<mapsto> length rs - 1)\<rparr>))"

definition abc_setupMaps :: "int \<Rightarrow> AbcCfg \<Rightarrow> AbcCfg result" where
  "abc_setupMaps version c = rfold (abc_add_reg version) abc_listRegs c"

text \<open>The registers and values that \<open>setDefaults\<close> writes, loop by loop.\<close>

definition abc_default_values :: "int \<Rightarrow> (nat \<times> u32) list" where
  "abc_default_values version =
     [(0, 0)] @
     map (\<lambda>r. (r, 0)) (filter (\<lambda>r. \<not> (version = 1 \<and> 3 < r \<and> r \<le> 7)) [1..<8]) @
     map (\<lambda>r. (r, 0)) (filter (\<lambda>r. r \<noteq> 37 \<and> \<not> (version = 1 \<and> 33 < r \<and> r \<le> 38)) [32..<39]) @
     map (\<lambda>r. (r, 0)) [16..<24] @
     map (\<lambda>r. (r, 0xffffffff)) [104..<112] @
     map (\<lambda>r. (r, 0xffffffff)) [64..<96] @
     map (\<lambda>r. (r, 0)) [96..<104]"

definition abc_setDefaults :: "int \<Rightarrow> AbcCfg \<Rightarrow> AbcCfg result" where
  "abc_setDefaults version c =
     rfold (\<lambda>(a, v) c. abc_setRegisterValue c a v) (abc_default_values version) c"

definition new_AbcCfg :: "int \<Rightarrow> AbcCfg result" where
  "new_AbcCfg version =
     rbind (abc_instance version) (\<lambda>info.
     rbind (abc_setupMaps version
       \<lparr>m_abcID = 0, m_registerMap = Map.empty, m_registerSet = [], abc_info = info\<rparr>)
       (abc_setDefaults version))"

section \<open>Trims and masks\<close>

definition setTrimDACRaw :: "AbcCfg \<Rightarrow> nat \<Rightarrow> int \<Rightarrow> AbcCfg result" where
  "setTrimDACRaw c channel v =
     (if channel \<ge> StripsPerABC \<or> v < 0 \<or> v > 31 then Inr c
      else
        let lo_reg = TrimLo (channel div 8); hi_reg = TrimHi (channel div 32);
            lo_val = word_of_int v AND 0xf; hi_val = drop_bit 4 (word_of_int v) AND 1;
            lo_offset = (channel * 4) mod 32; hi_offset = channel mod 32
        in rbind (abc_getRegisterValue c lo_reg) (\<lambda>lo.
           rbind (abc_getRegisterValue c hi_reg) (\<lambda>hi.
           rbind (abc_setRegisterValue c lo_reg
             ((lo AND NOT (push_bit lo_offset 0xf)) OR push_bit lo_offset lo_val)) (\<lambda>c.
           abc_setRegisterValue c hi_reg
             ((hi AND NOT (push_bit hi_offset 1)) OR push_bit hi_offset hi_val)))))"

definition getTrimDACRaw :: "AbcCfg \<Rightarrow> nat \<Rightarrow> u32 result" where
  "getTrimDACRaw c channel =
     (if channel \<ge> StripsPerABC then Inr 0
      else
        let lo_reg = TrimLo (channel div 8); hi_reg = TrimHi (channel div 32);
            lo_offset = (channel * 4) mod 32; hi_offset = channel mod 32
        in rbind (abc_getRegisterValue c lo_reg) (\<lambda>lo.
           rbind (abc_getRegisterValue c hi_reg) (\<lambda>hi.
           let lo_val = drop_bit lo_offset lo AND 0xf; hi_val = drop_bit hi_offset hi AND 1
           in Inr (push_bit 4 hi_val OR lo_val))))"

definition trimRegOrderFromChannel :: "u8 \<Rightarrow> u8" where
  "trimRegOrderFromChannel chn =
     push_bit 1 (chn AND 0x7e) OR (chn AND 1) OR drop_bit 6 (chn AND 0x80)"

definition maskIndex :: "nat \<Rightarrow> u8" where
  "maskIndex channel =
     (let ch = (of_nat channel :: u32)
      in ucast (push_bit 1 (ch AND 0x7f) OR drop_bit 7 (ch AND 0x80)))"

definition isMasked :: "AbcCfg \<Rightarrow> nat \<Rightarrow> bool result" where
  "isMasked c channel =
     (let mi = maskIndex channel; maskReg = MaskInput (unat (drop_bit 5 mi AND 7))
      in rbind (abc_getRegisterValue c maskReg) (\<lambda>maskValue.
         Inr (maskValue AND push_bit (unat (mi AND 0x1f)) 1 \<noteq> 0)))"

definition setMask :: "AbcCfg \<Rightarrow> nat \<Rightarrow> bool \<Rightarrow> AbcCfg result" where
  "setMask c channel msk =
     (let mi = maskIndex channel; maskReg = MaskInput (unat (drop_bit 5 mi AND 7));
          maskPattern = push_bit (unat (mi AND 0x1f)) 1
      in rbind (abc_getRegisterValue c maskReg) (\<lambda>maskValue.
         abc_setRegisterValue c maskReg
           (if msk then maskValue OR maskPattern else maskValue AND NOT maskPattern)))"

section \<open>The configuration as a register store\<close>

interpretation abc_vec: reg_vector m_registerMap m_registerSet abc_info
  "\<lambda>m rs c. c\<lparr>m_registerMap := m, m_registerSet := rs\<rparr>"
  by unfold_locales simp_all

abbreviation abc_wf :: "AbcCfg \<Rightarrow> bool" where
  "abc_wf \<equiv> abc_vec.vwf"

abbreviation abc_addrs :: "AbcCfg \<Rightarrow> nat set" where
  "abc_addrs c \<equiv> dom (m_registerMap c)"

lemma abc_get_vec: "abc_getRegisterValue = abc_vec.vget"
  by (simp add: fun_eq_iff abc_getRegisterValue_def abc_getRegister_def abc_vec.vget_def split: option.split)

lemma abc_set_vec: "abc_setRegisterValue = abc_vec.vput"
  by (auto simp: fun_eq_iff abc_setRegisterValue_def abc_getRegister_def abc_update_def
      abc_vec.vput_def split: option.split)

interpretation abc: reg_store abc_getRegisterValue abc_setRegisterValue abc_wf abc_addrs
  unfolding abc_get_vec abc_set_vec by (rule abc_vec.vstore)

text \<open>Writing keeps the description.\<close>

lemma abc_set_info: "abc_setRegisterValue c a v = Inr t \<Longrightarrow> abc_info t = abc_info c"
  unfolding abc_set_vec by (rule abc_vec.vput_info)

section \<open>Construction\<close>

lemma table_v0_disjoint: "pairwise_list (\<lambda>d e. \<not> def_overlap d e) s_abcsubregdefs_v0"
  by code_simp

lemma table_v1_disjoint: "pairwise_list (\<lambda>d e. \<not> def_overlap d e) s_abcsubregdefs_v1"
  by code_simp

lemma table_v0_names: "distinct (map fst s_abcsubregdefs_v0)" "list_all def_fits s_abcsubregdefs_v0"
  by code_simp+

lemma table_v1_names: "distinct (map fst s_abcsubregdefs_v1)" "list_all def_fits s_abcsubregdefs_v1"
  by code_simp+

lemma abc_tables_ok: "table_ok (abc_subregdefs v)"
  by (simp add: abc_subregdefs_def table_ok_def table_v0_disjoint table_v1_disjoint table_v0_names
      table_v1_names)

lemma abc_reg_map_spec:
  "dom (abc_reg_map v) = {r \<in> set abc_listRegs. \<not> abc_skip_v1 v r}" "regs_named (abc_reg_map v)"
  unfolding abc_reg_map_def by (rule reg_map_spec)+

definition abc_has_reg :: "int \<Rightarrow> nat \<Rightarrow> bool" where
  "abc_has_reg v a \<longleftrightarrow>
     (a < 8 \<or> 16 \<le> a \<and> a < 24 \<or> 32 \<le> a \<and> a < 37 \<or> a = 38 \<or> 48 \<le> a \<and> a < 53 \<or> a = 63 \<or>
      64 \<le> a \<and> a < 112 \<or> 128 \<le> a \<and> a < 192) \<and> \<not> abc_skip_v1 v a"

lemma abc_has_reg: "{r \<in> set abc_listRegs. \<not> abc_skip_v1 v r} = Collect (abc_has_reg v)"
  unfolding abc_listRegs_def abc_has_reg_def set_append set_upt by auto

lemma table_v0_addresses: "list_all (\<lambda>d. abc_has_reg 0 (fst (snd d))) s_abcsubregdefs_v0"
  by code_simp

lemma table_v1_addresses: "list_all (\<lambda>d. abc_has_reg 1 (fst (snd d))) s_abcsubregdefs_v1"
  by code_simp

abbreviation abc_norm :: "int \<Rightarrow> int" where
  "abc_norm v \<equiv> if v > 0 then 1 else 0"

lemma table_addresses:
  "\<forall>(n, a, off, w) \<in> set (abc_subregdefs (abc_norm v)). a \<in> dom (abc_reg_map (abc_norm v))"
  using table_v0_addresses table_v1_addresses
  by (auto simp: abc_reg_map_spec abc_has_reg abc_subregdefs_def list_all_iff split: if_splits)

definition abc_fields :: "int \<Rightarrow> string \<rightharpoonup> SubRegisterInfo" where
  "abc_fields v = map_of (rev (map (\<lambda>d. (fst d, sub_of d)) (abc_subregdefs (abc_norm v))))"

lemma abc_instance_spec:
  obtains info where "abc_instance v = Inr info"
    "dom (abcregisterMap info) = Collect (abc_has_reg (abc_norm v))"
    "abcSubRegisterMap_all info = abc_fields v"
proof -
  let ?v = "abc_norm v"
  obtain m' s' where ms: "rfold (add_subreg Out_Of_Range) (abc_subregdefs ?v) (abc_reg_map ?v, Map.empty) = Inr (m', s')"
    "dom m' = dom (abc_reg_map ?v)" "s' = Map.empty ++ map_of (rev (map (\<lambda>d. (fst d, sub_of d)) (abc_subregdefs ?v)))"
    by (rule add_subregs [OF abc_reg_map_spec(2) table_addresses]) (rule that)
  show thesis
  proof (rule that)
    show "abc_instance v = Inr \<lparr>abcregisterMap = m',
      abcWriteMap = (\<lambda>a. if a \<in> set (abc_write_regs ?v) then m' a else None), abcSubRegisterMap_all = s'\<rparr>"
      unfolding abc_instance_def new_AbcStarRegInfo_def ms(1) by (simp only: rbind_Inr prod.case)
  qed (simp_all only: ms(2,3) AbcStarRegInfo.simps abc_reg_map_spec abc_has_reg abc_fields_def empty_map_add)
qed

lemma abc_add_vec: "abc_add_reg v = abc_vec.vadd (abc_skip_v1 v) abcregisterMap"
  by (auto simp: fun_eq_iff abc_add_reg_def abc_vec.vadd_def Let_def split: option.split)

definition abc_default :: "nat \<Rightarrow> u32" where
  "abc_default a = (if 64 \<le> a \<and> a < 96 \<or> 104 \<le> a \<and> a < 112 then 0xffffffff else 0)"

lemma default_values_regs:
  "list_all (\<lambda>d. abc_has_reg 0 (fst d)) (abc_default_values 0)"
  "list_all (\<lambda>d. abc_has_reg 1 (fst d)) (abc_default_values 1)"
  by code_simp+

lemma abc_default_values_spec:
  "(a, x) \<in> set (abc_default_values v) \<Longrightarrow> x = abc_default a"
  "abc_default a \<noteq> 0 \<Longrightarrow> (a, abc_default a) \<in> set (abc_default_values v)"
  "v \<le> 1 \<Longrightarrow> (a, x) \<in> set (abc_default_values v) \<Longrightarrow> abc_has_reg (abc_norm v) a"
proof -
  show "(a, x) \<in> set (abc_default_values v) \<Longrightarrow> x = abc_default a"
    unfolding abc_default_values_def abc_default_def set_append set_map set_filter set_upt Un_iff
      image_iff Bex_def atLeastLessThan_iff mem_Collect_eq list.set singleton_iff prod.inject
    by (elim disjE exE conjE; simp)
next
  assume "abc_default a \<noteq> 0"
  then have "a \<in> {64..<96} \<or> a \<in> {104..<112}" "abc_default a = 0xffffffff"
    by (auto simp: abc_default_def split: if_splits)
  then show "(a, abc_default a) \<in> set (abc_default_values v)"
    unfolding abc_default_values_def set_append set_map set_upt by auto
next
  assume v: "v \<le> 1" and m: "(a, x) \<in> set (abc_default_values v)"
  show "abc_has_reg (abc_norm v) a"
  proof (cases "v = 1")
    case True
    with m default_values_regs(2) show ?thesis by (auto simp: list_all_iff)
  next
    case False
    then have "abc_default_values v = abc_default_values 0" by (simp add: abc_default_values_def)
    with v False m default_values_regs(1) show ?thesis by (auto simp: list_all_iff)
  qed
qed

lemma map_of_default:
  "(case map_of (rev (abc_default_values v)) a of Some x \<Rightarrow> Inr x | None \<Rightarrow> (Inr 0 :: u32 result)) =
   Inr (abc_default a)"
proof (cases "map_of (rev (abc_default_values v)) a")
  case None
  then have "(a, x) \<notin> set (abc_default_values v)" for x by (force simp: map_of_eq_None_iff)
  then have "abc_default a = 0" using abc_default_values_spec(2) by blast
  with None show ?thesis by simp
next
  case (Some x)
  then have "(a, x) \<in> set (abc_default_values v)" using map_of_SomeD by fastforce
  then show ?thesis using Some abc_default_values_spec(1) by simp
qed

lemma abc_listRegs_distinct: "distinct abc_listRegs"
  unfolding abc_listRegs_def distinct_append set_append set_upt by auto

lemma new_AbcCfg_ok:
  assumes "v \<le> 1"
  obtains c where "new_AbcCfg v = Inr c" "abc_wf c" "abc_addrs c = Collect (abc_has_reg (abc_norm v))"
    "abcSubRegisterMap_all (abc_info c) = abc_fields v"
    "\<And>a. a \<in> abc_addrs c \<Longrightarrow> abc_getRegisterValue c a = Inr (abc_default a)"
proof -
  obtain info where info: "abc_instance v = Inr info"
    "dom (abcregisterMap info) = Collect (abc_has_reg (abc_norm v))"
    "abcSubRegisterMap_all info = abc_fields v"
    by (rule abc_instance_spec)
  let ?c0 = "\<lparr>m_abcID = 0, m_registerMap = Map.empty, m_registerSet = [], abc_info = info\<rparr>"
  have c0: "abc_wf ?c0" "abc_vec.vzero ?c0" "set abc_listRegs \<inter> abc_addrs ?c0 = {}"
    by (simp_all add: abc_vec.vwf_def abc_vec.vzero_def)
  have skip: "abc_skip_v1 v r = abc_skip_v1 (abc_norm v) r" for r
    using assms by (auto simp: abc_skip_v1_def)
  have in0: "\<forall>r \<in> set abc_listRegs. abc_skip_v1 v r \<or> r \<in> dom (abcregisterMap (abc_info ?c0))"
    using abc_has_reg [of "abc_norm v"] unfolding skip by (auto simp: info(2))
  obtain c1 where c1': "rfold (abc_add_reg v) abc_listRegs ?c0 = Inr c1" "abc_wf c1" "abc_vec.vzero c1"
    "abc_info c1 = abc_info ?c0" "abc_addrs c1 = abc_addrs ?c0 \<union> {r \<in> set abc_listRegs. \<not> abc_skip_v1 v r}"
    by (rule abc_vec.vadd_list [where skip = "abc_skip_v1 v" and descr = abcregisterMap, OF c0(1,2) abc_listRegs_distinct c0(3) in0, folded abc_add_vec]) (rule that)
  have c1: "rfold (abc_add_reg v) abc_listRegs ?c0 = Inr c1" "abc_wf c1" "abc_info c1 = info"
    "abc_addrs c1 = Collect (abc_has_reg (abc_norm v))"
    using c1' by (simp_all add: skip abc_has_reg)
  have zero: "abc_getRegisterValue c1 a = Inr 0" if "a \<in> abc_addrs c1" for a
    unfolding abc_get_vec by (rule abc_vec.vzero_get [OF c1'(2,3) that])
  have "\<forall>(a, x) \<in> set (abc_default_values v). a \<in> abc_addrs c1"
    using abc_default_values_spec(3) [OF assms] c1(4) by auto
  from abc.put_list [OF c1(2) this] obtain t where
    t: "rfold (\<lambda>(a, v) c. abc_setRegisterValue c a v) (abc_default_values v) c1 = Inr t" "abc_wf t"
      "abc_addrs t = abc_addrs c1"
      "\<And>a. abc_getRegisterValue t a = (case map_of (rev (abc_default_values v)) a of
         Some v \<Rightarrow> Inr v | None \<Rightarrow> abc_getRegisterValue c1 a)"
    by blast
  have "abc_info t = info"
    using c1(3) by (rule rfold_invariant [OF t(1), of "\<lambda>c. abc_info c = info"]) (auto simp: abc_set_info)
  moreover have "abc_getRegisterValue t a = Inr (abc_default a)" if "a \<in> abc_addrs t" for a
    using t(4) [of a] zero [of a] that t(3) map_of_default [of v a] by (simp split: option.splits)
  ultimately show thesis
    using t c1 info by (intro that [of t]) (simp_all add: new_AbcCfg_def abc_setupMaps_def abc_setDefaults_def)
qed

lemma new_AbcCfg_bad_version:
  assumes "1 < v"
  shows "new_AbcCfg v = Inl Out_Of_Range"
proof -
  obtain info where info: "abc_instance v = Inr info"
    "dom (abcregisterMap info) = Collect (abc_has_reg (abc_norm v))"
    by (rule abc_instance_spec)
  have "rfold (abc_add_reg v) abc_listRegs
      \<lparr>m_abcID = 0, m_registerMap = Map.empty, m_registerSet = [], abc_info = info\<rparr> = Inl Out_Of_Range"
    unfolding abc_add_vec
  proof (rule abc_vec.vadd_fails)
    have "4 \<in> set abc_listRegs" unfolding abc_listRegs_def set_append set_upt by simp
    moreover have "\<not> abc_skip_v1 v 4" "4 \<notin> dom (abcregisterMap info)"
      using assms unfolding info(2) by (simp_all add: abc_skip_v1_def abc_has_reg_def)
    ultimately show "\<exists>r \<in> set abc_listRegs. \<not> abc_skip_v1 v r \<and> r \<notin> dom (abcregisterMap info)" by blast
  qed simp
  then show ?thesis using info by (simp add: new_AbcCfg_def abc_setupMaps_def)
qed

section \<open>Fields\<close>

text \<open>A configuration as the constructor and the setters leave it.\<close>

definition abc_ok :: "AbcCfg \<Rightarrow> bool" where
  "abc_ok c \<longleftrightarrow> abc_wf c \<and>
     (\<exists>v \<in> {0, 1}. abc_addrs c = Collect (abc_has_reg v) \<and> abcSubRegisterMap_all (abc_info c) = abc_fields v)"

lemma abc_fields_spec:
  assumes "v \<in> {0, 1}" and "abc_fields v r = Some i"
  shows "fits i" "abc_has_reg v (m_regAddress i)"
    "abc_fields v s = Some j \<Longrightarrow> r \<noteq> s \<Longrightarrow> \<not> field_overlap i j"
proof -
  let ?defs = "abc_subregdefs v"
  have nv: "abc_norm v = v" using assms(1) by auto
  have ok: "table_ok ?defs" by (rule abc_tables_ok)
  then have dist: "distinct (map fst ?defs)" by (simp add: table_ok_def)
  from assms(2) table_lookup [OF dist] obtain d where d: "d \<in> set ?defs" "fst d = r" "i = sub_of d"
    unfolding abc_fields_def nv by blast
  show "fits i" using table_sound(1) [OF ok d(1) d(1)] d(3) by simp
  show "abc_has_reg v (m_regAddress i)"
    using table_v0_addresses table_v1_addresses d assms(1)
    by (auto simp: abc_subregdefs_def list_all_iff sub_of_def split: prod.splits if_splits)
  show "\<not> field_overlap i j" if s: "abc_fields v s = Some j" "r \<noteq> s"
  proof -
    from s(1) table_lookup [OF dist] obtain e where e: "e \<in> set ?defs" "fst e = s" "j = sub_of e"
      unfolding abc_fields_def nv by blast
    show ?thesis using table_sound(2) [OF ok d(1) e(1)] d e s(2) by simp
  qed
qed

lemma abc_set_ok: "abc_ok c \<Longrightarrow> abc_setRegisterValue c a v = Inr t \<Longrightarrow> abc_ok t"
  using abc.put_Inr [of c a v t] abc_set_info [of c a v t] by (simp add: abc_ok_def)

interpretation abc_field: field_store abc_getRegisterValue abc_setRegisterValue abc_ok abc_addrs
  "\<lambda>c. abcSubRegisterMap_all (abc_info c)"
proof
  fix c a v
  assume ok: "abc_ok c"
  then have wf: "abc_wf c" by (simp add: abc_ok_def)
  show "a \<in> abc_addrs c \<Longrightarrow> \<exists>v. abc_getRegisterValue c a = Inr v" by (rule abc.get_in [OF wf])
  show "a \<notin> abc_addrs c \<Longrightarrow> abc_getRegisterValue c a = Inl Out_Of_Range" by (rule abc.get_out [OF wf])
  show "a \<notin> abc_addrs c \<Longrightarrow> abc_setRegisterValue c a v = Inl Out_Of_Range" by (rule abc.put_out [OF wf])
  show "a \<in> abc_addrs c \<Longrightarrow> \<exists>t. abc_setRegisterValue c a v = Inr t \<and> abc_ok t \<and> abc_addrs t = abc_addrs c \<and>
      abc_getRegisterValue t a = Inr v \<and> (\<forall>b. b \<noteq> a \<longrightarrow> abc_getRegisterValue t b = abc_getRegisterValue c b)"
    using abc.put_in [OF wf] abc_set_ok [OF ok] by blast
next
  fix c r i
  assume "abc_ok c" and "abcSubRegisterMap_all (abc_info c) r = Some i"
  then show "m_regAddress i \<in> abc_addrs c \<and> fits i"
    using abc_fields_spec unfolding abc_ok_def by (metis mem_Collect_eq)
next
  fix c r i s j
  assume "abc_ok c" "abcSubRegisterMap_all (abc_info c) r = Some i"
    "abcSubRegisterMap_all (abc_info c) s = Some j" "r \<noteq> s"
  then show "\<not> field_overlap i j"
    using abc_fields_spec(3) unfolding abc_ok_def by metis
next
  fix c a v t
  assume "abc_setRegisterValue c a v = Inr t"
  then show "abcSubRegisterMap_all (abc_info t) = abcSubRegisterMap_all (abc_info c)"
    by (simp add: abc_set_info)
qed

lemma abc_setSub_store:
  "abc_setSubRegisterValue c r x =
   (case abcSubRegisterMap_all (abc_info c) r of None \<Rightarrow> Inl Out_Of_Range
    | Some i \<Rightarrow> rbind (abc_getRegisterValue c (m_regAddress i)) (\<lambda>v.
        rbind (sub_updateValue i x v) (abc_setRegisterValue c (m_regAddress i))))"
  by (auto simp: abc_setSubRegisterValue_def abc_subRegFromEnum_def abc_getRegisterValue_def
      abc_setRegisterValue_def rbind_def split: option.splits sum.splits)

lemma abc_getSub_store:
  "abc_getSubRegisterValue c r =
   (case abcSubRegisterMap_all (abc_info c) r of None \<Rightarrow> Inl Out_Of_Range
    | Some i \<Rightarrow> rbind (abc_getRegisterValue c (m_regAddress i)) (\<lambda>v. Inr (sub_getValue i v)))"
  by (auto simp: abc_getSubRegisterValue_def abc_subRegFromEnum_def abc_getRegisterValue_def
      rbind_def split: option.splits sum.splits)
section \<open>Trims\<close>

lemma lits: "(0xf :: u32) = mask 4" "(1 :: u32) = mask 1"
  by (simp_all add: mask_eq_exp_minus_1)

lemma abc_ok_wf: "abc_ok c \<Longrightarrow> abc_wf c"
  by (simp add: abc_ok_def)

lemma abc_ok_addrs:
  assumes "abc_ok c"
  shows "k < 8 \<Longrightarrow> MaskInput k \<in> abc_addrs c" "k < 32 \<Longrightarrow> TrimLo k \<in> abc_addrs c"
    "k < 8 \<Longrightarrow> TrimHi k \<in> abc_addrs c" "k < 8 \<Longrightarrow> CalReg k \<in> abc_addrs c"
  using assms
  by (auto simp: abc_ok_def abc_has_reg_def abc_skip_v1_def MaskInput_def TrimLo_def TrimHi_def CalReg_def)

lemma nibble_offset: "(k * 4) mod 32 = 4 * (k mod 8)" for k :: nat
  using mult_mod_left [of k 8 4] by simp

lemma nibble_fits: "(k * 4) mod 32 + 4 \<le> (32 :: nat)"
  unfolding nibble_offset using mod_less_divisor [of 8 k] by linarith

definition trim_of :: "u32 \<Rightarrow> u32 \<Rightarrow> nat \<Rightarrow> u32" where
  "trim_of lo hi ch =
     push_bit 4 (field_get (ch mod 32) 1 hi) OR field_get ((ch * 4) mod 32) 4 lo"

lemma getTrim_values:
  assumes "ch < 256" and "abc_getRegisterValue c (TrimLo (ch div 8)) = Inr lo"
    and "abc_getRegisterValue c (TrimHi (ch div 32)) = Inr hi"
  shows "getTrimDACRaw c ch = Inr (trim_of lo hi ch)"
  using assms
  by (simp add: getTrimDACRaw_def StripsPerABC_def Let_def trim_of_def field_get_def lits del: mask_Suc_0)

lemma setTrim_values:
  assumes ok: "abc_ok c" and "ch < 256" and "0 \<le> v" and "v \<le> 31"
    and lo: "abc_getRegisterValue c (TrimLo (ch div 8)) = Inr lo"
    and hi: "abc_getRegisterValue c (TrimHi (ch div 32)) = Inr hi"
  obtains t where "setTrimDACRaw c ch v = Inr t" "abc_ok t"
    "abc_getRegisterValue t (TrimLo (ch div 8)) = Inr (field_put ((ch * 4) mod 32) 4 (word_of_int v) lo)"
    "abc_getRegisterValue t (TrimHi (ch div 32)) = Inr (field_put (ch mod 32) 1 (drop_bit 4 (word_of_int v)) hi)"
    "\<And>a. a \<noteq> TrimLo (ch div 8) \<Longrightarrow> a \<noteq> TrimHi (ch div 32) \<Longrightarrow>
       abc_getRegisterValue t a = abc_getRegisterValue c a"
proof -
  let ?lo = "field_put ((ch * 4) mod 32) 4 (word_of_int v) lo"
  let ?hi = "field_put (ch mod 32) 1 (drop_bit 4 (word_of_int v)) hi"
  have k: "ch div 8 < 32" "ch div 32 < 8" using assms(2) by auto
  have ne: "TrimHi (ch div 32) \<noteq> TrimLo (ch div 8)" using k by (simp add: TrimHi_def TrimLo_def)
  from abc.put_in [OF abc_ok_wf [OF ok] abc_ok_addrs(2) [OF ok k(1)], of ?lo] obtain u where
    u: "abc_setRegisterValue c (TrimLo (ch div 8)) ?lo = Inr u"
      "abc_getRegisterValue u (TrimLo (ch div 8)) = Inr ?lo"
      "\<And>b. b \<noteq> TrimLo (ch div 8) \<Longrightarrow> abc_getRegisterValue u b = abc_getRegisterValue c b" by blast
  have uok: "abc_ok u" by (rule abc_set_ok [OF ok u(1)])
  from abc.put_in [OF abc_ok_wf [OF uok] abc_ok_addrs(3) [OF uok k(2)], of ?hi] obtain t where
    t: "abc_setRegisterValue u (TrimHi (ch div 32)) ?hi = Inr t"
      "abc_getRegisterValue t (TrimHi (ch div 32)) = Inr ?hi"
      "\<And>b. b \<noteq> TrimHi (ch div 32) \<Longrightarrow> abc_getRegisterValue t b = abc_getRegisterValue u b" by blast
  show thesis
  proof (rule that)
    show "setTrimDACRaw c ch v = Inr t"
      using assms u(1) t(1)
      by (simp add: setTrimDACRaw_def StripsPerABC_def Let_def field_put_def lits del: mask_Suc_0)
    show "abc_ok t" by (rule abc_set_ok [OF uok t(1)])
  qed (use u t ne in auto)
qed

lemma split_five: "push_bit 4 (drop_bit 4 x AND mask 1) OR (x AND mask 4) = take_bit 5 (x :: u32)"
proof (rule bit_word_eqI)
  fix n assume n: "n < LENGTH(32)"
  consider "n < 4" | "n = 4" | "4 < n" by linarith
  then show "bit (push_bit 4 (drop_bit 4 x AND mask 1) OR (x AND mask 4)) n = bit (take_bit 5 x) n"
    by cases (use n in \<open>auto simp: bit_simps simp del: mask_Suc_0\<close>)
qed

lemma trim_of_put:
  assumes "0 \<le> v" and "v \<le> 31"
  shows "trim_of (field_put ((ch * 4) mod 32) 4 (word_of_int v) lo)
    (field_put (ch mod 32) 1 (drop_bit 4 (word_of_int v)) hi) ch = word_of_int v"
proof -
  have o: "(ch * 4) mod 32 + 4 \<le> 32" by (rule nibble_fits)
  have "take_bit 5 (word_of_int v :: u32) = word_of_int v"
    using assms by (simp add: take_bit_of_int take_bit_int_eq_self)
  then show ?thesis
    unfolding trim_of_def using o split_five [of "word_of_int v"]
    by (subst (1 2) field_get_put) simp_all
qed

text \<open>Two channels share neither a nibble nor a bit.\<close>

lemma trim_of_other:
  assumes "ch \<noteq> ch'" and "ch div 8 = ch' div 8"
  shows "field_get ((ch' * 4) mod 32) 4 (field_put ((ch * 4) mod 32) 4 x lo) = field_get ((ch' * 4) mod 32) 4 (lo :: u32)"
proof (rule field_get_put_other)
  have m: "(k * 4) mod 32 = 4 * (k mod 8)" for k :: nat by (rule nibble_offset)
  have "ch mod 8 \<noteq> ch' mod 8"
    using assms div_mult_mod_eq [of ch 8] div_mult_mod_eq [of ch' 8] by auto
  then show "(ch * 4) mod 32 + 4 \<le> (ch' * 4) mod 32 \<or> (ch' * 4) mod 32 + 4 \<le> (ch * 4) mod 32"
    unfolding m by linarith
  have "ch' mod 8 < 8" by simp
  then show "(ch' * 4) mod 32 + 4 \<le> LENGTH(32)" unfolding m by simp
qed

lemma trim_hi_other:
  assumes "ch \<noteq> ch'" and "ch div 32 = ch' div 32"
  shows "field_get (ch' mod 32) 1 (field_put (ch mod 32) 1 x hi) = field_get (ch' mod 32) 1 (hi :: u32)"
proof (rule field_get_put_other)
  have "ch mod 32 \<noteq> ch' mod 32"
    using assms div_mult_mod_eq [of ch 32] div_mult_mod_eq [of ch' 32] by auto
  then show "ch mod 32 + 1 \<le> ch' mod 32 \<or> ch' mod 32 + 1 \<le> ch mod 32" by linarith
  have "ch' mod 32 < 32" by simp
  then show "ch' mod 32 + 1 \<le> LENGTH(32)" by simp
qed

lemma getTrim_other:
  assumes ok: "abc_ok c" and ch: "ch < 256" and v: "0 \<le> v" "v \<le> 31" and ne: "ch' \<noteq> ch"
    and set: "setTrimDACRaw c ch v = Inr t"
  shows "getTrimDACRaw t ch' = getTrimDACRaw c ch'"
proof (cases "ch' < 256")
  case False
  then show ?thesis by (simp add: getTrimDACRaw_def StripsPerABC_def)
next
  case True
  have get: "\<exists>x. abc_getRegisterValue c (TrimLo (k div 8)) = Inr x"
    "\<exists>x. abc_getRegisterValue c (TrimHi (k div 32)) = Inr x" if "k < 256" for k
    using abc.get_in [OF abc_ok_wf [OF ok]] abc_ok_addrs(2) [OF ok, of "k div 8"]
      abc_ok_addrs(3) [OF ok, of "k div 32"] that by auto
  from get [OF ch] obtain lo hi where lh: "abc_getRegisterValue c (TrimLo (ch div 8)) = Inr lo"
    "abc_getRegisterValue c (TrimHi (ch div 32)) = Inr hi" by blast
  from get [OF True] obtain lo' hi' where lh': "abc_getRegisterValue c (TrimLo (ch' div 8)) = Inr lo'"
    "abc_getRegisterValue c (TrimHi (ch' div 32)) = Inr hi'" by blast
  from setTrim_values [OF ok ch v lh] obtain u where u: "setTrimDACRaw c ch v = Inr u"
    "abc_getRegisterValue u (TrimLo (ch div 8)) = Inr (field_put ((ch * 4) mod 32) 4 (word_of_int v) lo)"
    "abc_getRegisterValue u (TrimHi (ch div 32)) = Inr (field_put (ch mod 32) 1 (drop_bit 4 (word_of_int v)) hi)"
    "\<And>a. a \<noteq> TrimLo (ch div 8) \<Longrightarrow> a \<noteq> TrimHi (ch div 32) \<Longrightarrow>
       abc_getRegisterValue u a = abc_getRegisterValue c a" by blast
  have tu: "t = u" using set u(1) by simp
  have k: "ch div 8 < 32" "ch' div 8 < 32" using ch True by auto
  have lo2: "\<exists>l. abc_getRegisterValue t (TrimLo (ch' div 8)) = Inr l \<and>
      field_get ((ch' * 4) mod 32) 4 l = field_get ((ch' * 4) mod 32) 4 lo'"
  proof (cases "ch div 8 = ch' div 8")
    case True
    then show ?thesis using u(2) tu lh lh' trim_of_other [OF ne [symmetric] True] by auto
  next
    case False
    then show ?thesis using u(4) [of "TrimLo (ch' div 8)"] tu lh' k by (auto simp: TrimLo_def TrimHi_def)
  qed
  have hi2: "\<exists>h. abc_getRegisterValue t (TrimHi (ch' div 32)) = Inr h \<and>
      field_get (ch' mod 32) 1 h = field_get (ch' mod 32) 1 hi'"
  proof (cases "ch div 32 = ch' div 32")
    case True
    then show ?thesis using u(3) tu lh lh' trim_hi_other [OF ne [symmetric] True] by auto
  next
    case False
    then show ?thesis using u(4) [of "TrimHi (ch' div 32)"] tu lh' k by (auto simp: TrimLo_def TrimHi_def)
  qed
  from lo2 hi2 show ?thesis
    using getTrim_values [OF True lh'] getTrim_values [OF True, of t] by (auto simp: trim_of_def)
qed

section \<open>Masks\<close>

lemma bit_maskIndex:
  "bit (maskIndex ch) n \<longleftrightarrow> n < 8 \<and> (if n = 0 then bit ch 7 else bit ch (n - 1))"
proof -
  have o: "odd (drop_bit 7 (of_nat ch :: u32)) \<longleftrightarrow> bit ch 7"
    using bit_iff_odd_drop_bit [of "of_nat ch :: u32" 7] by (simp add: bit_simps)
  have "drop_bit 7 ((of_nat ch :: u32) AND 0x80) = take_bit 1 (drop_bit 7 (of_nat ch))"
    by (rule bit_word_eqI) (auto simp: bits_simps)
  then have m: "maskIndex ch = ucast (push_bit 1 (take_bit 7 (of_nat ch)) OR take_bit 1 (drop_bit 7 (of_nat ch :: u32)))"
    unfolding maskIndex_def Let_def and_literals by (rule arg_cong)
  have b: "bit (take_bit 1 (drop_bit 7 (of_nat ch :: u32))) k \<longleftrightarrow> k = 0 \<and> bit ch 7" for k
    by (cases k) (simp_all add: bit_simps o)
  show ?thesis
    unfolding m bit_unsigned_iff bit_or_iff b bit_push_bit_iff bit_take_bit_iff
    by (cases n) (auto simp: bit_simps)
qed

lemma maskIndex_inj: "maskIndex ch = maskIndex ch' \<longleftrightarrow> ch mod 256 = ch' mod 256"
proof
  assume eq: "maskIndex ch = maskIndex ch'"
  have "bit ch n = bit ch' n" if "n < 8" for n
  proof (cases "n = 7")
    case True
    then show ?thesis using arg_cong [OF eq, of "\<lambda>w. bit w 0"] by (simp add: bit_maskIndex)
  next
    case False
    then show ?thesis using arg_cong [OF eq, of "\<lambda>w. bit w (Suc n)"] that by (simp add: bit_maskIndex)
  qed
  then have "take_bit 8 ch = take_bit 8 ch'" by (intro bit_eqI) (auto simp: bit_take_bit_iff)
  then show "ch mod 256 = ch' mod 256" by (simp add: take_bit_eq_mod)
next
  assume "ch mod 256 = ch' mod 256"
  then have "take_bit 8 ch = take_bit 8 ch'" by (simp add: take_bit_eq_mod)
  then have "bit ch n = bit ch' n" if "n < 8" for n using that by (metis bit_take_bit_iff)
  then show "maskIndex ch = maskIndex ch'" by (intro bit_word_eqI) (auto simp: bit_maskIndex)
qed

definition mask_reg :: "nat \<Rightarrow> nat" where
  "mask_reg ch = MaskInput (unat (drop_bit 5 (maskIndex ch) AND 7))"

definition mask_bit :: "nat \<Rightarrow> nat" where
  "mask_bit ch = unat (maskIndex ch AND 0x1f)"

lemma mask_reg_bit_inj:
  "mask_reg ch = mask_reg ch' \<Longrightarrow> mask_bit ch = mask_bit ch' \<Longrightarrow> ch mod 256 = ch' mod 256"
proof -
  assume r: "mask_reg ch = mask_reg ch'" and b: "mask_bit ch = mask_bit ch'"
  have join: "w = push_bit 5 (drop_bit 5 w AND 7) OR (w AND 0x1f)" for w :: u8
  proof (unfold and_literals, rule bit_word_eqI)
    fix n assume "n < LENGTH(8)"
    then show "bit w n = bit (push_bit 5 (take_bit 3 (drop_bit 5 w)) OR take_bit 5 w) n"
      by (cases "n < 5") (auto simp: bit_simps)
  qed
  from r have "drop_bit 5 (maskIndex ch) AND 7 = drop_bit 5 (maskIndex ch') AND 7"
    by (intro unsigned_word_eqI [where 'a = nat]) (simp add: mask_reg_def MaskInput_def)
  moreover from b have "maskIndex ch AND 0x1f = maskIndex ch' AND 0x1f"
    by (intro unsigned_word_eqI [where 'a = nat]) (simp add: mask_bit_def)
  ultimately have "maskIndex ch = maskIndex ch'" using join by metis
  then show ?thesis by (simp add: maskIndex_inj)
qed

lemma mask_reg_lt: "mask_reg ch \<in> MaskInput ` {..<8}" "mask_bit ch < 32"
  using unat_take_bit_lt [of 3 "drop_bit 5 (maskIndex ch)"] unat_take_bit_lt [of 5 "maskIndex ch"]
  by (auto simp: mask_reg_def mask_bit_def bits_simps)

lemma isMasked_value: "isMasked c ch = rbind (abc_getRegisterValue c (mask_reg ch)) (\<lambda>v. Inr (bit v (mask_bit ch)))"
  unfolding isMasked_def Let_def mask_reg_def mask_bit_def and_push_bit_1 by (rule refl)

lemma setMask_values:
  assumes ok: "abc_ok c"
  obtains v t where "abc_getRegisterValue c (mask_reg ch) = Inr v" "setMask c ch b = Inr t" "abc_ok t"
    "abc_getRegisterValue t (mask_reg ch) = Inr (set_bit_to (mask_bit ch) b v)"
    "\<And>a. a \<noteq> mask_reg ch \<Longrightarrow> abc_getRegisterValue t a = abc_getRegisterValue c a"
proof -
  obtain k where "k < 8" "mask_reg ch = MaskInput k" using mask_reg_lt(1) [of ch] by auto
  then have a: "mask_reg ch \<in> abc_addrs c" using abc_ok_addrs(1) [OF ok] by simp
  from abc.modify [OF abc_ok_wf [OF ok] a, of "set_bit_to (mask_bit ch) b"] obtain v t where
    vt: "abc_getRegisterValue c (mask_reg ch) = Inr v"
    "rbind (abc_getRegisterValue c (mask_reg ch)) (\<lambda>v. abc_setRegisterValue c (mask_reg ch) (set_bit_to (mask_bit ch) b v)) = Inr t"
    "abc_getRegisterValue t (mask_reg ch) = Inr (set_bit_to (mask_bit ch) b v)"
    "\<And>a. a \<noteq> mask_reg ch \<Longrightarrow> abc_getRegisterValue t a = abc_getRegisterValue c a" by metis
  have "setMask c ch b = Inr t"
    using vt(2) unfolding setMask_def Let_def mask_reg_def [symmetric] mask_bit_def [symmetric] set_bit_to_def .
  moreover have "abc_ok t" using vt(1,2) abc_set_ok [OF ok] by simp
  ultimately show thesis using vt by (intro that)
qed

lemma set_mask_masked:
  assumes ok: "abc_ok c" and set: "setMask c ch b = Inr t"
  shows "isMasked t ch' = (if ch' mod 256 = ch mod 256 then Inr b else isMasked c ch')"
proof -
  from setMask_values [OF ok, of ch b] set obtain v where
    v: "abc_getRegisterValue c (mask_reg ch) = Inr v"
    "abc_getRegisterValue t (mask_reg ch) = Inr (set_bit_to (mask_bit ch) b v)"
    "\<And>a. a \<noteq> mask_reg ch \<Longrightarrow> abc_getRegisterValue t a = abc_getRegisterValue c a" by auto
  consider "mask_reg ch' \<noteq> mask_reg ch" | "mask_reg ch' = mask_reg ch" "mask_bit ch' \<noteq> mask_bit ch"
    | "maskIndex ch' = maskIndex ch"
    by (metis mask_reg_bit_inj maskIndex_inj)
  then show ?thesis
  proof cases
    case 1
    then have "ch' mod 256 \<noteq> ch mod 256" by (metis maskIndex_inj mask_reg_def)
    with 1 v(3) show ?thesis by (simp add: isMasked_value)
  next
    case 2
    then have "ch' mod 256 \<noteq> ch mod 256" by (metis maskIndex_inj mask_bit_def)
    with 2 v show ?thesis by (simp add: isMasked_value bit_set_bit_to)
  next
    case 3
    then have "mask_reg ch' = mask_reg ch" "mask_bit ch' = mask_bit ch" "ch' mod 256 = ch mod 256"
      by (simp_all add: mask_reg_def mask_bit_def maskIndex_inj [symmetric])
    with v mask_reg_lt(2) [of ch] show ?thesis by (simp add: isMasked_value bit_set_bit_to)
  qed
qed

lemma set_mask_trims:
  assumes ok: "abc_ok c" and set: "setMask c ch b = Inr t"
  shows "getTrimDACRaw t ch' = getTrimDACRaw c ch'"
proof -
  have ne: "TrimLo k \<noteq> mask_reg ch" "TrimHi k \<noteq> mask_reg ch" for k
    using mask_reg_lt(1) [of ch] by (auto simp: TrimLo_def TrimHi_def MaskInput_def)
  from setMask_values [OF ok, of ch b] set
  have "\<And>a. a \<noteq> mask_reg ch \<Longrightarrow> abc_getRegisterValue t a = abc_getRegisterValue c a" by auto
  with ne show ?thesis by (simp add: getTrimDACRaw_def Let_def)
qed

lemma set_trim_masks:
  assumes ok: "abc_ok c" and set: "setTrimDACRaw c ch v = Inr t"
  shows "isMasked t ch' = isMasked c ch'"
proof (cases "ch < 256 \<and> 0 \<le> v \<and> v \<le> 31")
  case False
  then have "t = c" using set by (auto simp: setTrimDACRaw_def StripsPerABC_def split: if_splits)
  then show ?thesis by simp
next
  case True
  have ne: "mask_reg ch' \<noteq> TrimLo k" "mask_reg ch' \<noteq> TrimHi k" for k
    using mask_reg_lt(1) [of ch'] by (auto simp: TrimLo_def TrimHi_def MaskInput_def)
  from abc.get_in [OF abc_ok_wf [OF ok] abc_ok_addrs(2) [OF ok]] abc.get_in [OF abc_ok_wf [OF ok] abc_ok_addrs(3) [OF ok]] True
  obtain lo hi where lh: "abc_getRegisterValue c (TrimLo (ch div 8)) = Inr lo"
    "abc_getRegisterValue c (TrimHi (ch div 32)) = Inr hi"
    by (metis less_mult_imp_div_less numeral_times_numeral semiring_norm(11) semiring_norm(12) semiring_norm(13))
  from True obtain u where "setTrimDACRaw c ch v = Inr u"
    "\<And>a. a \<noteq> TrimLo (ch div 8) \<Longrightarrow> a \<noteq> TrimHi (ch div 32) \<Longrightarrow>
       abc_getRegisterValue u a = abc_getRegisterValue c a"
    using setTrim_values [OF ok _ _ _ lh, of v] by metis
  with set ne show ?thesis by (simp add: isMasked_value)
qed
section \<open>Properties\<close>

lemma new_AbcCfg_abc_ok:
  assumes "v \<le> 1"
  shows "\<exists>c. new_AbcCfg v = Inr c \<and> abc_ok c \<and> abcSubRegisterMap_all (abc_info c) = abc_fields v"
proof -
  obtain c where c: "new_AbcCfg v = Inr c" "abc_wf c" "abc_addrs c = Collect (abc_has_reg (abc_norm v))"
    "abcSubRegisterMap_all (abc_info c) = abc_fields v"
    by (rule new_AbcCfg_ok [OF assms])
  have "abc_fields v = abc_fields (abc_norm v)" by (simp add: abc_fields_def)
  with c have "abc_ok c"
    unfolding abc_ok_def by (intro conjI bexI [of _ "abc_norm v"]) auto
  with c show ?thesis by blast
qed

lemma trim_of_ones: "trim_of 0xffffffff 0 ch = 15"
proof -
  have "(ch * 4) mod 32 + 4 \<le> 32" by (rule nibble_fits)
  then have "field_get ((ch * 4) mod 32) 4 (0xffffffff :: u32) = mask 4"
    by (intro bit_word_eqI) (auto simp: bit_field_get bits_simps simp del: mask_Suc_0)
  moreover have "field_get (ch mod 32) 1 (0 :: u32) = 0" by (simp add: field_get_def)
  ultimately show ?thesis by (simp add: trim_of_def mask_eq_exp_minus_1)
qed

text \<open>C28: Construction of an ABC configuration: for every version up to 1 it succeeds and holds
  exactly the registers of that version, every strip is unmasked and has trim 15 and every
  calibration bit is set; for a higher version it stops with \<open>std::out_of_range\<close>, because the
  version tests of the constructor compare with 1 and those of the register description with
  more than 0.\<close>

theorem new_AbcCfg_spec:
  "case new_AbcCfg v of
     Inr c \<Rightarrow> v \<le> 1 \<and> abc_ok c \<and> abc_addrs c = Collect (abc_has_reg (abc_norm v)) \<and>
       (\<forall>ch. getTrimDACRaw c ch = Inr (if ch < 256 then 15 else 0)) \<and>
       (\<forall>ch. isMasked c ch = Inr False) \<and>
       (\<forall>k. abc_getRegisterValue c (CalReg (k mod 8)) = Inr 0xffffffff)
   | Inl e \<Rightarrow> 1 < v \<and> e = Out_Of_Range"
proof (cases "v \<le> 1")
  case False
  then show ?thesis by (simp add: new_AbcCfg_bad_version)
next
  case True
  obtain c where c: "new_AbcCfg v = Inr c" "abc_wf c" "abc_addrs c = Collect (abc_has_reg (abc_norm v))"
    "abcSubRegisterMap_all (abc_info c) = abc_fields v"
    "\<And>a. a \<in> abc_addrs c \<Longrightarrow> abc_getRegisterValue c a = Inr (abc_default a)"
    by (rule new_AbcCfg_ok [OF True]) (rule that)
  have ok: "abc_ok c" using new_AbcCfg_abc_ok [OF True] c(1) by auto
  note addr = abc_ok_addrs [OF ok]
  have "getTrimDACRaw c ch = Inr (if ch < 256 then 15 else 0)" for ch
  proof (cases "ch < 256")
    case lt: True
    then have "abc_getRegisterValue c (TrimLo (ch div 8)) = Inr 0xffffffff"
      "abc_getRegisterValue c (TrimHi (ch div 32)) = Inr 0"
      using c(5) [OF addr(2), of "ch div 8"] c(5) [OF addr(3), of "ch div 32"]
      by (auto simp: abc_default_def TrimLo_def TrimHi_def)
    from getTrim_values [OF lt this] show ?thesis using lt trim_of_ones [of ch] by simp
  qed (simp add: getTrimDACRaw_def StripsPerABC_def)
  moreover have "isMasked c ch = Inr False" for ch
  proof -
    obtain k where k: "k < 8" "mask_reg ch = MaskInput k" using mask_reg_lt(1) [of ch] by auto
    with c(5) [OF addr(1) [OF k(1)]] show ?thesis
      by (simp add: isMasked_value abc_default_def MaskInput_def)
  qed
  moreover have "abc_getRegisterValue c (CalReg (k mod 8)) = Inr 0xffffffff" for k
    using c(5) [OF addr(4), of "k mod 8"] by (simp add: abc_default_def CalReg_def)
  ultimately show ?thesis using True c ok by simp
qed

text \<open>C29: Writing a field of an ABC register. It succeeds exactly when the version has the field
  and the value fits its width; then the field reads back as written, every other field, also
  those in the same register, keeps its value, and the configuration stays well formed. A
  refused write is \<open>std::out_of_range\<close> for an unknown field and \<open>std::runtime_error\<close> for a
  value that is too wide.\<close>

theorem abc_field_write:
  assumes "abc_ok c"
  shows "case abc_setSubRegisterValue c r x of
      Inr t \<Rightarrow> abc_ok t \<and> abc_getSubRegisterValue t r = Inr x \<and>
        (\<forall>q. q \<noteq> r \<longrightarrow> abc_getSubRegisterValue t q = abc_getSubRegisterValue c q)
    | Inl e \<Rightarrow> (case abcSubRegisterMap_all (abc_info c) r of
          None \<Rightarrow> e = Out_Of_Range
        | Some i \<Rightarrow> e = Runtime_Error \<and> take_bit (m_width i) x \<noteq> x)"
  using abc_field.write_law [OF assms, where e = Out_Of_Range and r = r and x = x]
  unfolding abc_setSub_store abc_getSub_store .

theorem abc_field_write_witness:
  "\<exists>c t. new_AbcCfg 1 = Inr c \<and> abc_setSubRegisterValue c ''LATENCY'' 0x1ff = Inr t \<and>
     abc_getSubRegisterValue t ''LATENCY'' = Inr 0x1ff \<and>
     abc_getSubRegisterValue t ''CURRDRIV'' = abc_getSubRegisterValue c ''CURRDRIV''"
proof -
  obtain c where c: "new_AbcCfg 1 = Inr c" "abc_ok c" "abcSubRegisterMap_all (abc_info c) = abc_fields 1"
    using new_AbcCfg_abc_ok [of 1] by auto
  have f: "abc_fields 1 ''LATENCY'' = Some \<lparr>m_regAddress = 32, m_bOffset = 23, m_width = 9, m_subRegName = ''LATENCY''\<rparr>"
    by (simp add: abc_fields_def abc_subregdefs_def s_abcsubregdefs_v1_def sub_of_def)
  show ?thesis
    using abc_field_write [OF c(2), where r = "''LATENCY''" and x = "0x1ff"] c f
    by (auto split: sum.splits)
qed

text \<open>C19: Trim values: writing a trim of 0 to 31 to one of the 256 strips makes it read back,
  leaves the trims of all other strips, which share its two registers, and all strip masks as they
  were, and keeps the configuration well formed; an out-of-range strip or value changes nothing.\<close>

theorem trim_write:
  assumes "abc_ok c"
  shows "case setTrimDACRaw c ch v of
      Inr t \<Rightarrow> abc_ok t \<and>
        (\<forall>ch'. getTrimDACRaw t ch' =
          (if ch' = ch \<and> ch < 256 \<and> 0 \<le> v \<and> v \<le> 31 then Inr (word_of_int v) else getTrimDACRaw c ch')) \<and>
        (\<forall>ch'. isMasked t ch' = isMasked c ch')
    | Inl e \<Rightarrow> False"
proof (cases "ch < 256 \<and> 0 \<le> v \<and> v \<le> 31")
  case False
  then have "setTrimDACRaw c ch v = Inr c" by (auto simp: setTrimDACRaw_def StripsPerABC_def)
  with False assms show ?thesis by auto
next
  case True
  have k: "ch div 8 < 32" "ch div 32 < 8" using True by auto
  from abc_field.get_in [OF assms abc_ok_addrs(2) [OF assms k(1)]]
    abc_field.get_in [OF assms abc_ok_addrs(3) [OF assms k(2)]]
  obtain lo hi where lh: "abc_getRegisterValue c (TrimLo (ch div 8)) = Inr lo"
    "abc_getRegisterValue c (TrimHi (ch div 32)) = Inr hi" by blast
  from True have r: "ch < 256" "0 \<le> v" "v \<le> 31" by auto
  obtain t where t: "setTrimDACRaw c ch v = Inr t" "abc_ok t"
    "abc_getRegisterValue t (TrimLo (ch div 8)) = Inr (field_put ((ch * 4) mod 32) 4 (word_of_int v) lo)"
    "abc_getRegisterValue t (TrimHi (ch div 32)) = Inr (field_put (ch mod 32) 1 (drop_bit 4 (word_of_int v)) hi)"
    by (rule setTrim_values [OF assms r lh]) (rule that)
  have "getTrimDACRaw t ch = Inr (word_of_int v)"
    using getTrim_values [OF r(1) t(3,4)] trim_of_put [OF r(2,3)] by simp
  moreover have "getTrimDACRaw t ch' = getTrimDACRaw c ch'" if "ch' \<noteq> ch" for ch'
    by (rule getTrim_other [OF assms r that t(1)])
  ultimately show ?thesis
    using True t(1,2) set_trim_masks [OF assms t(1)] by auto
qed

theorem trim_write_witness:
  "\<exists>c t. new_AbcCfg 0 = Inr c \<and> setTrimDACRaw c 130 21 = Inr t \<and>
     getTrimDACRaw t 130 = Inr 21 \<and> getTrimDACRaw t 131 = getTrimDACRaw c 131"
proof -
  obtain c where "new_AbcCfg 0 = Inr c" "abc_ok c"
    using new_AbcCfg_abc_ok [of 0] by auto
  with trim_write [of c 130 21] show ?thesis by (auto split: sum.splits)
qed

text \<open>Strip masks: setting or clearing the mask of one strip makes exactly that strip read
  back as masked or not (channels count modulo 256), leaves every other strip and all trims as they
  were, and keeps the configuration well formed.\<close>

theorem mask_write:
  assumes "abc_ok c"
  shows "case setMask c ch b of
      Inr t \<Rightarrow> abc_ok t \<and>
        (\<forall>ch'. isMasked t ch' = (if ch' mod 256 = ch mod 256 then Inr b else isMasked c ch')) \<and>
        (\<forall>ch'. getTrimDACRaw t ch' = getTrimDACRaw c ch')
    | Inl e \<Rightarrow> False"
proof -
  obtain v t where t: "setMask c ch b = Inr t" "abc_ok t"
    by (rule setMask_values [OF assms]) (rule that)
  then show ?thesis
    using set_mask_masked [OF assms t(1)] set_mask_trims [OF assms t(1)] by simp
qed

theorem mask_write_witness:
  "\<exists>c t. new_AbcCfg 1 = Inr c \<and> setMask c 200 True = Inr t \<and>
     isMasked t 200 = Inr True \<and> isMasked t 72 = isMasked c 72"
proof -
  obtain c where "new_AbcCfg 1 = Inr c" "abc_ok c"
    using new_AbcCfg_abc_ok [of 1] by auto
  with mask_write [of c 200 True] show ?thesis by (auto split: sum.splits)
qed

text \<open>The order of the trims in the chip is a permutation of the strips: no two strips share a
  place in the trim registers.\<close>

theorem trim_order_injective: "trimRegOrderFromChannel a = trimRegOrderFromChannel b \<longleftrightarrow> a = b"
proof
  assume eq: "trimRegOrderFromChannel a = trimRegOrderFromChannel b"
  have c7e: "bit (0x7e :: int) n \<longleftrightarrow> 1 \<le> n \<and> n < 7" for n
  proof -
    have "(0x7e :: int) = push_bit 1 (mask 6)" by (simp add: mask_eq_exp_minus_1)
    then show ?thesis by (simp only: bit_push_bit_iff bit_mask_iff) auto
  qed
  have b: "bit (trimRegOrderFromChannel x) n \<longleftrightarrow>
      n = 0 \<and> bit x 0 \<or> n = 1 \<and> bit x 7 \<or> 2 \<le> n \<and> n < 8 \<and> bit x (n - 1)" for x n
    unfolding trimRegOrderFromChannel_def and_literals bit_or_iff bit_push_bit_iff bit_drop_bit_eq
      bit_and_iff bit_take_bit_iff comp_def
    by (auto simp: bits_simps c7e)
  show "a = b"
  proof (rule bit_word_eqI)
    fix n assume n: "n < LENGTH(8)"
    consider "n = 0" | "n = 7" | "1 \<le> n \<and> n < 7" using n by force
    then show "bit a n = bit b n"
    proof cases
      case 1
      then show ?thesis using arg_cong [OF eq, of "\<lambda>w. bit w 0"] by (simp add: b)
    next
      case 2
      then show ?thesis using arg_cong [OF eq, of "\<lambda>w. bit w 1"] by (simp add: b)
    next
      case 3
      then show ?thesis using arg_cong [OF eq, of "\<lambda>w. bit w (n + 1)"] by (simp add: b)
    qed
  qed
qed simp

end
