(* ===== verification/Star_HccCfg.thy ===== *)
theory Star_HccCfg
  imports Reg_Vector
begin

text \<open>
  Configuration of the HCC chip (src/src/libStar/include/HccCfg.h, src/src/libStar/HccCfg.cpp,
  the lists of src/src/libStar/include/StarRegDefs.h and the names of
  src/src/libStar/HccNames.cpp): the register map of versions 0 and 1, the register values in a
  vector with pointers by address (modelled as indices: the code reserves the vector first and
  aborts if its size is not the reserved one, so that no pointer dangles), fields, and the map
  from input channels to histogram slots. As for the ABC, a register is its address and a field
  its name.
\<close>

section \<open>Register lists\<close>

type_synonym HCCStarSubRegister = string

text \<open>\<open>HCC_STAR_REGS\<close>: \<open>SEU1\<close> to \<open>Status\<close>; \<open>HPR\<close>, \<open>Pulse\<close>, \<open>Addressing\<close>; \<open>Delay1\<close> (32) to \<open>Delay3\<close>,
  \<open>PLL1\<close> (35) to \<open>PLL3\<close>, \<open>DRV1\<close>, \<open>DRV2\<close>, \<open>ICenable\<close> (40), \<open>OPmode\<close>, \<open>OPmodeC\<close>, \<open>Cfg1\<close>, \<open>Cfg2\<close>, \<open>ExtRst\<close>,
  \<open>ExtRstC\<close>, \<open>ErrCfg\<close>, \<open>ADCcfg\<close> (48); \<open>ABC_FLOW_1\<close> to \<open>3\<close> and \<open>READOUT_QUEUE\<close>.\<close>

definition hcc_listRegs :: "nat list" where
  "hcc_listRegs = [0..<7] @ [15, 16, 17] @ [32..<49] @ [7..<11]"

definition hcc_listSubRegs :: "HCCStarSubRegister list" where
  "hcc_listSubRegs =
    [''STOPHPR'', ''TESTHPR'', ''CFD_BC_FINEDELAY'', ''CFD_BC_COARSEDELAY'',
     ''CFD_PRLP_FINEDELAY'', ''CFD_PRLP_COARSEDELAY'', ''HFD_LCBA_FINEDELAY'',
     ''FD_RCLK_FINEDELAY'', ''LCBA_DELAY160'', ''FD_DATAIN0_FINEDELAY'',
     ''FD_DATAIN1_FINEDELAY'', ''FD_DATAIN2_FINEDELAY'', ''FD_DATAIN3_FINEDELAY'',
     ''FD_DATAIN4_FINEDELAY'', ''FD_DATAIN5_FINEDELAY'', ''FD_DATAIN6_FINEDELAY'',
     ''FD_DATAIN7_FINEDELAY'', ''FD_DATAIN8_FINEDELAY'', ''FD_DATAIN9_FINEDELAY'',
     ''FD_DATAIN10_FINEDELAY'', ''EPLLICP'', ''EPLLCAP'', ''EPLLRES'', ''EPLLREFFREQ'',
     ''EPLLENABLEPHASE'', ''EPLLPHASE320A'', ''EPLLPHASE320B'', ''EPLLPHASE320C'',
     ''EPLLPHASE160A'', ''EPLLPHASE160B'', ''EPLLPHASE160C'', ''STVCLKOUTCUR'', ''STVCLKOUTEN'',
     ''LCBOUTCUR'', ''LCBOUTEN'', ''R3L1OUTCUR'', ''R3L1OUTEN'', ''BCHYBCUR'', ''BCHYBEN'',
     ''LCBAHYBCUR'', ''LCBAHYBEN'', ''PRLPHYBCUR'', ''PRLPHYBEN'', ''RCLKHYBCUR'',
     ''RCLKHYBEN'', ''DATA1CUR'', ''DATA1ENPRE'', ''DATA1ENABLE'', ''DATA1TERM'',
     ''DATACLKCUR'', ''DATACLKENPRE'', ''DATACLKENABLE'', ''ICENABLE'', ''ICTRANSSEL'',
     ''TRIGMODE'', ''ROSPEED'', ''OPMODE'', ''MAXNPACKETS'', ''ENCODECNTL'', ''ENCODE8B10B'',
     ''PRBSMODE'', ''TRIGMODEC'', ''ROSPEEDC'', ''OPMODEC'', ''MAXNPACKETSC'', ''ENCODECNTLC'',
     ''ENCODE8B10BC'', ''PRBSMODEC'', ''BGSETTING'', ''MASKHPR'', ''GPO0'', ''GPO1'',
     ''EFUSEPROGBIT'', ''BCIDRSTDELAY'', ''BCMMSQUELCH'', ''ABCRESETB'', ''AMACSSSH'',
     ''ABCRESETBC'', ''AMACSSSHC'', ''LCBERRCOUNTTHR'', ''R3L1ERRCOUNTTHR'', ''AMENABLE'',
     ''AMCALIB'', ''AMSW0'', ''AMSW1'', ''AMSW2'', ''AMSW60'', ''AMSW80'', ''AMSW100'',
     ''ANASET'', ''THERMOFFSET'', ''EPLLPHASE160'', ''CLK_DIS_EN'', ''CLK_DIS_ENC'',
     ''BG_RANGE_LOW'', ''BGVDD_CNT_EN'', ''CLK_DIS_PHASE'', ''CLK_DIS_SEL'', ''AM_INT_SLOPE'',
     ''AM_RANGE'']"

definition MaxABCsPerHCC :: nat where "MaxABCsPerHCC = 11"

definition HCC_INPUT_CHANNEL_BAD_SLOT :: u8 where "HCC_INPUT_CHANNEL_BAD_SLOT = 15"

definition hcc_subRegStringIsValid :: "string \<Rightarrow> bool" where
  "hcc_subRegStringIsValid n \<longleftrightarrow> n \<in> set hcc_listSubRegs"

definition hcc_subRegFromString :: "string \<Rightarrow> HCCStarSubRegister result" where
  "hcc_subRegFromString n = (if n \<in> set hcc_listSubRegs then Inr n else Inl Runtime_Error)"

definition hcc_subRegToString :: "HCCStarSubRegister \<Rightarrow> string" where
  "hcc_subRegToString r = r"

section \<open>Sub-register tables\<close>

definition s_hccsubregdefs_common :: "subregdef list" where
  "s_hccsubregdefs_common =
    [(''STOPHPR'', 16, 0, 1),
     (''TESTHPR'', 16, 1, 1),
     (''CFD_BC_FINEDELAY'', 32, 0, 4),
     (''CFD_BC_COARSEDELAY'', 32, 4, 2),
     (''CFD_PRLP_FINEDELAY'', 32, 8, 4),
     (''CFD_PRLP_COARSEDELAY'', 32, 12, 2),
     (''HFD_LCBA_FINEDELAY'', 32, 16, 4),
     (''FD_RCLK_FINEDELAY'', 32, 20, 4),
     (''LCBA_DELAY160'', 32, 24, 2),
     (''FD_DATAIN0_FINEDELAY'', 33, 0, 4),
     (''FD_DATAIN1_FINEDELAY'', 33, 4, 4),
     (''FD_DATAIN2_FINEDELAY'', 33, 8, 4),
     (''FD_DATAIN3_FINEDELAY'', 33, 12, 4),
     (''FD_DATAIN4_FINEDELAY'', 33, 16, 4),
     (''FD_DATAIN5_FINEDELAY'', 33, 20, 4),
     (''FD_DATAIN6_FINEDELAY'', 33, 24, 4),
     (''FD_DATAIN7_FINEDELAY'', 33, 28, 4),
     (''FD_DATAIN8_FINEDELAY'', 34, 0, 4),
     (''FD_DATAIN9_FINEDELAY'', 34, 4, 4),
     (''FD_DATAIN10_FINEDELAY'', 34, 8, 4),
     (''EPLLICP'', 35, 0, 4),
     (''EPLLCAP'', 35, 4, 2),
     (''EPLLRES'', 35, 8, 4),
     (''EPLLREFFREQ'', 35, 12, 2),
     (''EPLLENABLEPHASE'', 35, 16, 8),
     (''STVCLKOUTCUR'', 38, 0, 3),
     (''STVCLKOUTEN'', 38, 3, 1),
     (''LCBOUTCUR'', 38, 4, 3),
     (''LCBOUTEN'', 38, 7, 1),
     (''R3L1OUTCUR'', 38, 8, 3),
     (''R3L1OUTEN'', 38, 11, 1),
     (''BCHYBCUR'', 38, 12, 3),
     (''BCHYBEN'', 38, 15, 1),
     (''LCBAHYBCUR'', 38, 16, 3),
     (''LCBAHYBEN'', 38, 19, 1),
     (''PRLPHYBCUR'', 38, 20, 3),
     (''PRLPHYBEN'', 38, 23, 1),
     (''RCLKHYBCUR'', 38, 24, 3),
     (''RCLKHYBEN'', 38, 27, 1),
     (''DATA1CUR'', 39, 0, 3),
     (''DATA1ENPRE'', 39, 3, 1),
     (''DATA1ENABLE'', 39, 4, 1),
     (''DATA1TERM'', 39, 5, 1),
     (''DATACLKCUR'', 39, 16, 3),
     (''DATACLKENPRE'', 39, 19, 1),
     (''DATACLKENABLE'', 39, 20, 1),
     (''ICENABLE'', 40, 0, 11),
     (''ICTRANSSEL'', 40, 16, 4),
     (''TRIGMODE'', 41, 0, 1),
     (''ROSPEED'', 41, 4, 1),
     (''OPMODE'', 41, 8, 2),
     (''MAXNPACKETS'', 41, 12, 3),
     (''ENCODECNTL'', 41, 16, 1),
     (''ENCODE8B10B'', 41, 17, 1),
     (''PRBSMODE'', 41, 18, 1),
     (''TRIGMODEC'', 42, 0, 1),
     (''ROSPEEDC'', 42, 4, 1),
     (''OPMODEC'', 42, 8, 2),
     (''MAXNPACKETSC'', 42, 12, 3),
     (''ENCODECNTLC'', 42, 16, 1),
     (''ENCODE8B10BC'', 42, 17, 1),
     (''PRBSMODEC'', 42, 18, 1),
     (''BGSETTING'', 43, 0, 5),
     (''MASKHPR'', 43, 8, 1),
     (''GPO0'', 43, 12, 1),
     (''GPO1'', 43, 13, 1),
     (''EFUSEPROGBIT'', 43, 16, 5),
     (''BCIDRSTDELAY'', 44, 0, 9),
     (''BCMMSQUELCH'', 44, 16, 11),
     (''ABCRESETB'', 45, 0, 1),
     (''AMACSSSH'', 45, 4, 1),
     (''ABCRESETBC'', 46, 0, 1),
     (''AMACSSSHC'', 46, 4, 1),
     (''LCBERRCOUNTTHR'', 47, 0, 16),
     (''R3L1ERRCOUNTTHR'', 47, 16, 16),
     (''AMENABLE'', 48, 0, 1),
     (''AMCALIB'', 48, 4, 1),
     (''ANASET'', 48, 16, 3),
     (''THERMOFFSET'', 48, 20, 4)]"

definition s_hccsubregdefs_v0 :: "subregdef list" where
  "s_hccsubregdefs_v0 =
    [(''EPLLPHASE320A'', 36, 0, 4),
     (''EPLLPHASE320B'', 36, 4, 4),
     (''EPLLPHASE320C'', 36, 8, 4),
     (''EPLLPHASE160A'', 37, 0, 4),
     (''EPLLPHASE160B'', 37, 8, 4),
     (''EPLLPHASE160C'', 37, 16, 4),
     (''AMSW0'', 48, 8, 1),
     (''AMSW1'', 48, 9, 1),
     (''AMSW2'', 48, 10, 1),
     (''AMSW60'', 48, 12, 1),
     (''AMSW80'', 48, 13, 1),
     (''AMSW100'', 48, 14, 1)]"

definition s_hccsubregdefs_v1 :: "subregdef list" where
  "s_hccsubregdefs_v1 =
    [(''EPLLPHASE160'', 35, 29, 3),
     (''CLK_DIS_EN'', 41, 20, 1),
     (''CLK_DIS_ENC'', 42, 20, 1),
     (''BG_RANGE_LOW'', 43, 5, 1),
     (''BGVDD_CNT_EN'', 43, 7, 1),
     (''CLK_DIS_PHASE'', 43, 24, 2),
     (''CLK_DIS_SEL'', 43, 28, 2),
     (''AM_INT_SLOPE'', 48, 8, 4),
     (''AM_RANGE'', 48, 12, 1)]"

definition hccSubRegDefs :: "int \<Rightarrow> subregdef list" where
  "hccSubRegDefs version =
     s_hccsubregdefs_common @ (if version = 0 then s_hccsubregdefs_v0 else s_hccsubregdefs_v1)"

section \<open>Register information\<close>

record HccStarRegInfo =
  hccregisterMap :: "nat \<rightharpoonup> RegisterInfo"
  hccWriteMap :: "nat \<rightharpoonup> RegisterInfo"
  hccSubRegisterMap_all :: "HCCStarSubRegister \<rightharpoonup> SubRegisterInfo"

text \<open>Version 1 has no \<open>PLL2\<close> and \<open>PLL3\<close>.\<close>

definition hcc_skip_v1 :: "int \<Rightarrow> nat \<Rightarrow> bool" where
  "hcc_skip_v1 version reg \<longleftrightarrow> version = 1 \<and> (reg = 36 \<or> reg = 37)"

definition hcc_reg_map :: "int \<Rightarrow> nat \<rightharpoonup> RegisterInfo" where
  "hcc_reg_map version =
     fold (\<lambda>reg m. if hcc_skip_v1 version reg then m else m(reg \<mapsto> new_RegisterInfo reg))
       hcc_listRegs Map.empty"

definition hcc_write_regs :: "int \<Rightarrow> nat list" where
  "hcc_write_regs version = filter (\<lambda>reg. \<not> hcc_skip_v1 version reg) [32..<49]"

definition new_HccStarRegInfo :: "int \<Rightarrow> HccStarRegInfo result" where
  "new_HccStarRegInfo version =
     rbind (rfold (add_subreg Undefined) (hccSubRegDefs version) (hcc_reg_map version, Map.empty)) (\<lambda>(regMap, subs).
     Inr \<lparr>hccregisterMap = regMap,
          hccWriteMap = (\<lambda>a. if a \<in> set (hcc_write_regs version) then regMap a else None),
          hccSubRegisterMap_all = subs\<rparr>)"

definition hcc_instance :: "int \<Rightarrow> HccStarRegInfo result" where
  "hcc_instance version = new_HccStarRegInfo (if version > 0 then 1 else 0)"

definition hcc_subRegFromEnum :: "HccStarRegInfo \<Rightarrow> HCCStarSubRegister \<Rightarrow> SubRegisterInfo result" where
  "hcc_subRegFromEnum info subReg =
     (case hccSubRegisterMap_all info subReg of Some i \<Rightarrow> Inr i | None \<Rightarrow> Inl Runtime_Error)"

section \<open>The configuration\<close>

record HccCfg =
  m_hccID :: u32
  hcc_registerMap :: "nat \<rightharpoonup> nat"
  hcc_registerSet :: "Register list"
  hcc_info :: HccStarRegInfo

definition hcc_getRegister :: "HccCfg \<Rightarrow> nat \<Rightarrow> Register result" where
  "hcc_getRegister c addr =
     (case hcc_registerMap c addr of
        None \<Rightarrow> Inl Out_Of_Range
      | Some index \<Rightarrow> vec_read (hcc_registerSet c) index)"

definition hcc_update :: "HccCfg \<Rightarrow> nat \<Rightarrow> Register \<Rightarrow> HccCfg" where
  "hcc_update c addr r =
     (case hcc_registerMap c addr of
        None \<Rightarrow> c
      | Some index \<Rightarrow> c\<lparr>hcc_registerSet := (hcc_registerSet c)[index := r]\<rparr>)"

definition hcc_getRegisterValue :: "HccCfg \<Rightarrow> nat \<Rightarrow> u32 result" where
  "hcc_getRegisterValue c addr = rbind (hcc_getRegister c addr) (\<lambda>r. Inr (m_regValue r))"

definition hcc_setRegisterValue :: "HccCfg \<Rightarrow> nat \<Rightarrow> u32 \<Rightarrow> HccCfg result" where
  "hcc_setRegisterValue c addr v =
     rbind (hcc_getRegister c addr) (\<lambda>r. Inr (hcc_update c addr (r\<lparr>m_regValue := v\<rparr>)))"

definition hcc_setSubRegisterValue :: "HccCfg \<Rightarrow> HCCStarSubRegister \<Rightarrow> u32 \<Rightarrow> HccCfg result" where
  "hcc_setSubRegisterValue c subReg v =
     rbind (hcc_subRegFromEnum (hcc_info c) subReg) (\<lambda>info.
     rbind (hcc_getRegister c (m_regAddress info)) (\<lambda>reg.
     rbind (sub_updateValue info v (m_regValue reg)) (\<lambda>x.
     Inr (hcc_update c (m_regAddress info) (reg\<lparr>m_regValue := x\<rparr>)))))"

definition hcc_getSubRegisterValue :: "HccCfg \<Rightarrow> HCCStarSubRegister \<Rightarrow> u32 result" where
  "hcc_getSubRegisterValue c subReg =
     rbind (hcc_subRegFromEnum (hcc_info c) subReg) (\<lambda>info.
     rbind (hcc_getRegister c (m_regAddress info)) (\<lambda>reg. Inr (sub_getValue info (m_regValue reg))))"

definition hcc_getSubRegisterParentAddr :: "HccCfg \<Rightarrow> HCCStarSubRegister \<Rightarrow> nat result" where
  "hcc_getSubRegisterParentAddr c subReg =
     rbind (hcc_subRegFromEnum (hcc_info c) subReg) (\<lambda>info. Inr (m_regAddress info))"

definition hcc_getSubRegisterParentValue :: "HccCfg \<Rightarrow> HCCStarSubRegister \<Rightarrow> u32 result" where
  "hcc_getSubRegisterParentValue c subReg =
     rbind (hcc_subRegFromEnum (hcc_info c) subReg) (\<lambda>info.
     rbind (hcc_getRegister c (m_regAddress info)) (\<lambda>reg. Inr (m_regValue reg)))"

definition hcc_add_reg :: "int \<Rightarrow> nat \<Rightarrow> HccCfg \<Rightarrow> HccCfg result" where
  "hcc_add_reg version reg c =
     (if hcc_skip_v1 version reg then Inr c
      else case hccregisterMap (hcc_info c) reg of
             None \<Rightarrow> Inl Out_Of_Range
           | Some ri \<Rightarrow>
               let rs = hcc_registerSet c @ [\<lparr>m_info = ri, m_regValue = 0\<rparr>]
               in Inr (c\<lparr>hcc_registerSet := rs, hcc_registerMap := (hcc_registerMap c)(reg \<mapsto> length rs - 1)\<rparr>))"

definition hcc_setupMaps :: "int \<Rightarrow> HccCfg \<Rightarrow> HccCfg result" where
  "hcc_setupMaps version c =
     (let len = (if version = 1 then length hcc_listRegs - 2 else length hcc_listRegs)
      in rbind (rfold (hcc_add_reg version) hcc_listRegs (c\<lparr>hcc_registerSet := []\<rparr>)) (\<lambda>c.
         if length (hcc_registerSet c) \<noteq> len then Inl Aborted else Inr c))"

text \<open>The registers and values that \<open>setDefaults\<close> writes. The code goes through
  \<open>m_registerMap[addr]\<close>, whose result for a missing register is a null pointer.\<close>

definition hcc_default_values :: "int \<Rightarrow> (nat \<times> u32) list" where
  "hcc_default_values version =
     [(16, 0), (32, 0), (33, 0), (34, 0), (35, 0x00ff3b05)] @
     (if version = 0 then [(36, 0), (37, 4)] else []) @
     [(38, 0), (39, 0x14), (40, 0), (41, 0x00020001), (42, 0x00020001), (43, 0), (44, 0x18e),
      (45, 0x00710003), (46, 0x00710003), (47, 0), (48, 0x00406600)]"

definition hcc_poke :: "nat \<times> u32 \<Rightarrow> HccCfg \<Rightarrow> HccCfg result" where
  "hcc_poke av c =
     (case hcc_registerMap c (fst av) of
        None \<Rightarrow> Inl Undefined
      | Some index \<Rightarrow> hcc_setRegisterValue c (fst av) (snd av))"

definition hcc_setDefaults :: "int \<Rightarrow> HccCfg \<Rightarrow> HccCfg result" where
  "hcc_setDefaults version c = rfold hcc_poke (hcc_default_values version) c"

definition new_HccCfg :: "int \<Rightarrow> HccCfg result" where
  "new_HccCfg version =
     rbind (hcc_instance version) (\<lambda>info.
     rbind (hcc_setupMaps version
       \<lparr>m_hccID = 0, hcc_registerMap = Map.empty, hcc_registerSet = [], hcc_info = info\<rparr>)
       (hcc_setDefaults version))"

section \<open>Histogram slots\<close>

text \<open>One turn of the loop over the input channels, and the loop; the array and the next slot
  are the state.\<close>

definition chip_map_step :: "bool \<Rightarrow> u32 \<Rightarrow> nat \<Rightarrow> u8 list \<times> nat \<Rightarrow> u8 list \<times> nat" where
  "chip_map_step version_1 input_enables index s =
     (let ic = (if version_1 then index else 10 - index);
          msk = (push_bit ic 1 :: u32)
      in if msk AND input_enables \<noteq> 0 then ((fst s)[ic := of_nat (snd s)], snd s + 1) else s)"

definition histoChipMap :: "HccCfg \<Rightarrow> u8 list result" where
  "histoChipMap c =
     rbind (hcc_getSubRegisterValue c ''ICENABLE'') (\<lambda>input_enables.
     let version_1 = (length (hcc_registerSet c) \<noteq> length hcc_listRegs)
     in Inr (fst (fold (chip_map_step version_1 input_enables) [0..<MaxABCsPerHCC]
                       (replicate MaxABCsPerHCC HCC_INPUT_CHANNEL_BAD_SLOT, 0))))"

section \<open>The configuration as a register store\<close>

interpretation hcc_vec: reg_vector hcc_registerMap hcc_registerSet hcc_info
  "\<lambda>m rs c. c\<lparr>hcc_registerMap := m, hcc_registerSet := rs\<rparr>"
  by unfold_locales simp_all

abbreviation hcc_wf :: "HccCfg \<Rightarrow> bool" where
  "hcc_wf \<equiv> hcc_vec.vwf"

abbreviation hcc_addrs :: "HccCfg \<Rightarrow> nat set" where
  "hcc_addrs c \<equiv> dom (hcc_registerMap c)"

lemma hcc_get_vec: "hcc_getRegisterValue = hcc_vec.vget"
  by (simp add: fun_eq_iff hcc_getRegisterValue_def hcc_getRegister_def hcc_vec.vget_def split: option.split)

lemma hcc_set_vec: "hcc_setRegisterValue = hcc_vec.vput"
  by (auto simp: fun_eq_iff hcc_setRegisterValue_def hcc_getRegister_def hcc_update_def
      hcc_vec.vput_def split: option.split)

interpretation hcc: reg_store hcc_getRegisterValue hcc_setRegisterValue hcc_wf hcc_addrs
  unfolding hcc_get_vec hcc_set_vec by (rule hcc_vec.vstore)

lemma hcc_set_info: "hcc_setRegisterValue c a v = Inr t \<Longrightarrow> hcc_info t = hcc_info c"
  unfolding hcc_set_vec by (rule hcc_vec.vput_info)

lemma hcc_set_length: "hcc_setRegisterValue c a v = Inr t \<Longrightarrow> length (hcc_registerSet t) = length (hcc_registerSet c)"
  unfolding hcc_set_vec by (auto simp: hcc_vec.vput_def rbind_eq_Inr_iff split: option.splits)

section \<open>Construction\<close>

definition hcc_has_reg :: "int \<Rightarrow> nat \<Rightarrow> bool" where
  "hcc_has_reg v a \<longleftrightarrow> (a < 11 \<or> 15 \<le> a \<and> a < 18 \<or> 32 \<le> a \<and> a < 49) \<and> \<not> hcc_skip_v1 v a"

lemma hcc_has_reg: "{r \<in> set hcc_listRegs. \<not> hcc_skip_v1 v r} = Collect (hcc_has_reg v)"
  unfolding hcc_listRegs_def hcc_has_reg_def set_append set_upt by auto

lemma hcc_table_v0_disjoint: "pairwise_list (\<lambda>d e. \<not> def_overlap d e) (hccSubRegDefs 0)"
  by code_simp

lemma hcc_table_v1_disjoint: "pairwise_list (\<lambda>d e. \<not> def_overlap d e) (hccSubRegDefs 1)"
  by code_simp

lemma hcc_table_v0_names: "distinct (map fst (hccSubRegDefs 0))" "list_all def_fits (hccSubRegDefs 0)"
  "list_all (\<lambda>d. hcc_has_reg 0 (fst (snd d))) (hccSubRegDefs 0)"
  by code_simp+

lemma hcc_table_v1_names: "distinct (map fst (hccSubRegDefs 1))" "list_all def_fits (hccSubRegDefs 1)"
  "list_all (\<lambda>d. hcc_has_reg 1 (fst (snd d))) (hccSubRegDefs 1)"
  by code_simp+

abbreviation hcc_norm :: "int \<Rightarrow> int" where
  "hcc_norm v \<equiv> if v > 0 then 1 else 0"

lemma hcc_tables_ok: "table_ok (hccSubRegDefs (hcc_norm v))"
  by (simp add: table_ok_def hcc_table_v0_disjoint hcc_table_v1_disjoint hcc_table_v0_names
      hcc_table_v1_names)

lemma hcc_reg_map_spec:
  "dom (hcc_reg_map v) = Collect (hcc_has_reg v)" "regs_named (hcc_reg_map v)"
  unfolding hcc_reg_map_def hcc_has_reg [symmetric] by (rule reg_map_spec)+

lemma hcc_table_addresses:
  "\<forall>(n, a, off, w) \<in> set (hccSubRegDefs (hcc_norm v)). a \<in> dom (hcc_reg_map (hcc_norm v))"
  using hcc_table_v0_names(3) hcc_table_v1_names(3)
  by (auto simp: hcc_reg_map_spec list_all_iff)

definition hcc_fields :: "int \<Rightarrow> string \<rightharpoonup> SubRegisterInfo" where
  "hcc_fields v = map_of (rev (map (\<lambda>d. (fst d, sub_of d)) (hccSubRegDefs (hcc_norm v))))"

lemma hcc_instance_spec:
  obtains info where "hcc_instance v = Inr info"
    "dom (hccregisterMap info) = Collect (hcc_has_reg (hcc_norm v))"
    "hccSubRegisterMap_all info = hcc_fields v"
proof -
  let ?v = "hcc_norm v"
  obtain m' s' where ms: "rfold (add_subreg Undefined) (hccSubRegDefs ?v) (hcc_reg_map ?v, Map.empty) = Inr (m', s')"
    "dom m' = dom (hcc_reg_map ?v)" "s' = Map.empty ++ map_of (rev (map (\<lambda>d. (fst d, sub_of d)) (hccSubRegDefs ?v)))"
    by (rule add_subregs [OF hcc_reg_map_spec(2) hcc_table_addresses]) (rule that)
  show thesis
  proof (rule that)
    show "hcc_instance v = Inr \<lparr>hccregisterMap = m',
      hccWriteMap = (\<lambda>a. if a \<in> set (hcc_write_regs ?v) then m' a else None), hccSubRegisterMap_all = s'\<rparr>"
      unfolding hcc_instance_def new_HccStarRegInfo_def ms(1) by (simp only: rbind_Inr prod.case)
  qed (simp_all only: ms(2,3) HccStarRegInfo.simps hcc_reg_map_spec hcc_fields_def empty_map_add)
qed

lemma hcc_add_vec: "hcc_add_reg v = hcc_vec.vadd (hcc_skip_v1 v) hccregisterMap"
  by (auto simp: fun_eq_iff hcc_add_reg_def hcc_vec.vadd_def Let_def split: option.split)

definition hcc_default :: "int \<Rightarrow> nat \<Rightarrow> u32" where
  "hcc_default v a =
     (case map_of (hcc_default_values v) a of Some x \<Rightarrow> x | None \<Rightarrow> 0)"

lemma hcc_default_distinct: "distinct (map fst (hcc_default_values v))"
  by (cases "v = 0") (simp_all add: hcc_default_values_def)

lemma hcc_default_regs: "(a, x) \<in> set (hcc_default_values v) \<Longrightarrow> v \<le> 1 \<Longrightarrow> hcc_has_reg (hcc_norm v) a"
  by (auto simp: hcc_default_values_def hcc_has_reg_def hcc_skip_v1_def split: if_splits)

lemma hcc_listRegs_facts:
  "distinct hcc_listRegs" "length hcc_listRegs = 31"
  "length (filter (\<lambda>r. \<not> hcc_skip_v1 v r) hcc_listRegs) = (if v = 1 then 29 else 31)"
proof -
  show "distinct hcc_listRegs" unfolding hcc_listRegs_def distinct_append set_append set_upt by auto
  show "length hcc_listRegs = 31" by (simp add: hcc_listRegs_def)
  show "length (filter (\<lambda>r. \<not> hcc_skip_v1 v r) hcc_listRegs) = (if v = 1 then 29 else 31)"
    by (simp add: hcc_listRegs_def hcc_skip_v1_def upt_rec)
qed

lemma new_HccCfg_ok:
  assumes "v \<le> 1"
  obtains c where "new_HccCfg v = Inr c" "hcc_wf c" "hcc_addrs c = Collect (hcc_has_reg (hcc_norm v))"
    "hccSubRegisterMap_all (hcc_info c) = hcc_fields v"
    "length (hcc_registerSet c) = (if v = 1 then 29 else 31)"
    "\<And>a. a \<in> hcc_addrs c \<Longrightarrow> hcc_getRegisterValue c a = Inr (hcc_default v a)"
proof -
  obtain info where info: "hcc_instance v = Inr info"
    "dom (hccregisterMap info) = Collect (hcc_has_reg (hcc_norm v))"
    "hccSubRegisterMap_all info = hcc_fields v"
    by (rule hcc_instance_spec)
  let ?c0 = "\<lparr>m_hccID = 0, hcc_registerMap = Map.empty, hcc_registerSet = [], hcc_info = info\<rparr>"
  have c0: "hcc_wf ?c0" "hcc_vec.vzero ?c0" "set hcc_listRegs \<inter> hcc_addrs ?c0 = {}"
    by (simp_all add: hcc_vec.vwf_def hcc_vec.vzero_def)
  have skip: "hcc_skip_v1 v r = hcc_skip_v1 (hcc_norm v) r" for r
    using assms by (auto simp: hcc_skip_v1_def)
  have in0: "\<forall>r \<in> set hcc_listRegs. hcc_skip_v1 v r \<or> r \<in> dom (hccregisterMap (hcc_info ?c0))"
    using hcc_has_reg [of "hcc_norm v"] unfolding skip by (auto simp: info(2))
  obtain c1 where c1': "rfold (hcc_add_reg v) hcc_listRegs ?c0 = Inr c1" "hcc_wf c1" "hcc_vec.vzero c1"
    "hcc_info c1 = hcc_info ?c0" "hcc_addrs c1 = hcc_addrs ?c0 \<union> {r \<in> set hcc_listRegs. \<not> hcc_skip_v1 v r}"
    "length (hcc_registerSet c1) = length (hcc_registerSet ?c0) + length (filter (\<lambda>r. \<not> hcc_skip_v1 v r) hcc_listRegs)"
    by (rule hcc_vec.vadd_list [where skip = "hcc_skip_v1 v" and descr = hccregisterMap,
          OF c0(1,2) hcc_listRegs_facts(1) c0(3) in0, folded hcc_add_vec]) (rule that)
  have c1: "hcc_info c1 = info" "hcc_addrs c1 = Collect (hcc_has_reg (hcc_norm v))"
    "length (hcc_registerSet c1) = (if v = 1 then 29 else 31)"
    using c1' assms by (auto simp: skip hcc_has_reg hcc_listRegs_facts(3) split: if_splits)
  have maps: "hcc_setupMaps v ?c0 = Inr c1"
    using c1'(1) c1(3) by (simp add: hcc_setupMaps_def hcc_listRegs_facts(2))
  have zero: "hcc_getRegisterValue c1 a = Inr 0" if "a \<in> hcc_addrs c1" for a
    unfolding hcc_get_vec by (rule hcc_vec.vzero_get [OF c1'(2,3) that])
  have "\<forall>(a, x) \<in> set (hcc_default_values v). a \<in> hcc_addrs c1"
    using hcc_default_regs [OF _ assms] unfolding c1(2) by blast
  from hcc.put_list [OF c1'(2) this] obtain t where
    t: "rfold (\<lambda>(a, v) c. hcc_setRegisterValue c a v) (hcc_default_values v) c1 = Inr t" "hcc_wf t"
      "hcc_addrs t = hcc_addrs c1"
      "\<And>a. hcc_getRegisterValue t a = (case map_of (rev (hcc_default_values v)) a of
         Some v \<Rightarrow> Inr v | None \<Rightarrow> hcc_getRegisterValue c1 a)"
    by blast
  have poke: "hcc_poke av c = hcc_setRegisterValue c (fst av) (snd av)" if "fst av \<in> hcc_addrs c" for av c
    using that by (auto simp: hcc_poke_def split: option.split)
  have poke_fold: "rfold hcc_poke avs c = rfold (\<lambda>(a, v) c. hcc_setRegisterValue c a v) avs c"
    if "hcc_wf c" "\<forall>(a, x) \<in> set avs. a \<in> hcc_addrs c" for avs c
    using that
  proof (induction avs arbitrary: c)
    case (Cons av avs)
    obtain a x where av: "av = (a, x)" by (cases av)
    with Cons.prems have a: "a \<in> hcc_addrs c" by auto
    from hcc.put_in [OF Cons.prems(1) a, of x] obtain d where
      d: "hcc_setRegisterValue c a x = Inr d" "hcc_wf d" "hcc_addrs d = hcc_addrs c" by blast
    with Cons.IH [of d] Cons.prems(2) poke [of av c] a show ?case by (simp add: av)
  qed simp
  have defaults: "hcc_setDefaults v c1 = Inr t"
    using t(1) poke_fold [OF c1'(2) \<open>\<forall>(a, x) \<in> set (hcc_default_values v). a \<in> hcc_addrs c1\<close>]
    by (simp add: hcc_setDefaults_def)
  have inv: "hcc_info t = info \<and> length (hcc_registerSet t) = (if v = 1 then 29 else 31)"
    using c1(1,3)
    by (intro rfold_invariant [OF t(1), of "\<lambda>c. hcc_info c = info \<and> length (hcc_registerSet c) = (if v = 1 then 29 else 31)"])
      (auto simp: hcc_set_info hcc_set_length)
  have "map_of (rev (hcc_default_values v)) = map_of (hcc_default_values v)"
    using hcc_default_distinct [of v] by (subst map_of_inject_set) (simp_all add: rev_map [symmetric])
  then have "hcc_getRegisterValue t a = Inr (hcc_default v a)" if "a \<in> hcc_addrs t" for a
    using t(4) [of a] zero [of a] that t(3) by (simp add: hcc_default_def split: option.splits)
  then show thesis
    using t(2,3) c1(2) info inv maps defaults
    by (intro that [of t]) (simp_all add: new_HccCfg_def)
qed

lemma new_HccCfg_bad_version:
  assumes "1 < v"
  shows "new_HccCfg v = Inl Out_Of_Range"
proof -
  obtain info where info: "hcc_instance v = Inr info"
    "dom (hccregisterMap info) = Collect (hcc_has_reg (hcc_norm v))"
    by (rule hcc_instance_spec)
  have "rfold (hcc_add_reg v) hcc_listRegs
      \<lparr>m_hccID = 0, hcc_registerMap = Map.empty, hcc_registerSet = [], hcc_info = info\<rparr> = Inl Out_Of_Range"
    unfolding hcc_add_vec
  proof (rule hcc_vec.vadd_fails)
    have "36 \<in> set hcc_listRegs" unfolding hcc_listRegs_def set_append set_upt by simp
    moreover have "\<not> hcc_skip_v1 v 36" "36 \<notin> dom (hccregisterMap info)"
      using assms unfolding info(2) by (simp_all add: hcc_skip_v1_def hcc_has_reg_def)
    ultimately show "\<exists>r \<in> set hcc_listRegs. \<not> hcc_skip_v1 v r \<and> r \<notin> dom (hccregisterMap info)" by blast
  qed simp
  then show ?thesis using info by (simp add: new_HccCfg_def hcc_setupMaps_def)
qed

section \<open>Fields\<close>

definition hcc_ok :: "HccCfg \<Rightarrow> bool" where
  "hcc_ok c \<longleftrightarrow> hcc_wf c \<and>
     (\<exists>v \<in> {0, 1}. hcc_addrs c = Collect (hcc_has_reg v) \<and>
        hccSubRegisterMap_all (hcc_info c) = hcc_fields v \<and>
        length (hcc_registerSet c) = (if v = 1 then 29 else 31))"

lemma hcc_fields_spec:
  assumes "v \<in> {0, 1}" and "hcc_fields v r = Some i"
  shows "fits i" "hcc_has_reg v (m_regAddress i)"
    "hcc_fields v s = Some j \<Longrightarrow> r \<noteq> s \<Longrightarrow> \<not> field_overlap i j"
proof -
  let ?defs = "hccSubRegDefs v"
  have nv: "hcc_norm v = v" using assms(1) by auto
  have ok: "table_ok ?defs" using hcc_tables_ok [of v] unfolding nv .
  then have dist: "distinct (map fst ?defs)" by (simp add: table_ok_def)
  from assms(2) table_lookup [OF dist] obtain d where d: "d \<in> set ?defs" "fst d = r" "i = sub_of d"
    unfolding hcc_fields_def nv by blast
  show "fits i" using table_sound(1) [OF ok d(1) d(1)] d(3) by simp
  have "hcc_has_reg v (fst (snd d))"
    using hcc_table_v0_names(3) hcc_table_v1_names(3) d(1) assms(1) unfolding list_all_iff by blast
  then show "hcc_has_reg v (m_regAddress i)" by (cases d) (simp add: d(3) sub_of_def)
  show "\<not> field_overlap i j" if s: "hcc_fields v s = Some j" "r \<noteq> s"
  proof -
    from s(1) table_lookup [OF dist] obtain e where e: "e \<in> set ?defs" "fst e = s" "j = sub_of e"
      unfolding hcc_fields_def nv by blast
    show ?thesis using table_sound(2) [OF ok d(1) e(1)] d e s(2) by simp
  qed
qed

lemma hcc_set_ok:
  assumes "hcc_ok c" and "hcc_setRegisterValue c a v = Inr t"
  shows "hcc_ok t"
proof -
  have wf: "hcc_wf c" using assms(1) by (simp add: hcc_ok_def)
  show ?thesis
    using assms(1) hcc.put_Inr(2,3) [OF wf assms(2)] hcc_set_info [OF assms(2)] hcc_set_length [OF assms(2)]
    unfolding hcc_ok_def by simp
qed

interpretation hcc_field: field_store hcc_getRegisterValue hcc_setRegisterValue hcc_ok hcc_addrs
  "\<lambda>c. hccSubRegisterMap_all (hcc_info c)"
proof
  fix c a v
  assume ok: "hcc_ok c"
  then have wf: "hcc_wf c" by (simp add: hcc_ok_def)
  show "a \<in> hcc_addrs c \<Longrightarrow> \<exists>v. hcc_getRegisterValue c a = Inr v" by (rule hcc.get_in [OF wf])
  show "a \<notin> hcc_addrs c \<Longrightarrow> hcc_getRegisterValue c a = Inl Out_Of_Range" by (rule hcc.get_out [OF wf])
  show "a \<notin> hcc_addrs c \<Longrightarrow> hcc_setRegisterValue c a v = Inl Out_Of_Range" by (rule hcc.put_out [OF wf])
  show "a \<in> hcc_addrs c \<Longrightarrow> \<exists>t. hcc_setRegisterValue c a v = Inr t \<and> hcc_ok t \<and> hcc_addrs t = hcc_addrs c \<and>
      hcc_getRegisterValue t a = Inr v \<and> (\<forall>b. b \<noteq> a \<longrightarrow> hcc_getRegisterValue t b = hcc_getRegisterValue c b)"
    using hcc.put_in [OF wf] hcc_set_ok [OF ok] by blast
next
  fix c r i
  assume "hcc_ok c" and "hccSubRegisterMap_all (hcc_info c) r = Some i"
  then show "m_regAddress i \<in> hcc_addrs c \<and> fits i"
    using hcc_fields_spec unfolding hcc_ok_def by (metis mem_Collect_eq)
next
  fix c r i s j
  assume "hcc_ok c" "hccSubRegisterMap_all (hcc_info c) r = Some i"
    "hccSubRegisterMap_all (hcc_info c) s = Some j" "r \<noteq> s"
  then show "\<not> field_overlap i j"
    using hcc_fields_spec(3) unfolding hcc_ok_def by metis
next
  fix c a v t
  assume "hcc_setRegisterValue c a v = Inr t"
  then show "hccSubRegisterMap_all (hcc_info t) = hccSubRegisterMap_all (hcc_info c)"
    by (simp add: hcc_set_info)
qed

lemma hcc_setSub_store:
  "hcc_setSubRegisterValue c r x =
   (case hccSubRegisterMap_all (hcc_info c) r of None \<Rightarrow> Inl Runtime_Error
    | Some i \<Rightarrow> rbind (hcc_getRegisterValue c (m_regAddress i)) (\<lambda>v.
        rbind (sub_updateValue i x v) (hcc_setRegisterValue c (m_regAddress i))))"
  by (auto simp: hcc_setSubRegisterValue_def hcc_subRegFromEnum_def hcc_getRegisterValue_def
      hcc_setRegisterValue_def rbind_def split: option.splits sum.splits)

lemma hcc_getSub_store:
  "hcc_getSubRegisterValue c r =
   (case hccSubRegisterMap_all (hcc_info c) r of None \<Rightarrow> Inl Runtime_Error
    | Some i \<Rightarrow> rbind (hcc_getRegisterValue c (m_regAddress i)) (\<lambda>v. Inr (sub_getValue i v)))"
  by (auto simp: hcc_getSubRegisterValue_def hcc_subRegFromEnum_def hcc_getRegisterValue_def
      rbind_def split: option.splits sum.splits)

lemma new_HccCfg_hcc_ok:
  assumes "v \<le> 1"
  shows "\<exists>c. new_HccCfg v = Inr c \<and> hcc_ok c \<and> hccSubRegisterMap_all (hcc_info c) = hcc_fields v"
proof -
  obtain c where c: "new_HccCfg v = Inr c" "hcc_wf c" "hcc_addrs c = Collect (hcc_has_reg (hcc_norm v))"
    "hccSubRegisterMap_all (hcc_info c) = hcc_fields v" "length (hcc_registerSet c) = (if v = 1 then 29 else 31)"
    by (rule new_HccCfg_ok [OF assms]) (rule that)
  have "hcc_fields v = hcc_fields (hcc_norm v)" by (simp add: hcc_fields_def)
  with c assms have "hcc_ok c"
    unfolding hcc_ok_def by (intro conjI bexI [of _ "hcc_norm v"]) auto
  with c show ?thesis by blast
qed

section \<open>Histogram slots\<close>

text \<open>The channels in the order the loop takes them, and what one call leaves: each enabled
  channel has the number of enabled channels before it, the others the bad slot.\<close>

lemma fold_slots:
  assumes "distinct ics" and "\<forall>i \<in> set ics. i < length m"
  shows "fold (\<lambda>ic (m, off). if en ic then (m[ic := of_nat off], off + 1) else (m, off)) ics (m, off) =
    (map (\<lambda>i. if i \<in> set ics \<and> en i then of_nat (off + length (filter en (takeWhile (\<lambda>j. j \<noteq> i) ics))) else m ! i)
       [0..<length m], off + length (filter en ics))"
  using assms
proof (induction ics arbitrary: m off)
  case Nil
  then show ?case by (simp add: map_nth)
next
  case (Cons k ics)
  let ?m = "if en k then m[k := of_nat off] else m" and ?off = "if en k then off + 1 else off"
  have len: "length ?m = length m" by simp
  have "fold (\<lambda>ic (m, off). if en ic then (m[ic := of_nat off], off + 1) else (m, off)) (k # ics) (m, off) =
    fold (\<lambda>ic (m, off). if en ic then (m[ic := of_nat off], off + 1) else (m, off)) ics (?m, ?off)"
    by simp
  also have "\<dots> = (map (\<lambda>i. if i \<in> set ics \<and> en i then of_nat (?off + length (filter en (takeWhile (\<lambda>j. j \<noteq> i) ics))) else ?m ! i)
       [0..<length ?m], ?off + length (filter en ics))"
    by (rule Cons.IH) (use Cons.prems in auto)
  also have "\<dots> = (map (\<lambda>i. if i \<in> set (k # ics) \<and> en i then of_nat (off + length (filter en (takeWhile (\<lambda>j. j \<noteq> i) (k # ics)))) else m ! i)
       [0..<length m], off + length (filter en (k # ics)))"
    using Cons.prems by (auto simp: nth_list_update ac_simps)
  finally show ?case .
qed

definition slot_order :: "bool \<Rightarrow> nat list" where
  "slot_order version_1 = map (\<lambda>index. if version_1 then index else 10 - index) [0..<11]"

lemma chip_map_loop:
  "fold (chip_map_step v1 en) [0..<11] (replicate 11 15, 0) =
   fold (\<lambda>ic (m, off). if bit en ic then (m[ic := of_nat off], off + 1) else (m, off))
     (slot_order v1) (replicate 11 15, 0)"
proof -
  have "chip_map_step v1 en index s =
    (case s of (m, off) \<Rightarrow> if bit en (if v1 then index else 10 - index)
       then (m[if v1 then index else 10 - index := of_nat off], off + 1) else (m, off))" for index s
    using and_push_bit_1 [of en "if v1 then index else 10 - index"]
    by (simp only: chip_map_step_def Let_def and.commute [of "push_bit _ 1"] split: prod.split) auto
  then show ?thesis
    unfolding slot_order_def fold_map comp_def by (intro fold_cong) auto
qed

lemma slot_order_facts: "distinct (slot_order v1)" "set (slot_order v1) = {..<11}"
proof -
  have "slot_order v1 = (if v1 then [0,1,2,3,4,5,6,7,8,9,10] else [10,9,8,7,6,5,4,3,2,1,0])"
    by (simp add: slot_order_def upt_rec)
  then show "distinct (slot_order v1)" "set (slot_order v1) = {..<11}"
    by (auto simp: lessThan_nat_numeral)
qed

lemma chip_map_loop_slots:
  "fst (fold (chip_map_step v1 en) [0..<11] (replicate 11 15, 0)) =
   map (\<lambda>i. if bit en i then of_nat (length (filter (bit en) (takeWhile (\<lambda>j. j \<noteq> i) (slot_order v1)))) else 15) [0..<11]"
  unfolding chip_map_loop
  by (subst fold_slots) (auto simp: slot_order_facts)

lemma slots_before:
  assumes "i < 11"
  shows "length (filter (bit en) (takeWhile (\<lambda>j. j \<noteq> i) (slot_order v1))) =
    card {j. j < 11 \<and> bit en j \<and> (if v1 then j < i else i < j)}"
proof -
  have so: "slot_order v1 = (if v1 then [0..<11] else rev [0..<11])"
    by (simp add: slot_order_def upt_rec)
  have up: "takeWhile (\<lambda>j. j \<noteq> i) [0..<11] = [0..<i]"
  proof -
    have "[0..<11] = [0..<i] @ i # [Suc i..<11]"
      using assms upt_add_eq_append [of 0 i "11 - i"] by (simp add: upt_conv_Cons)
    moreover have "takeWhile (\<lambda>j. j \<noteq> i) ([0..<i] @ i # [Suc i..<11]) = [0..<i]"
      by (subst takeWhile_append2) auto
    ultimately show ?thesis by simp
  qed
  have down: "takeWhile (\<lambda>j. j \<noteq> i) (rev [0..<11]) = rev [Suc i..<11]"
  proof -
    have "[0..<11] = ([0..<i] @ [i]) @ [Suc i..<11]"
      using assms upt_add_eq_append [of 0 i "11 - i"] by (simp add: upt_conv_Cons)
    then have "rev [0..<11] = rev [Suc i..<11] @ i # rev [0..<i]" by simp
    moreover have "takeWhile (\<lambda>j. j \<noteq> i) (rev [Suc i..<11] @ i # rev [0..<i]) = rev [Suc i..<11]"
      by (subst takeWhile_append2) auto
    ultimately show ?thesis by simp
  qed
  have card: "length (filter (bit en) xs) = card (set (filter (bit en) xs))" if "distinct xs" for xs :: "nat list"
    by (rule distinct_card [symmetric]) (simp only: distinct_filter that)
  show ?thesis
  proof (cases v1)
    case True
    have o: "slot_order v1 = [0..<11]" using so True by (simp only: if_True)
    have "length (filter (bit en) (takeWhile (\<lambda>j. j \<noteq> i) (slot_order v1))) = card (set (filter (bit en) [0..<i]))"
      unfolding o up by (rule card) (rule distinct_upt)
    also have "set (filter (bit en) [0..<i]) = {j. j < 11 \<and> bit en j \<and> j < i}" using assms by auto
    finally show ?thesis using True by simp
  next
    case False
    have o: "slot_order v1 = rev [0..<11]" using so False by (simp only: if_False)
    have "length (filter (bit en) (takeWhile (\<lambda>j. j \<noteq> i) (slot_order v1))) = card (set (filter (bit en) (rev [Suc i..<11])))"
      unfolding o down by (rule card) simp
    also have "set (filter (bit en) (rev [Suc i..<11])) = {j. j < 11 \<and> bit en j \<and> i < j}" by auto
    finally show ?thesis using False by simp
  qed
qed

lemma histoChipMap_value:
  assumes "hcc_ok c"
  shows "\<exists>en. hcc_getSubRegisterValue c ''ICENABLE'' = Inr en \<and>
    histoChipMap c = Inr (map (\<lambda>i. if bit en i
        then of_nat (card {j. j < 11 \<and> bit en j \<and> (if length (hcc_registerSet c) = 29 then j < i else i < j)})
        else 15) [0..<11])"
proof -
  from assms obtain v where v: "v \<in> {0, 1}" "hccSubRegisterMap_all (hcc_info c) = hcc_fields v"
    "length (hcc_registerSet c) = (if v = 1 then 29 else 31)" unfolding hcc_ok_def by blast
  have f: "\<exists>i. hcc_fields v ''ICENABLE'' = Some i"
    using v(1) by (auto simp: hcc_fields_def hccSubRegDefs_def s_hccsubregdefs_common_def
        s_hccsubregdefs_v0_def s_hccsubregdefs_v1_def)
  then obtain i where i: "hccSubRegisterMap_all (hcc_info c) ''ICENABLE'' = Some i" using v(2) by auto
  have "m_regAddress i \<in> hcc_addrs c" using hcc_field.field_in [OF assms i] by blast
  from hcc_field.get_in [OF assms this] obtain w where
    "hcc_getRegisterValue c (m_regAddress i) = Inr w" by blast
  with i have en: "hcc_getSubRegisterValue c ''ICENABLE'' = Inr (sub_getValue i w)"
    by (simp add: hcc_getSub_store)
  have count: "length (filter (bit en) (takeWhile (\<lambda>j. j \<noteq> i) (slot_order v1))) =
      card {j. j < 11 \<and> bit en j \<and> (if v1 then j < i else i < j)}" if "i < 11" for i v1 en
    by (rule slots_before) (rule that)
  let ?en = "sub_getValue i w"
  have "histoChipMap c = Inr (map (\<lambda>i. if bit ?en i
        then of_nat (card {j. j < 11 \<and> bit ?en j \<and> (if v = 1 then j < i else i < j)}) else 15) [0..<11])"
    using v(1,3) en
    by (auto simp: histoChipMap_def MaxABCsPerHCC_def HCC_INPUT_CHANNEL_BAD_SLOT_def hcc_listRegs_facts(2)
        chip_map_loop_slots count)
  with en v(3) show ?thesis by (cases "v = 1") auto
qed

section \<open>Properties\<close>

text \<open>C30: Construction of an HCC configuration: for every version up to 1 it holds exactly the
  registers of the version with the power-up values listed in \<open>setDefaults\<close>; for a higher one it
  stops with \<open>std::out_of_range\<close>.\<close>

theorem new_HccCfg_spec:
  "case new_HccCfg v of
     Inr c \<Rightarrow> v \<le> 1 \<and> hcc_ok c \<and> hcc_addrs c = Collect (hcc_has_reg (hcc_norm v)) \<and>
       (\<forall>a. hcc_getRegisterValue c a =
         (if hcc_has_reg (hcc_norm v) a then Inr (hcc_default v a) else Inl Out_Of_Range))
   | Inl e \<Rightarrow> 1 < v \<and> e = Out_Of_Range"
proof (cases "v \<le> 1")
  case False
  then show ?thesis by (simp add: new_HccCfg_bad_version)
next
  case True
  obtain c where c: "new_HccCfg v = Inr c" "hcc_wf c" "hcc_addrs c = Collect (hcc_has_reg (hcc_norm v))"
    "hccSubRegisterMap_all (hcc_info c) = hcc_fields v" "length (hcc_registerSet c) = (if v = 1 then 29 else 31)"
    "\<And>a. a \<in> hcc_addrs c \<Longrightarrow> hcc_getRegisterValue c a = Inr (hcc_default v a)"
    by (rule new_HccCfg_ok [OF True]) (rule that)
  have "hcc_ok c" using new_HccCfg_hcc_ok [OF True] c(1) by auto
  moreover have "hcc_getRegisterValue c a =
      (if hcc_has_reg (hcc_norm v) a then Inr (hcc_default v a) else Inl Out_Of_Range)" for a
    using c(6) [of a] hcc.get_out [OF c(2), of a] unfolding c(3) by simp
  ultimately show ?thesis using True c(1,3) by simp
qed

text \<open>C31: Writing a field of an HCC register obeys the same law as on the ABC; an unknown field is
  here \<open>std::runtime_error\<close>.\<close>

theorem hcc_field_write:
  assumes "hcc_ok c"
  shows "case hcc_setSubRegisterValue c r x of
      Inr t \<Rightarrow> hcc_ok t \<and> hcc_getSubRegisterValue t r = Inr x \<and>
        (\<forall>q. q \<noteq> r \<longrightarrow> hcc_getSubRegisterValue t q = hcc_getSubRegisterValue c q)
    | Inl e \<Rightarrow> (case hccSubRegisterMap_all (hcc_info c) r of
          None \<Rightarrow> e = Runtime_Error
        | Some i \<Rightarrow> e = Runtime_Error \<and> take_bit (m_width i) x \<noteq> x)"
  using hcc_field.write_law [OF assms, where e = Runtime_Error and r = r and x = x]
  unfolding hcc_setSub_store hcc_getSub_store .

theorem hcc_field_write_witness:
  "\<exists>c t. new_HccCfg 1 = Inr c \<and> hcc_setSubRegisterValue c ''ICENABLE'' 0x7ff = Inr t \<and>
     hcc_getSubRegisterValue t ''ICENABLE'' = Inr 0x7ff \<and>
     hcc_getSubRegisterValue t ''ICTRANSSEL'' = hcc_getSubRegisterValue c ''ICTRANSSEL''"
proof -
  obtain c where c: "new_HccCfg 1 = Inr c" "hcc_ok c" "hccSubRegisterMap_all (hcc_info c) = hcc_fields 1"
    using new_HccCfg_hcc_ok [of 1] by auto
  have f: "hcc_fields 1 ''ICENABLE'' = Some \<lparr>m_regAddress = 40, m_bOffset = 0, m_width = 11, m_subRegName = ''ICENABLE''\<rparr>"
    by (simp add: hcc_fields_def hccSubRegDefs_def s_hccsubregdefs_common_def s_hccsubregdefs_v1_def sub_of_def)
  show ?thesis
    using hcc_field_write [OF c(2), where r = "''ICENABLE''" and x = "0x7ff"] c f
    by (auto split: sum.splits)
qed

text \<open>C32: The map from input channels to histogram slots: each enabled channel gets the number of
  enabled channels before it, counted upwards on version 1 and downwards on version 0, so slots
  are dense and distinct; a disabled channel gets the bad slot 15, which no enabled channel has.\<close>

theorem histoChipMap_slots:
  assumes "hcc_ok c"
  shows "\<exists>en. hcc_getSubRegisterValue c ''ICENABLE'' = Inr en \<and>
    histoChipMap c = Inr (map (\<lambda>i. if bit en i
        then of_nat (card {j. j < 11 \<and> bit en j \<and> (if length (hcc_registerSet c) = 29 then j < i else i < j)})
        else 15) [0..<11])"
  using assms by (rule histoChipMap_value)

theorem histoChipMap_slots_witness:
  "\<exists>c m. hcc_getSubRegisterValue c ''ICENABLE'' = Inr 6 \<and> histoChipMap c = Inr m \<and>
     (m ! 0, m ! 1, m ! 2, m ! 3) = (if length (hcc_registerSet c) = 29 then (15, 0, 1, 15) else (15, 1, 0, 15))"
proof -
  obtain d where d: "hcc_ok d" "hccSubRegisterMap_all (hcc_info d) = hcc_fields 1"
    using new_HccCfg_hcc_ok [of 1] by auto
  have f: "hcc_fields 1 ''ICENABLE'' = Some \<lparr>m_regAddress = 40, m_bOffset = 0, m_width = 11, m_subRegName = ''ICENABLE''\<rparr>"
    by (simp add: hcc_fields_def hccSubRegDefs_def s_hccsubregdefs_common_def s_hccsubregdefs_v1_def sub_of_def)
  obtain c where c: "hcc_ok c" "hcc_getSubRegisterValue c ''ICENABLE'' = Inr 6"
    using hcc_field.write_law [OF d(1), where e = Runtime_Error and r = "''ICENABLE''" and x = 6] d(2) f
    unfolding hcc_setSub_store [symmetric] hcc_getSub_store [symmetric] by (auto split: sum.splits)
  have b: "\<forall>j \<in> {..<11}. bit (6 :: u32) j \<longleftrightarrow> j = 1 \<or> j = 2" by (simp add: lessThan_nat_numeral lessThan_Suc)
  then have s: "{j. j < 11 \<and> bit (6 :: u32) j \<and> R j} = (if R 1 then {1} else {}) \<union> (if R 2 then {2} else {})" for R by auto
  have "(m ! 0, m ! 1, m ! 2, m ! 3) = (if length (hcc_registerSet c) = 29 then (15, 0, 1, 15) else (15, 1, 0, 15))"
    if "histoChipMap c = Inr m" for m
  proof -
    have m: "m = map (\<lambda>i. if bit (6 :: u32) i
        then of_nat (card {j. j < 11 \<and> bit (6 :: u32) j \<and> (if length (hcc_registerSet c) = 29 then j < i else i < j)})
        else 15) [0..<11]"
      using histoChipMap_slots [OF c(1)] c(2) that by auto
    show ?thesis unfolding m s by simp
  qed
  moreover obtain m where "histoChipMap c = Inr m" using histoChipMap_slots [OF c(1)] by auto
  ultimately show ?thesis using c(2) by blast
qed

end
