(* ===== verification/Ordered_Map.thy ===== *)
theory Ordered_Map
  imports Yarr_Prelude
begin

text \<open>
  \<open>std::map\<close>: an association list whose keys increase, so that a loop over the list visits the
  entries in the order of the iterators, the first entry is \<open>begin()\<close> and the last one
  \<open>rbegin()\<close>. \<open>omap_put\<close> inserts or replaces; \<open>omap_emplace\<close> keeps the entry that is there.
\<close>

fun omap_put :: "'k::linorder \<Rightarrow> 'v \<Rightarrow> ('k \<times> 'v) list \<Rightarrow> ('k \<times> 'v) list" where
  "omap_put k v [] = [(k, v)]"
| "omap_put k v ((l, w) # m) =
     (if k < l then (k, v) # (l, w) # m else if k = l then (k, v) # m else (l, w) # omap_put k v m)"

definition omap_emplace :: "'k::linorder \<Rightarrow> 'v \<Rightarrow> ('k \<times> 'v) list \<Rightarrow> ('k \<times> 'v) list" where
  "omap_emplace k v m = (case map_of m k of None \<Rightarrow> omap_put k v m | Some _ \<Rightarrow> m)"

definition omap_ok :: "('k::linorder \<times> 'v) list \<Rightarrow> bool" where
  "omap_ok m \<longleftrightarrow> sorted_wrt (<) (map fst m)"

lemma omap_ok_simps [simp]:
  "omap_ok []" "omap_ok (p # m) \<longleftrightarrow> (\<forall>q \<in> set m. fst p < fst q) \<and> omap_ok m"
  by (auto simp: omap_ok_def)

lemma keys_omap_put [simp]: "fst ` set (omap_put k v m) = insert k (fst ` set m)"
  by (induction k v m rule: omap_put.induct) auto

lemma set_omap_put: "set (omap_put k v m) \<subseteq> insert (k, v) (set m)"
  by (induction k v m rule: omap_put.induct) auto

lemma omap_ok_put [simp]: "omap_ok m \<Longrightarrow> omap_ok (omap_put k v m)"
proof (induction k v m rule: omap_put.induct)
  case (2 k v l w m)
  then have "\<forall>q \<in> set m. l < fst q" "omap_ok m" by simp_all
  moreover have "\<forall>q \<in> set (omap_put k v m). l < fst q" if "l < k"
    using that calculation(1) set_omap_put [of k v m] by auto
  ultimately show ?case using "2.IH" by (auto intro: less_trans)
qed simp

lemma omap_ok_distinct: "omap_ok m \<Longrightarrow> distinct (map fst m)"
  by (induction m) auto

lemma map_of_omap_put [simp]: "map_of (omap_put k v m) = (map_of m)(k \<mapsto> v)"
  by (induction k v m rule: omap_put.induct) (auto simp: fun_eq_iff)

lemma omap_put_same_keys: "omap_ok m \<Longrightarrow> k \<in> fst ` set m \<Longrightarrow> map fst (omap_put k v m) = map fst m"
  by (induction k v m rule: omap_put.induct) auto

lemma omap_put_present:
  "omap_ok m \<Longrightarrow> k \<in> fst ` set m \<Longrightarrow> omap_put k v m = map (\<lambda>(l, w). if l = k then (l, v) else (l, w)) m"
proof (induction k v m rule: omap_put.induct)
  case (2 k v l w m)
  show ?case
  proof (cases "k = l")
    case True
    have "map (\<lambda>(l, w). if l = k then (l, v) else (l, w)) m = m"
      by (rule map_idI) (use 2 True in auto)
    with True show ?thesis by simp
  next
    case False
    with 2 show ?thesis by auto
  qed
qed simp

lemma omap_emplace_laws:
  assumes "omap_ok m"
  shows "omap_ok (omap_emplace k v m)"
    "map_of (omap_emplace k v m) = (if map_of m k = None then (map_of m)(k \<mapsto> v) else map_of m)"
  using assms by (auto simp: omap_emplace_def split: option.split)

lemma omap_set_iff: "omap_ok m \<Longrightarrow> (k, v) \<in> set m \<longleftrightarrow> map_of m k = Some v"
  by (simp add: map_of_eq_Some_iff omap_ok_distinct)

end
