(* ===== verification/Star_Cfg.thy ===== *)
theory Star_Cfg
  imports Star_AbcCfg Star_HccCfg Ordered_Map
begin

text \<open>
  Configuration of a front-end, one HCC with its ABCs (src/src/libStar/include/StarCfg.h,
  src/src/libStar/StarCfg.cpp). The ABCs are a \<open>std::map\<close> from HCC input channels; a reference
  to an ABC that an accessor returns is modelled by its key, through which the client reads and
  replaces the entry. \<open>assert\<close> is compiled in by the build files' default, so a failed one is
  \<open>Aborted\<close>; a dereferenced \<open>end()\<close> is \<open>Undefined\<close>.
\<close>

section \<open>State\<close>

record StarCfg =
  m_abc_info :: AbcStarRegInfo
  m_hcc_info :: HccStarRegInfo
  m_fuse_id :: u32
  m_abc_version :: int
  m_hcc_version :: int
  m_hcc :: HccCfg
  m_ABCchips :: "(nat \<times> AbcCfg) list"

definition new_StarCfg :: "int \<Rightarrow> int \<Rightarrow> StarCfg result" where
  "new_StarCfg abc_version hcc_version =
     rbind (abc_instance abc_version) (\<lambda>ai.
     rbind (hcc_instance hcc_version) (\<lambda>hi.
     rbind (new_HccCfg hcc_version) (\<lambda>h.
     Inr \<lparr>m_abc_info = ai, m_hcc_info = hi, m_fuse_id = 0, m_abc_version = abc_version,
          m_hcc_version = hcc_version, m_hcc = h, m_ABCchips = []\<rparr>)))"

section \<open>Identifiers\<close>

definition sc_getHCCchipID :: "StarCfg \<Rightarrow> u32" where
  "sc_getHCCchipID c = m_hccID (m_hcc c)"

definition sc_setHCCChipId :: "StarCfg \<Rightarrow> u32 \<Rightarrow> StarCfg" where
  "sc_setHCCChipId c hccID = c\<lparr>m_hcc := (m_hcc c)\<lparr>m_hccID := hccID\<rparr>\<rparr>"

definition sc_getHCCfuseID :: "StarCfg \<Rightarrow> u32" where "sc_getHCCfuseID c = m_fuse_id c"

definition sc_setHCCfuseID :: "StarCfg \<Rightarrow> u32 \<Rightarrow> StarCfg" where
  "sc_setHCCfuseID c fuseID = c\<lparr>m_fuse_id := fuseID\<rparr>"

section \<open>The set of ABCs\<close>

definition isAbcForInputChannel :: "StarCfg \<Rightarrow> nat \<Rightarrow> bool result" where
  "isAbcForInputChannel c input_channel =
     (if input_channel < MaxABCsPerHCC then Inr (map_of (m_ABCchips c) input_channel \<noteq> None)
      else Inl Aborted)"

text \<open>The index is an \<open>int\<close> that is converted to \<open>unsigned\<close> for the lookup.\<close>

definition abcFromIndex :: "StarCfg \<Rightarrow> int \<Rightarrow> AbcCfg result" where
  "abcFromIndex c chipIndex =
     (let ic = nat ((chipIndex - 1) mod 2 ^ 32)
      in rbind (isAbcForInputChannel c ic) (\<lambda>present.
         if \<not> present then Inl Aborted
         else case map_of (m_ABCchips c) ic of None \<Rightarrow> Inl Out_Of_Range | Some abc \<Rightarrow> Inr abc))"

definition abcForInputChannel :: "StarCfg \<Rightarrow> int \<Rightarrow> AbcCfg result" where
  "abcForInputChannel c hccIC = abcFromIndex c (hccIC + 1)"

text \<open>Storing through the reference to the ABC of an input channel.\<close>

definition putAbc :: "StarCfg \<Rightarrow> nat \<Rightarrow> AbcCfg \<Rightarrow> StarCfg" where
  "putAbc c ic abc = c\<lparr>m_ABCchips := omap_put ic abc (m_ABCchips c)\<rparr>"

definition sc_getABCchipID :: "StarCfg \<Rightarrow> int \<Rightarrow> u32 result" where
  "sc_getABCchipID c chipIndex = rbind (abcFromIndex c chipIndex) (\<lambda>abc. Inr (m_abcID abc))"

definition addABCchipID_at :: "StarCfg \<Rightarrow> u32 \<Rightarrow> nat \<Rightarrow> StarCfg result" where
  "addABCchipID_at c chipID hccIn =
     rbind (new_AbcCfg (m_abc_version c)) (\<lambda>abc.
     let m = omap_emplace hccIn abc (m_ABCchips c)
     in case map_of m hccIn of
          None \<Rightarrow> Inl Out_Of_Range
        | Some a \<Rightarrow> Inr (c\<lparr>m_ABCchips := omap_put hccIn (a\<lparr>m_abcID := chipID\<rparr>) m\<rparr>))"

definition addABCchipID :: "StarCfg \<Rightarrow> u32 \<Rightarrow> StarCfg result" where
  "addABCchipID c chipID =
     (if length (m_ABCchips c) = 0 then addABCchipID_at c chipID 0
      else addABCchipID_at c chipID ((fst (last (m_ABCchips c)) + 1) mod 2 ^ 32))"

definition clearABCchipIDs :: "StarCfg \<Rightarrow> StarCfg" where
  "clearABCchipIDs c = c\<lparr>m_ABCchips := []\<rparr>"

definition numABCs :: "StarCfg \<Rightarrow> nat" where "numABCs c = length (m_ABCchips c)"

definition highestABC :: "StarCfg \<Rightarrow> int" where
  "highestABC c = (if length (m_ABCchips c) = 0 then -1 else int (fst (last (m_ABCchips c))))"

definition lowestABC :: "StarCfg \<Rightarrow> int" where
  "lowestABC c = (if length (m_ABCchips c) = 0 then -1 else int (fst (hd (m_ABCchips c))))"

definition abcFromChipID :: "StarCfg \<Rightarrow> u32 \<Rightarrow> nat result" where
  "abcFromChipID c chipID =
     (case find (\<lambda>abcPair. m_abcID (snd abcPair) = chipID) (m_ABCchips c) of
        Some p \<Rightarrow> Inr (fst p) | None \<Rightarrow> Inl Undefined)"

definition hccChannelForABCchipID :: "StarCfg \<Rightarrow> u32 \<Rightarrow> nat result" where
  "hccChannelForABCchipID c chipID =
     (case find (\<lambda>it. m_abcID (snd it) = chipID) (m_ABCchips c) of
        Some itr \<Rightarrow> Inr (fst itr) | None \<Rightarrow> Inl Undefined)"

text \<open>\<open>eachAbc\<close> calls the function with a reference to each ABC in turn; the function may change
  that ABC and any state its closure holds.\<close>

definition eachAbc :: "(nat \<Rightarrow> 's \<Rightarrow> 's result) \<Rightarrow> StarCfg \<Rightarrow> 's \<Rightarrow> 's result" where
  "eachAbc f c s = rfold f (map fst (m_ABCchips c)) s"

definition withAbc :: "nat \<Rightarrow> (AbcCfg \<Rightarrow> AbcCfg result) \<Rightarrow> StarCfg \<Rightarrow> StarCfg result" where
  "withAbc ic f c =
     (case map_of (m_ABCchips c) ic of
        None \<Rightarrow> Inl Undefined | Some abc \<Rightarrow> rbind (f abc) (\<lambda>abc'. Inr (putAbc c ic abc')))"

definition readAbc :: "nat \<Rightarrow> (AbcCfg \<Rightarrow> 'a result) \<Rightarrow> StarCfg \<Rightarrow> 'a result" where
  "readAbc ic f c = (case map_of (m_ABCchips c) ic of None \<Rightarrow> Inl Undefined | Some abc \<Rightarrow> f abc)"

section \<open>Registers\<close>

definition getHCCRegister :: "StarCfg \<Rightarrow> nat \<Rightarrow> u32 result" where
  "getHCCRegister c addr = hcc_getRegisterValue (m_hcc c) addr"

definition setHCCRegister :: "StarCfg \<Rightarrow> nat \<Rightarrow> u32 \<Rightarrow> StarCfg result" where
  "setHCCRegister c addr val =
     rbind (hcc_setRegisterValue (m_hcc c) addr val) (\<lambda>h. Inr (c\<lparr>m_hcc := h\<rparr>))"

definition getABCRegisterByID :: "StarCfg \<Rightarrow> nat \<Rightarrow> u32 \<Rightarrow> u32 result" where
  "getABCRegisterByID c addr chipID =
     rbind (abcFromChipID c chipID) (\<lambda>ic. readAbc ic (\<lambda>abc. abc_getRegisterValue abc addr) c)"

definition setABCRegisterByID :: "StarCfg \<Rightarrow> nat \<Rightarrow> u32 \<Rightarrow> u32 \<Rightarrow> StarCfg result" where
  "setABCRegisterByID c addr val chipID =
     rbind (abcFromChipID c chipID) (\<lambda>ic. withAbc ic (\<lambda>abc. abc_setRegisterValue abc addr val) c)"

definition setHCCSubRegisterValue :: "StarCfg \<Rightarrow> string \<Rightarrow> u32 \<Rightarrow> StarCfg result" where
  "setHCCSubRegisterValue c subReg v =
     rbind (hcc_setSubRegisterValue (m_hcc c) subReg v) (\<lambda>h. Inr (c\<lparr>m_hcc := h\<rparr>))"

definition getHCCSubRegisterValue :: "StarCfg \<Rightarrow> string \<Rightarrow> u32 result" where
  "getHCCSubRegisterValue c subReg = hcc_getSubRegisterValue (m_hcc c) subReg"

definition setABCSubRegisterValue :: "StarCfg \<Rightarrow> nat \<Rightarrow> string \<Rightarrow> u32 \<Rightarrow> StarCfg result" where
  "setABCSubRegisterValue c input_channel subReg v =
     rbind (isAbcForInputChannel c input_channel) (\<lambda>present.
     if \<not> present then Inr c
     else rbind (abcForInputChannel c (int input_channel)) (\<lambda>abc.
          rbind (abc_setSubRegisterValue abc subReg v) (\<lambda>abc'. Inr (putAbc c input_channel abc'))))"

definition getABCSubRegisterValue :: "StarCfg \<Rightarrow> nat \<Rightarrow> string \<Rightarrow> u32 result" where
  "getABCSubRegisterValue c input_channel subReg =
     rbind (isAbcForInputChannel c input_channel) (\<lambda>present.
     if \<not> present then Inr 0
     else rbind (abcForInputChannel c (int input_channel)) (\<lambda>abc. abc_getSubRegisterValue abc subReg))"

definition getHCCSubRegisterParentAddr :: "StarCfg \<Rightarrow> string \<Rightarrow> nat result" where
  "getHCCSubRegisterParentAddr c subReg = hcc_getSubRegisterParentAddr (m_hcc c) subReg"

definition getABCSubRegisterParentAddr :: "StarCfg \<Rightarrow> string \<Rightarrow> nat result" where
  "getABCSubRegisterParentAddr c subReg = abc_getSubRegisterParentAddr (m_abc_info c) subReg"

definition getHCCSubRegisterParentValue :: "StarCfg \<Rightarrow> string \<Rightarrow> u32 result" where
  "getHCCSubRegisterParentValue c subReg = hcc_getSubRegisterParentValue (m_hcc c) subReg"

definition getABCSubRegisterParentValue :: "StarCfg \<Rightarrow> nat \<Rightarrow> string \<Rightarrow> u32 result" where
  "getABCSubRegisterParentValue c input_channel subReg =
     rbind (isAbcForInputChannel c input_channel) (\<lambda>present.
     if \<not> present then Inr 0
     else rbind (abcForInputChannel c (int input_channel)) (\<lambda>abc.
          abc_getSubRegisterParentValue abc subReg))"

definition enableAll :: "StarCfg \<Rightarrow> StarCfg result" where
  "enableAll c =
     eachAbc (\<lambda>ic. withAbc ic (\<lambda>abc. rfold (\<lambda>m abc. abc_setRegisterValue abc (MaskInput m) 0) [0..<8] abc)) c c"

section \<open>Histogram positions\<close>

definition inputChannelForHistoChip :: "StarCfg \<Rightarrow> nat \<Rightarrow> int result" where
  "inputChannelForHistoChip c histo_abc =
     rbind (histoChipMap (m_hcc c)) (\<lambda>chip_map.
     case find (\<lambda>i. unat (chip_map ! i) = histo_abc) [0..<length chip_map] of
       Some i \<Rightarrow> Inr (int i) | None \<Rightarrow> Inr (- 1))"

definition isAbcForHistoChip :: "StarCfg \<Rightarrow> nat \<Rightarrow> bool result" where
  "isAbcForHistoChip c histo_chip = rbind (inputChannelForHistoChip c histo_chip) (\<lambda>ic. Inr (ic \<noteq> - 1))"

definition abcForHistoChip :: "StarCfg \<Rightarrow> nat \<Rightarrow> AbcCfg result" where
  "abcForHistoChip c histo_chip =
     rbind (inputChannelForHistoChip c histo_chip) (\<lambda>ic. abcForInputChannel c ic)"

section \<open>Well-formedness\<close>

definition cfg_ok :: "StarCfg \<Rightarrow> bool" where
  "cfg_ok c \<longleftrightarrow> omap_ok (m_ABCchips c) \<and> (\<forall>(ic, abc) \<in> set (m_ABCchips c). ic < MaxABCsPerHCC \<and> abc_ok abc) \<and>
     hcc_ok (m_hcc c) \<and> m_abc_version c \<le> 1"

abbreviation abc_at :: "StarCfg \<Rightarrow> nat \<Rightarrow> AbcCfg option" where
  "abc_at c ic \<equiv> map_of (m_ABCchips c) ic"

lemma cfg_ok_hcc: "cfg_ok c \<Longrightarrow> hcc_ok (m_hcc c)"
  by (simp add: cfg_ok_def)

lemma cfg_ok_abc:
  assumes "cfg_ok c" and "abc_at c ic = Some abc"
  shows "ic < MaxABCsPerHCC" "abc_ok abc"
  using assms by (auto simp: cfg_ok_def dest: map_of_SomeD)

lemma isAbc_iff: "cfg_ok c \<Longrightarrow> ic < MaxABCsPerHCC \<Longrightarrow> isAbcForInputChannel c ic = Inr (abc_at c ic \<noteq> None)"
  by (simp add: isAbcForInputChannel_def)

lemma abcForInputChannel_at:
  assumes "cfg_ok c" and "abc_at c ic = Some abc"
  shows "abcForInputChannel c (int ic) = Inr abc"
proof -
  have "ic < 2 ^ 32" using cfg_ok_abc(1) [OF assms] by (simp add: MaxABCsPerHCC_def)
  then have "nat (int ic mod 2 ^ 32) = ic" by simp
  with assms(2) cfg_ok_abc(1) [OF assms] show ?thesis
    by (simp add: abcForInputChannel_def abcFromIndex_def isAbcForInputChannel_def)
qed

lemma putAbc_simps [simp]:
  "abc_at (putAbc c ic abc) = (abc_at c)(ic \<mapsto> abc)" "m_hcc (putAbc c ic abc) = m_hcc c"
  "m_abc_version (putAbc c ic abc) = m_abc_version c" "m_hcc_version (putAbc c ic abc) = m_hcc_version c"
  "m_fuse_id (putAbc c ic abc) = m_fuse_id c" "sc_getHCCchipID (putAbc c ic abc) = sc_getHCCchipID c"
  by (simp_all add: putAbc_def sc_getHCCchipID_def fun_eq_iff)

lemma putAbc_ok: "cfg_ok c \<Longrightarrow> ic < MaxABCsPerHCC \<Longrightarrow> abc_ok abc \<Longrightarrow> cfg_ok (putAbc c ic abc)"
  using set_omap_put [of ic abc "m_ABCchips c"] unfolding cfg_ok_def by (auto simp: putAbc_def)

lemma putAbc_keys:
  "cfg_ok c \<Longrightarrow> abc_at c ic = Some b \<Longrightarrow> map fst (m_ABCchips (putAbc c ic abc)) = map fst (m_ABCchips c)"
  by (simp add: putAbc_def cfg_ok_def omap_put_same_keys map_of_SomeD image_iff weak_map_of_SomeI)
    (metis map_of_eq_None_iff omap_put_same_keys option.distinct(1))

text \<open>Chip identifiers with their channels, in the order of the search.\<close>

definition chip_ids :: "StarCfg \<Rightarrow> (u32 \<times> nat) list" where
  "chip_ids c = map (\<lambda>p. (m_abcID (snd p), fst p)) (m_ABCchips c)"

lemma find_map_of: "find (\<lambda>p. f (snd p) = i) m = None \<longleftrightarrow> map_of (map (\<lambda>p. (f (snd p), fst p)) m) i = None"
  "find (\<lambda>p. f (snd p) = i) m = Some q \<Longrightarrow> map_of (map (\<lambda>p. (f (snd p), fst p)) m) i = Some (fst q)"
  by (induction m) (auto split: if_splits)

lemma abcFromChipID_ids:
  "abcFromChipID c i = (case map_of (chip_ids c) i of Some ic \<Rightarrow> Inr ic | None \<Rightarrow> Inl Undefined)"
  "hccChannelForABCchipID c i = abcFromChipID c i"
  using find_map_of(1) [of m_abcID i "m_ABCchips c"] find_map_of(2) [of m_abcID i "m_ABCchips c"]
  by (auto simp: abcFromChipID_def hccChannelForABCchipID_def chip_ids_def split: option.split)

lemma chip_ids_at:
  assumes "cfg_ok c" and "map_of (chip_ids c) i = Some ic"
  obtains abc where "abc_at c ic = Some abc" "m_abcID abc = i"
proof -
  from map_of_SomeD [OF assms(2)] obtain abc where "(ic, abc) \<in> set (m_ABCchips c)" "m_abcID abc = i"
    by (auto simp: chip_ids_def)
  with assms(1) that show thesis by (auto simp: cfg_ok_def omap_set_iff)
qed

lemma putAbc_ids:
  assumes "cfg_ok c" and "abc_at c ic = Some abc" and "m_abcID abc' = m_abcID abc"
  shows "chip_ids (putAbc c ic abc') = chip_ids c"
proof -
  have ok: "omap_ok (m_ABCchips c)" and k: "ic \<in> fst ` set (m_ABCchips c)"
    using assms(1,2) by (auto simp: cfg_ok_def dest: map_of_SomeD intro: rev_image_eqI)
  have "(ic, w) \<in> set (m_ABCchips c) \<Longrightarrow> w = abc" for w
    using assms(2) ok by (simp add: omap_set_iff)
  with assms(3) show ?thesis
    by (auto simp: chip_ids_def putAbc_def omap_put_present [OF ok k])
qed


section \<open>Parts of the configuration as register stores\<close>

lemma abc_set_ID: "abc_setRegisterValue c a v = Inr t \<Longrightarrow> m_abcID t = m_abcID c"
  by (auto simp: abc_setRegisterValue_def abc_update_def rbind_eq_Inr_iff split: option.splits)

lemma readAbc_at: "abc_at c ic = Some abc \<Longrightarrow> readAbc ic f c = f abc"
  by (simp add: readAbc_def)

lemma withAbc_at: "abc_at c ic = Some abc \<Longrightarrow> withAbc ic f c = rbind (f abc) (\<lambda>abc'. Inr (putAbc c ic abc'))"
  by (simp add: withAbc_def)

lemma cfg_hcc_update: "cfg_ok c \<Longrightarrow> hcc_ok h \<Longrightarrow> cfg_ok (c\<lparr>m_hcc := h\<rparr>)"
  by (simp add: cfg_ok_def)

interpretation cfg_hcc: field_store getHCCRegister setHCCRegister cfg_ok "\<lambda>c. hcc_addrs (m_hcc c)"
  "\<lambda>c. hccSubRegisterMap_all (hcc_info (m_hcc c))"
proof
  fix c a v
  assume ok: "cfg_ok c"
  note h = cfg_ok_hcc [OF ok]
  show "a \<in> hcc_addrs (m_hcc c) \<Longrightarrow> \<exists>v. getHCCRegister c a = Inr v"
    unfolding getHCCRegister_def by (rule hcc_field.get_in [OF h])
  show "a \<notin> hcc_addrs (m_hcc c) \<Longrightarrow> getHCCRegister c a = Inl Out_Of_Range"
    unfolding getHCCRegister_def by (rule hcc_field.get_out [OF h])
  show "a \<notin> hcc_addrs (m_hcc c) \<Longrightarrow> setHCCRegister c a v = Inl Out_Of_Range"
    unfolding setHCCRegister_def by (simp add: hcc_field.put_out [OF h])
  show "a \<in> hcc_addrs (m_hcc c) \<Longrightarrow> \<exists>t. setHCCRegister c a v = Inr t \<and> cfg_ok t \<and>
      hcc_addrs (m_hcc t) = hcc_addrs (m_hcc c) \<and> getHCCRegister t a = Inr v \<and>
      (\<forall>b. b \<noteq> a \<longrightarrow> getHCCRegister t b = getHCCRegister c b)"
    unfolding setHCCRegister_def getHCCRegister_def
    using hcc_field.put_in [OF h, of a v] by (auto simp: cfg_hcc_update [OF ok])
next
  fix c r i
  assume "cfg_ok c" and "hccSubRegisterMap_all (hcc_info (m_hcc c)) r = Some i"
  then show "m_regAddress i \<in> hcc_addrs (m_hcc c) \<and> fits i"
    using hcc_field.field_in [OF cfg_ok_hcc] by blast
next
  fix c r i s j
  assume "cfg_ok c" "hccSubRegisterMap_all (hcc_info (m_hcc c)) r = Some i"
    "hccSubRegisterMap_all (hcc_info (m_hcc c)) s = Some j" "r \<noteq> s"
  then show "\<not> field_overlap i j" using hcc_field.field_disjoint [OF cfg_ok_hcc] by blast
next
  fix c a v t
  assume "setHCCRegister c a v = Inr t"
  then show "hccSubRegisterMap_all (hcc_info (m_hcc t)) = hccSubRegisterMap_all (hcc_info (m_hcc c))"
    by (auto simp: setHCCRegister_def rbind_eq_Inr_iff hcc_set_info)
qed

text \<open>The registers of the ABC of one input channel.\<close>

definition chan_get :: "nat \<Rightarrow> StarCfg \<Rightarrow> nat \<Rightarrow> u32 result" where
  "chan_get ic c a = readAbc ic (\<lambda>abc. abc_getRegisterValue abc a) c"

definition chan_put :: "nat \<Rightarrow> StarCfg \<Rightarrow> nat \<Rightarrow> u32 \<Rightarrow> StarCfg result" where
  "chan_put ic c a v = withAbc ic (\<lambda>abc. abc_setRegisterValue abc a v) c"

definition chan_addrs :: "nat \<Rightarrow> StarCfg \<Rightarrow> nat set" where
  "chan_addrs ic c = (case abc_at c ic of None \<Rightarrow> {} | Some abc \<Rightarrow> abc_addrs abc)"

definition chan_ok :: "nat \<Rightarrow> StarCfg \<Rightarrow> bool" where
  "chan_ok ic c \<longleftrightarrow> cfg_ok c \<and> abc_at c ic \<noteq> None"

lemma chan_put_Inr:
  assumes "cfg_ok c" and "chan_put ic c a v = Inr t"
  shows "cfg_ok t" "map fst (m_ABCchips t) = map fst (m_ABCchips c)" "chip_ids t = chip_ids c"
    "m_hcc t = m_hcc c" "m_abc_version t = m_abc_version c" "m_hcc_version t = m_hcc_version c"
    "m_fuse_id t = m_fuse_id c" "k \<noteq> ic \<Longrightarrow> abc_at t k = abc_at c k"
proof -
  from assms(2) obtain abc abc' where
    abc: "abc_at c ic = Some abc" "abc_setRegisterValue abc a v = Inr abc'" "t = putAbc c ic abc'"
    by (auto simp: chan_put_def withAbc_def rbind_eq_Inr_iff split: option.splits)
  note ok = cfg_ok_abc [OF assms(1) abc(1)]
  show "cfg_ok t"
    unfolding abc(3) by (rule putAbc_ok [OF assms(1) ok(1) abc_set_ok [OF ok(2) abc(2)]])
  show "map fst (m_ABCchips t) = map fst (m_ABCchips c)"
    unfolding abc(3) by (rule putAbc_keys [OF assms(1) abc(1)])
  show "chip_ids t = chip_ids c"
    unfolding abc(3) by (rule putAbc_ids [OF assms(1) abc(1) abc_set_ID [OF abc(2)]])
  show "m_hcc t = m_hcc c" "m_abc_version t = m_abc_version c" "m_hcc_version t = m_hcc_version c"
    "m_fuse_id t = m_fuse_id c" "k \<noteq> ic \<Longrightarrow> abc_at t k = abc_at c k"
    by (simp_all add: abc(3))
qed

interpretation chan: field_store "chan_get ic" "chan_put ic" "chan_ok ic" "chan_addrs ic"
  "\<lambda>c. case abc_at c ic of None \<Rightarrow> Map.empty | Some abc \<Rightarrow> abcSubRegisterMap_all (abc_info abc)" for ic
proof
  fix c a v
  assume "chan_ok ic c"
  then obtain abc where ok: "cfg_ok c" and abc: "abc_at c ic = Some abc" by (auto simp: chan_ok_def)
  note h = cfg_ok_abc [OF ok abc]
  show "a \<in> chan_addrs ic c \<Longrightarrow> \<exists>v. chan_get ic c a = Inr v"
    using abc_field.get_in [OF h(2)] by (simp add: chan_get_def readAbc_def chan_addrs_def abc)
  show "a \<notin> chan_addrs ic c \<Longrightarrow> chan_get ic c a = Inl Out_Of_Range"
    using abc_field.get_out [OF h(2)] by (simp add: chan_get_def readAbc_def chan_addrs_def abc)
  show "a \<notin> chan_addrs ic c \<Longrightarrow> chan_put ic c a v = Inl Out_Of_Range"
    using abc_field.put_out [OF h(2)] by (simp add: chan_put_def withAbc_def chan_addrs_def abc)
  assume "a \<in> chan_addrs ic c"
  then have a: "a \<in> abc_addrs abc" by (simp add: chan_addrs_def abc)
  from abc_field.put_in [OF h(2) a, of v] obtain abc' where abc':
    "abc_setRegisterValue abc a v = Inr abc'" "abc_ok abc'" "abc_addrs abc' = abc_addrs abc"
    "abc_getRegisterValue abc' a = Inr v"
    "\<forall>b. b \<noteq> a \<longrightarrow> abc_getRegisterValue abc' b = abc_getRegisterValue abc b" by blast
  show "\<exists>t. chan_put ic c a v = Inr t \<and> chan_ok ic t \<and> chan_addrs ic t = chan_addrs ic c \<and>
      chan_get ic t a = Inr v \<and> (\<forall>b. b \<noteq> a \<longrightarrow> chan_get ic t b = chan_get ic c b)"
  proof (intro exI conjI)
    show "chan_put ic c a v = Inr (putAbc c ic abc')" by (simp add: chan_put_def withAbc_def abc abc'(1))
    show "chan_ok ic (putAbc c ic abc')"
      using putAbc_ok [OF ok h(1) abc'(2)] by (simp add: chan_ok_def)
  qed (use abc' in \<open>simp_all add: chan_addrs_def chan_get_def readAbc_def abc\<close>)
next
  fix c r i
  assume "chan_ok ic c"
    and i: "(case abc_at c ic of None \<Rightarrow> Map.empty | Some abc \<Rightarrow> abcSubRegisterMap_all (abc_info abc)) r = Some i"
  then obtain abc where ok: "cfg_ok c" and abc: "abc_at c ic = Some abc" by (auto simp: chan_ok_def)
  from i have "abcSubRegisterMap_all (abc_info abc) r = Some i" by (simp add: abc)
  from abc_field.field_in [OF cfg_ok_abc(2) [OF ok abc] this]
  show "m_regAddress i \<in> chan_addrs ic c \<and> fits i" by (simp add: chan_addrs_def abc)
next
  fix c r i s j
  assume "chan_ok ic c" and ne: "r \<noteq> s"
    and i: "(case abc_at c ic of None \<Rightarrow> Map.empty | Some abc \<Rightarrow> abcSubRegisterMap_all (abc_info abc)) r = Some i"
    and j: "(case abc_at c ic of None \<Rightarrow> Map.empty | Some abc \<Rightarrow> abcSubRegisterMap_all (abc_info abc)) s = Some j"
  then obtain abc where ok: "cfg_ok c" and abc: "abc_at c ic = Some abc" by (auto simp: chan_ok_def)
  from i j have "abcSubRegisterMap_all (abc_info abc) r = Some i" "abcSubRegisterMap_all (abc_info abc) s = Some j"
    by (simp_all add: abc)
  from abc_field.field_disjoint [OF cfg_ok_abc(2) [OF ok abc] this ne] show "\<not> field_overlap i j" .
next
  fix c a v t
  assume "chan_put ic c a v = Inr t"
  then show "(case abc_at t ic of None \<Rightarrow> Map.empty | Some abc \<Rightarrow> abcSubRegisterMap_all (abc_info abc)) =
    (case abc_at c ic of None \<Rightarrow> Map.empty | Some abc \<Rightarrow> abcSubRegisterMap_all (abc_info abc))"
    by (auto simp: chan_put_def withAbc_def rbind_eq_Inr_iff abc_set_info split: option.splits)
qed

lemma chan_get_other:
  assumes "cfg_ok c" and "chan_put ic c a v = Inr t" and "k \<noteq> ic"
  shows "chan_get k t b = chan_get k c b"
  using chan_put_Inr(8) [OF assms(1,2)] assms(3) by (simp add: chan_get_def readAbc_def)

lemma by_ID:
  "getABCRegisterByID c a i = rbind (abcFromChipID c i) (\<lambda>ic. chan_get ic c a)"
  "setABCRegisterByID c a v i = rbind (abcFromChipID c i) (\<lambda>ic. chan_put ic c a v)"
  by (simp_all add: getABCRegisterByID_def setABCRegisterByID_def chan_get_def chan_put_def)

lemma setByID_Inr:
  assumes "cfg_ok c" and "setABCRegisterByID c a v i = Inr t"
  obtains ic where "abcFromChipID c i = Inr ic" "chan_put ic c a v = Inr t" "chan_ok ic c"
proof -
  from assms(2) obtain ic where ic: "map_of (chip_ids c) i = Some ic" "chan_put ic c a v = Inr t"
    by (auto simp: by_ID rbind_eq_Inr_iff abcFromChipID_ids split: option.splits)
  from chip_ids_at [OF assms(1) ic(1)] assms(1) have "chan_ok ic c" by (auto simp: chan_ok_def)
  with ic show thesis by (intro that [of ic]) (simp_all add: abcFromChipID_ids)
qed

section \<open>Reading and writing by chip identifier\<close>

lemma setByID_laws:
  assumes "cfg_ok c" and "setABCRegisterByID c a v i = Inr t"
  shows "cfg_ok t" "chip_ids t = chip_ids c" "m_hcc t = m_hcc c" "m_abc_version t = m_abc_version c"
    "m_hcc_version t = m_hcc_version c" "map fst (m_ABCchips t) = map fst (m_ABCchips c)"
    "getABCRegisterByID t a i = Inr v"
    "b \<noteq> a \<or> abcFromChipID c j \<noteq> abcFromChipID c i \<Longrightarrow> getABCRegisterByID t b j = getABCRegisterByID c b j"
proof -
  from setByID_Inr [OF assms] obtain ic where
    ic: "abcFromChipID c i = Inr ic" "chan_put ic c a v = Inr t" "chan_ok ic c" by blast
  note p = chan_put_Inr [OF assms(1) ic(2)]
  show "cfg_ok t" "chip_ids t = chip_ids c" "m_hcc t = m_hcc c" "m_abc_version t = m_abc_version c"
    "m_hcc_version t = m_hcc_version c" "map fst (m_ABCchips t) = map fst (m_ABCchips c)"
    by (rule p)+
  have same: "abcFromChipID t j = abcFromChipID c j" for j by (simp add: abcFromChipID_ids p(3))
  note q = chan.put_Inr [OF ic(3,2)]
  show "getABCRegisterByID t a i = Inr v" by (simp add: by_ID same ic(1) q(4))
  assume d: "b \<noteq> a \<or> abcFromChipID c j \<noteq> abcFromChipID c i"
  show "getABCRegisterByID t b j = getABCRegisterByID c b j"
  proof (cases "abcFromChipID c j")
    case (Inr k)
    have "chan_get k t b = chan_get k c b"
    proof (cases "k = ic")
      case True
      with d ic(1) Inr have "b \<noteq> a" by auto
      from q(5) [OF this] True show ?thesis by simp
    qed (rule chan_get_other [OF assms(1) ic(2)])
    then show ?thesis by (simp add: by_ID same Inr)
  qed (simp add: by_ID same)
qed

lemma setByID_faults:
  assumes "cfg_ok c" and "setABCRegisterByID c a v i = Inl e"
  shows "e = (if i \<in> fst ` set (chip_ids c) then Out_Of_Range else Undefined)"
    "getABCRegisterByID c a i = Inl e"
proof -
  have "e = (if i \<in> fst ` set (chip_ids c) then Out_Of_Range else Undefined) \<and> getABCRegisterByID c a i = Inl e"
  proof (cases "map_of (chip_ids c) i")
    case None
    then have "i \<notin> fst ` set (chip_ids c)" by (simp add: map_of_eq_None_iff)
    with assms(2) None show ?thesis by (simp add: by_ID abcFromChipID_ids)
  next
    case (Some ic)
    then have i: "i \<in> fst ` set (chip_ids c)" by (auto dest: map_of_SomeD intro: rev_image_eqI)
    from chip_ids_at [OF assms(1) Some] assms(1) have ok: "chan_ok ic c" by (auto simp: chan_ok_def)
    have "a \<notin> chan_addrs ic c"
      using chan.put_in [OF ok, of a v] assms(2) by (auto simp: by_ID abcFromChipID_ids Some)
    with chan.put_out [OF ok this, of v] chan.get_out [OF ok this] assms(2) i show ?thesis
      by (simp add: by_ID abcFromChipID_ids Some)
  qed
  then show "e = (if i \<in> fst ` set (chip_ids c) then Out_Of_Range else Undefined)"
    "getABCRegisterByID c a i = Inl e" by blast+
qed


text \<open>Fields of the HCC.\<close>

lemma setHCCSub_store:
  "setHCCSubRegisterValue c r x =
   (case hccSubRegisterMap_all (hcc_info (m_hcc c)) r of None \<Rightarrow> Inl Runtime_Error
    | Some i \<Rightarrow> rbind (getHCCRegister c (m_regAddress i)) (\<lambda>v.
        rbind (sub_updateValue i x v) (setHCCRegister c (m_regAddress i))))"
  by (auto simp: setHCCSubRegisterValue_def hcc_setSub_store getHCCRegister_def [abs_def]
      setHCCRegister_def [abs_def] rbind_assoc split: option.split)

lemma getHCCSub_store:
  "getHCCSubRegisterValue c r =
   (case hccSubRegisterMap_all (hcc_info (m_hcc c)) r of None \<Rightarrow> Inl Runtime_Error
    | Some i \<Rightarrow> rbind (getHCCRegister c (m_regAddress i)) (\<lambda>v. Inr (sub_getValue i v)))"
  by (simp add: getHCCSubRegisterValue_def hcc_getSub_store getHCCRegister_def [abs_def] cong: option.case_cong)

lemma setHCC_frame:
  "setHCCRegister c a v = Inr t \<Longrightarrow> m_ABCchips t = m_ABCchips c \<and> m_abc_version t = m_abc_version c \<and>
     m_hcc_version t = m_hcc_version c \<and> m_fuse_id t = m_fuse_id c"
  by (auto simp: setHCCRegister_def rbind_eq_Inr_iff)

lemma setHCCSub_ok:
  assumes "cfg_ok c" and i: "hccSubRegisterMap_all (hcc_info (m_hcc c)) r = Some i"
    and "take_bit (m_width i) x = x"
  obtains t where "setHCCSubRegisterValue c r x = Inr t" "cfg_ok t" "getHCCSubRegisterValue t r = Inr x"
    "\<And>q. q \<noteq> r \<Longrightarrow> getHCCSubRegisterValue t q = getHCCSubRegisterValue c q"
    "\<And>b. b \<noteq> m_regAddress i \<Longrightarrow> getHCCRegister t b = getHCCRegister c b"
    "m_ABCchips t = m_ABCchips c" "hccSubRegisterMap_all (hcc_info (m_hcc t)) = hccSubRegisterMap_all (hcc_info (m_hcc c))"
proof -
  from cfg_hcc.set_field_ok [OF assms] obtain v y t where
    t: "getHCCRegister c (m_regAddress i) = Inr v" "sub_updateValue i x v = Inr y"
      "setHCCRegister c (m_regAddress i) y = Inr t" by blast
  note laws = cfg_hcc.set_field_laws [OF assms(1,2) t]
  have "getHCCSubRegisterValue t q = getHCCSubRegisterValue c q" if "q \<noteq> r" for q
    using laws(2) laws(5) [OF _ that] by (simp add: getHCCSub_store split: option.split)
  then show thesis
    using t laws(1,2,4,6) setHCC_frame [OF t(3)] i by (intro that [of t]) (simp_all add: setHCCSub_store getHCCSub_store)
qed

section \<open>Loops over the ABCs\<close>

text \<open>What a loop over the ABCs leaves untouched.\<close>

definition same_shape :: "StarCfg \<Rightarrow> StarCfg \<Rightarrow> bool" where
  "same_shape c t \<longleftrightarrow> map fst (m_ABCchips t) = map fst (m_ABCchips c) \<and> chip_ids t = chip_ids c \<and>
     m_hcc t = m_hcc c \<and> m_abc_version t = m_abc_version c \<and> m_hcc_version t = m_hcc_version c \<and>
     m_fuse_id t = m_fuse_id c"

lemma same_shape_refl [simp]: "same_shape c c"
  by (simp add: same_shape_def)

lemma same_shape_trans: "same_shape c d \<Longrightarrow> same_shape d e \<Longrightarrow> same_shape c e"
  by (simp add: same_shape_def)

lemma withAbc_laws:
  assumes "cfg_ok c" and "abc_at c ic = Some abc" and "f abc = Inr abc'" and "abc_ok abc'"
    and "m_abcID abc' = m_abcID abc"
  shows "withAbc ic f c = Inr (putAbc c ic abc')" "cfg_ok (putAbc c ic abc')" "same_shape c (putAbc c ic abc')"
  using assms putAbc_ok [OF assms(1) cfg_ok_abc(1) [OF assms(1,2)] assms(4)]
    putAbc_keys [OF assms(1,2), of abc'] putAbc_ids [OF assms(1,2,5)]
  by (simp_all add: withAbc_def same_shape_def)

lemma fold_withAbc:
  assumes "cfg_ok c" and "distinct ks" and "\<And>ic. ic \<in> set ks \<Longrightarrow>
    \<exists>abc abc'. abc_at c ic = Some abc \<and> f abc = Inr abc' \<and> abc_ok abc' \<and> m_abcID abc' = m_abcID abc"
  obtains t where "rfold (\<lambda>ic. withAbc ic f) ks c = Inr t" "cfg_ok t" "same_shape c t"
    "\<And>ic. ic \<notin> set ks \<Longrightarrow> abc_at t ic = abc_at c ic"
    "\<And>ic abc abc'. ic \<in> set ks \<Longrightarrow> abc_at c ic = Some abc \<Longrightarrow> f abc = Inr abc' \<Longrightarrow> abc_at t ic = Some abc'"
  using assms
proof (induction ks arbitrary: c thesis)
  case Nil
  then show ?case by simp
next
  case (Cons k ks)
  from Cons.prems(4) [of k] obtain abc abc' where
    k: "abc_at c k = Some abc" "f abc = Inr abc'" "abc_ok abc'" "m_abcID abc' = m_abcID abc" by auto
  note w = withAbc_laws [where f = f, OF Cons.prems(2) k]
  have other: "abc_at (putAbc c k abc') ic = abc_at c ic" if "ic \<in> set ks" for ic
    using that Cons.prems(3) by auto
  show ?case
  proof (rule Cons.IH [of "putAbc c k abc'"])
    show "cfg_ok (putAbc c k abc')" "distinct ks" using w(2) Cons.prems(3) by simp_all
    show "\<exists>abc abc''. abc_at (putAbc c k abc') ic = Some abc \<and> f abc = Inr abc'' \<and> abc_ok abc'' \<and>
        m_abcID abc'' = m_abcID abc" if "ic \<in> set ks" for ic
      using Cons.prems(4) [of ic] other [OF that] that by simp
    fix t
    assume t: "rfold (\<lambda>ic. withAbc ic f) ks (putAbc c k abc') = Inr t" "cfg_ok t" "same_shape (putAbc c k abc') t"
      "\<And>ic. ic \<notin> set ks \<Longrightarrow> abc_at t ic = abc_at (putAbc c k abc') ic"
      "\<And>ic abc b. ic \<in> set ks \<Longrightarrow> abc_at (putAbc c k abc') ic = Some abc \<Longrightarrow> f abc = Inr b \<Longrightarrow> abc_at t ic = Some b"
    show thesis
    proof (rule Cons.prems(1) [OF _ t(2)])
      show "rfold (\<lambda>ic. withAbc ic f) (k # ks) c = Inr t" using w(1) t(1) by simp
      show "same_shape c t" by (rule same_shape_trans [OF w(3) t(3)])
      show "abc_at t ic = abc_at c ic" if "ic \<notin> set (k # ks)" for ic using t(4) [of ic] that by simp
      show "abc_at t ic = Some b" if "ic \<in> set (k # ks)" "abc_at c ic = Some a" "f a = Inr b" for ic a b
      proof (cases "ic = k")
        case True
        with that k Cons.prems(3) t(4) [of ic] show ?thesis by simp
      next
        case False
        with that t(5) [of ic a b] other [of ic] show ?thesis by simp
      qed
    qed
  qed
qed

lemma eachAbc_withAbc:
  assumes "cfg_ok c" and "\<And>ic abc. abc_at c ic = Some abc \<Longrightarrow>
    \<exists>abc'. f abc = Inr abc' \<and> abc_ok abc' \<and> m_abcID abc' = m_abcID abc"
  obtains t where "eachAbc (\<lambda>ic. withAbc ic f) c c = Inr t" "cfg_ok t" "same_shape c t"
    "\<And>ic. abc_at t ic = (case abc_at c ic of None \<Rightarrow> None | Some abc \<Rightarrow> (case f abc of Inr a \<Rightarrow> Some a | Inl _ \<Rightarrow> None))"
proof -
  have ok: "omap_ok (m_ABCchips c)" using assms(1) by (simp add: cfg_ok_def)
  have mem: "ic \<in> fst ` set (m_ABCchips c) \<longleftrightarrow> abc_at c ic \<noteq> None" for ic
    by (simp add: map_of_eq_None_iff)
  have ex: "\<exists>abc abc'. abc_at c ic = Some abc \<and> f abc = Inr abc' \<and> abc_ok abc' \<and> m_abcID abc' = m_abcID abc"
    if "ic \<in> set (map fst (m_ABCchips c))" for ic
    using that mem [of ic] assms(2) by auto
  obtain t where
    t: "rfold (\<lambda>ic. withAbc ic f) (map fst (m_ABCchips c)) c = Inr t" "cfg_ok t" "same_shape c t"
    "\<And>ic. ic \<notin> set (map fst (m_ABCchips c)) \<Longrightarrow> abc_at t ic = abc_at c ic"
    "\<And>ic abc abc'. ic \<in> set (map fst (m_ABCchips c)) \<Longrightarrow> abc_at c ic = Some abc \<Longrightarrow> f abc = Inr abc' \<Longrightarrow> abc_at t ic = Some abc'"
    by (rule fold_withAbc [OF assms(1) omap_ok_distinct [OF ok], of f]) (erule ex, rule that)
  show thesis
  proof (rule that [OF _ t(2,3)])
    show "eachAbc (\<lambda>ic. withAbc ic f) c c = Inr t" using t(1) by (simp add: eachAbc_def)
    show "abc_at t ic = (case abc_at c ic of None \<Rightarrow> None | Some abc \<Rightarrow> (case f abc of Inr a \<Rightarrow> Some a | Inl _ \<Rightarrow> None))" for ic
    proof (cases "abc_at c ic")
      case None
      with t(4) [of ic] mem [of ic] show ?thesis by simp
    next
      case (Some abc)
      from assms(2) [OF Some] obtain abc' where "f abc = Inr abc'" by blast
      with t(5) [of ic abc abc'] mem [of ic] Some show ?thesis by simp
    qed
  qed
qed


section \<open>Construction, adding an ABC, unmasking\<close>

lemma new_StarCfg_ok:
  assumes "a \<le> 1" and "h \<le> 1"
  obtains c where "new_StarCfg a h = Inr c" "cfg_ok c" "m_ABCchips c = []" "m_abc_version c = a" "m_hcc_version c = h"
    "hccSubRegisterMap_all (hcc_info (m_hcc c)) = hcc_fields h" "new_HccCfg h = Inr (m_hcc c)"
proof -
  obtain ai where ai: "abc_instance a = Inr ai" by (rule abc_instance_spec)
  obtain hi where hi: "hcc_instance h = Inr hi" by (rule hcc_instance_spec)
  obtain hc where hc: "new_HccCfg h = Inr hc" "hcc_ok hc" "hccSubRegisterMap_all (hcc_info hc) = hcc_fields h"
    using new_HccCfg_hcc_ok [OF assms(2)] by blast
  let ?c = "\<lparr>m_abc_info = ai, m_hcc_info = hi, m_fuse_id = 0, m_abc_version = a,
            m_hcc_version = h, m_hcc = hc, m_ABCchips = []\<rparr>"
  have "new_StarCfg a h = Inr ?c" by (simp add: new_StarCfg_def ai hi hc)
  moreover have "cfg_ok ?c" using assms hc by (simp add: cfg_ok_def)
  ultimately show thesis
    using hc by (intro that [of ?c]) simp_all
qed

lemma abc_ok_ID [simp]: "abc_ok (abc\<lparr>m_abcID := i\<rparr>) = abc_ok abc"
  by (simp add: abc_ok_def abc_vec.vwf_def)

lemma addABC_spec:
  assumes "cfg_ok c" and "ic < MaxABCsPerHCC"
  obtains t new where "new_AbcCfg (m_abc_version c) = Inr new" "addABCchipID_at c i ic = Inr t" "cfg_ok t"
    "abc_at t = (abc_at c)(ic \<mapsto> (case abc_at c ic of None \<Rightarrow> new | Some old \<Rightarrow> old)\<lparr>m_abcID := i\<rparr>)"
    "m_hcc t = m_hcc c"
proof -
  from assms(1) have v: "m_abc_version c \<le> 1" by (simp add: cfg_ok_def)
  obtain new where new: "new_AbcCfg (m_abc_version c) = Inr new" "abc_ok new"
    using new_AbcCfg_abc_ok [OF v] by blast
  let ?abc = "(case abc_at c ic of None \<Rightarrow> new | Some old \<Rightarrow> old)"
  let ?e = "c\<lparr>m_ABCchips := omap_emplace ic new (m_ABCchips c)\<rparr>"
  have e: "cfg_ok ?e"
    using assms new(2) set_omap_put [of ic new "m_ABCchips c"]
    unfolding cfg_ok_def by (auto simp: omap_emplace_laws omap_emplace_def split: option.splits)
  have at: "abc_at ?e ic = Some ?abc"
    using assms(1) by (simp add: cfg_ok_def omap_emplace_laws split: option.split)
  have ok: "abc_ok (?abc\<lparr>m_abcID := i\<rparr>)" using cfg_ok_abc(2) [OF e at] by simp
  have r1: "addABCchipID_at c i ic = Inr (putAbc ?e ic (?abc\<lparr>m_abcID := i\<rparr>))"
    using at by (simp add: addABCchipID_at_def new(1) Let_def putAbc_def)
  have r2: "cfg_ok (putAbc ?e ic (?abc\<lparr>m_abcID := i\<rparr>))"
    by (rule putAbc_ok [OF e assms(2) ok])
  have r3: "abc_at (putAbc ?e ic (?abc\<lparr>m_abcID := i\<rparr>)) = (abc_at c)(ic \<mapsto> ?abc\<lparr>m_abcID := i\<rparr>)"
    using assms(1) by (auto simp: fun_eq_iff omap_emplace_laws cfg_ok_def)
  show thesis by (rule that [OF new(1) r1 r2 r3]) simp
qed

lemma rfold_map: "rfold f (map g xs) s = rfold (\<lambda>x. f (g x)) xs s"
  by (induction xs arbitrary: s) (auto simp: rbind_def split: sum.split)

lemma map_of_rev_const: "map_of (rev (map (\<lambda>m. (g m, v)) xs)) a = (if a \<in> g ` set xs then Some v else None)"
  by (induction xs) (auto simp: map_add_def)

definition unmask :: "AbcCfg \<Rightarrow> AbcCfg result" where
  "unmask abc = rfold (\<lambda>m abc. abc_setRegisterValue abc (MaskInput m) 0) [0..<8] abc"

lemma unmask_spec:
  assumes "abc_ok abc"
  obtains t where "unmask abc = Inr t" "abc_ok t" "m_abcID t = m_abcID abc"
    "\<And>a. abc_getRegisterValue t a = (if a \<in> MaskInput ` {..<8} then Inr 0 else abc_getRegisterValue abc a)"
proof -
  let ?avs = "map (\<lambda>m. (MaskInput m, 0 :: u32)) [0..<8]"
  have "\<forall>(a, v) \<in> set ?avs. a \<in> abc_addrs abc" using abc_ok_addrs(1) [OF assms] by auto
  then obtain t where
    t: "rfold (\<lambda>(a, v) c. abc_setRegisterValue c a v) ?avs abc = Inr t"
    "\<And>a. abc_getRegisterValue t a = (case map_of (rev ?avs) a of Some v \<Rightarrow> Inr v | None \<Rightarrow> abc_getRegisterValue abc a)"
    by (rule abc.put_list [OF abc_ok_wf [OF assms]]) (rule that)
  have inv: "abc_ok t \<and> m_abcID t = m_abcID abc"
  proof (rule rfold_invariant [OF t(1), of "\<lambda>t. abc_ok t \<and> m_abcID t = m_abcID abc"])
    fix x s t
    assume "abc_ok s \<and> m_abcID s = m_abcID abc" "(case x of (a, v) \<Rightarrow> \<lambda>c. abc_setRegisterValue c a v) s = Inr t"
    then show "abc_ok t \<and> m_abcID t = m_abcID abc"
      using abc_set_ok abc_set_ID by (cases x) fastforce
  qed (simp add: assms)
  have fold: "unmask abc = Inr t"
    using t(1) by (simp only: unmask_def rfold_map prod.case)
  have vals: "abc_getRegisterValue t a = (if a \<in> MaskInput ` {..<8} then Inr 0 else abc_getRegisterValue abc a)" for a
  proof -
    have "map_of (rev ?avs) a = (if a \<in> MaskInput ` {..<8} then Some 0 else None)"
      by (subst map_of_rev_const) (auto simp: atLeast0LessThan)
    with t(2) [of a] show ?thesis by simp
  qed
  show thesis using inv by (intro that [OF fold _ _ vals]) simp_all
qed

lemma eachAbc_rest:
  assumes "eachAbc (\<lambda>ic. withAbc ic f) c s = Inr t"
  shows "t = s\<lparr>m_ABCchips := m_ABCchips t\<rparr>"
proof (rule rfold_invariant [OF assms [unfolded eachAbc_def], of "\<lambda>t. t = s\<lparr>m_ABCchips := m_ABCchips t\<rparr>"])
  fix ic u v
  assume u: "u = s\<lparr>m_ABCchips := m_ABCchips u\<rparr>" and "withAbc ic f u = Inr v"
  then obtain abc where "v = putAbc u ic abc" by (auto simp: withAbc_def rbind_def split: option.splits sum.splits)
  then have "v = u\<lparr>m_ABCchips := m_ABCchips v\<rparr>" by (simp add: putAbc_def)
  with u show "v = s\<lparr>m_ABCchips := m_ABCchips v\<rparr>" by (cases u; cases v; cases s) simp
qed simp

lemma enableAll_each: "enableAll c = eachAbc (\<lambda>ic. withAbc ic unmask) c c"
  by (simp add: enableAll_def unmask_def [abs_def])


lemma slots_inj:
  fixes en :: u32
  assumes "card {k. k < 11 \<and> bit en k \<and> (if b then k < i else i < k)} = card {k. k < 11 \<and> bit en k \<and> (if b then k < j else j < k)}"
    and "i < 11" "j < 11" "bit en i" "bit en j"
  shows "i = j"
proof (rule ccontr)
  let ?S = "\<lambda>i. {k. k < 11 \<and> bit en k \<and> (if b then k < i else i < k)}"
  have less: "card (?S i) < card (?S j)" if "if b then i < j else j < i" "i < 11" "bit en i" for i j
    by (rule psubset_card_mono) (use that in \<open>auto split: if_splits\<close>)
  assume "i \<noteq> j"
  then consider "if b then i < j else j < i" | "if b then j < i else i < j" by (cases b) (auto simp: nat_neq_iff)
  then show False
    using less [of i j] less [of j i] assms by cases auto
qed

lemma histo_slots:
  assumes "hcc_ok h" and "histoChipMap h = Inr m"
  shows "length m = 11"
    and "i < 11 \<Longrightarrow> j < 11 \<Longrightarrow> m ! i \<noteq> 15 \<Longrightarrow> m ! j = m ! i \<Longrightarrow> i = j"
    and "hcc_getSubRegisterValue h ''ICENABLE'' = Inr en \<Longrightarrow> i < 11 \<Longrightarrow> m ! i = 15 \<longleftrightarrow> \<not> bit en i"
proof -
  from histoChipMap_value [OF assms(1)] obtain e where
    e: "hcc_getSubRegisterValue h ''ICENABLE'' = Inr e" and
    m: "m = map (\<lambda>i. if bit e i
        then of_nat (card {j. j < 11 \<and> bit e j \<and> (if length (hcc_registerSet h) = 29 then j < i else i < j)})
        else 15) [0..<11]"
    using assms(2) by auto
  let ?S = "\<lambda>i. {j. j < 11 \<and> bit e j \<and> (if length (hcc_registerSet h) = 29 then j < i else i < j)}"
  have small: "card (?S i) < 11" if "i < 11" for i
  proof -
    have "card (?S i) < card {..<11 :: nat}"
      by (rule psubset_card_mono) (use that in \<open>auto split: if_splits\<close>)
    then show ?thesis by simp
  qed
  then have word: "unat (of_nat (card (?S i)) :: u8) = card (?S i)" if "i < 11" for i
    using small [OF that] by (simp add: unat_of_nat)
  have at: "m ! i = (if bit e i then of_nat (card (?S i)) else 15)" if "i < 11" for i
    using that by (simp add: m)
  have ne15: "(of_nat (card (?S i)) :: u8) \<noteq> 15" if "i < 11" for i
  proof
    assume "(of_nat (card (?S i)) :: u8) = 15"
    then have "unat (of_nat (card (?S i)) :: u8) = unat (15 :: u8)" by (rule arg_cong)
    with word [OF that] small [OF that] show False by simp
  qed
  show "length m = 11" by (simp add: m)
  show "i < 11 \<Longrightarrow> j < 11 \<Longrightarrow> m ! i \<noteq> 15 \<Longrightarrow> m ! j = m ! i \<Longrightarrow> i = j"
    using at [of i] at [of j] word [of i] word [of j] slots_inj [of e "length (hcc_registerSet h) = 29" j i]
    by (metis (no_types, lifting))
  show "i < 11 \<Longrightarrow> m ! i = 15 \<longleftrightarrow> \<not> bit en i" if "hcc_getSubRegisterValue h ''ICENABLE'' = Inr en"
    using that e at [of i] ne15 [of i] by (auto split: if_splits)
qed


lemma example_config:
  obtains d where "cfg_ok d" "map_of (chip_ids d) 3 = Some 7" "chan_ok 7 d" "16 \<in> chan_addrs 7 d"
proof -
  obtain c where c: "new_StarCfg 1 1 = Inr c" "cfg_ok c" "m_ABCchips c = []"
    by (rule new_StarCfg_ok [of 1 1]) auto
  have ic: "(7 :: nat) < MaxABCsPerHCC" by (simp add: MaxABCsPerHCC_def)
  obtain d new where d: "cfg_ok d" "abc_at d = (abc_at c)(7 \<mapsto> (case abc_at c 7 of None \<Rightarrow> new | Some old \<Rightarrow> old)\<lparr>m_abcID := 3\<rparr>)"
    by (rule addABC_spec [OF c(2) ic, of 3]) (rule that)
  then have at: "abc_at d 7 = Some (new\<lparr>m_abcID := 3\<rparr>)" using c(3) by simp
  then have "(3, 7) \<in> set (chip_ids d)" by (force simp: chip_ids_def dest: map_of_SomeD)
  moreover have "ic = 7" if "(i, ic) \<in> set (chip_ids d)" for i ic
  proof -
    from that obtain abc where "(ic, abc) \<in> set (m_ABCchips d)" by (auto simp: chip_ids_def)
    then have "abc_at d ic = Some abc" using d(1) by (simp add: cfg_ok_def omap_set_iff)
    with d(2) c(3) show ?thesis by (simp split: if_splits)
  qed
  ultimately have id: "map_of (chip_ids d) 3 = Some 7"
    by (metis map_of_SomeD not_None_eq weak_map_of_SomeI)
  from at d(1) have ok: "chan_ok 7 d" by (simp add: chan_ok_def)
  have "16 \<in> chan_addrs 7 d"
    using abc_ok_addrs(1) [OF cfg_ok_abc(2) [OF d(1) at], of 0] by (simp add: chan_addrs_def at MaskInput_def)
  show thesis by (rule that [OF d(1) id ok \<open>16 \<in> chan_addrs 7 d\<close>])
qed

section \<open>Properties\<close>

text \<open>Adding an ABC to an input channel: a new ABC gets the registers of a newly constructed
  one, an ABC that is already there keeps its registers (\<open>emplace\<close> does not replace it), either has
  the given identifier afterwards, other channels and the HCC are untouched, and the
  configuration stays well formed.\<close>

theorem add_ABC:
  assumes "cfg_ok c" and "ic < MaxABCsPerHCC"
  shows "case (new_AbcCfg (m_abc_version c), addABCchipID_at c i ic) of
      (Inr new, Inr t) \<Rightarrow> cfg_ok t \<and> m_hcc t = m_hcc c \<and> isAbcForInputChannel t ic = Inr True \<and>
        abcForInputChannel t (int ic) =
          Inr ((case abc_at c ic of None \<Rightarrow> new | Some old \<Rightarrow> old)\<lparr>m_abcID := i\<rparr>) \<and>
        (\<forall>k. k \<noteq> ic \<longrightarrow> abc_at t k = abc_at c k)
    | _ \<Rightarrow> False"
proof -
  obtain t new where t: "new_AbcCfg (m_abc_version c) = Inr new" "addABCchipID_at c i ic = Inr t" "cfg_ok t"
    "abc_at t = (abc_at c)(ic \<mapsto> (case abc_at c ic of None \<Rightarrow> new | Some old \<Rightarrow> old)\<lparr>m_abcID := i\<rparr>)"
    "m_hcc t = m_hcc c"
    by (rule addABC_spec [OF assms]) (rule that)
  then have "abc_at t ic = Some ((case abc_at c ic of None \<Rightarrow> new | Some old \<Rightarrow> old)\<lparr>m_abcID := i\<rparr>)" by simp
  from abcForInputChannel_at [OF t(3) this] isAbc_iff [OF t(3) assms(2)] this t show ?thesis by simp
qed

theorem add_ABC_witness:
  "\<exists>c t. new_StarCfg 1 1 = Inr c \<and> addABCchipID_at c 3 7 = Inr t \<and> isAbcForInputChannel t 7 = Inr True"
proof -
  obtain c where c: "new_StarCfg 1 1 = Inr c" "cfg_ok c" by (rule new_StarCfg_ok [of 1 1]) auto
  have "(7 :: nat) < MaxABCsPerHCC" by (simp add: MaxABCsPerHCC_def)
  from add_ABC [OF c(2) this, of 3] c(1) show ?thesis by (auto split: sum.splits)
qed

text \<open>C33: Reading and writing ABC registers by chip identifier: a write is read back, every other
  register of every chip keeps its value and the set of chips stays the same; a write that
  fails is one to an identifier no chip has (where the code dereferences \<open>end()\<close>) or to a register
  the chip does not have, and then reading fails in the same way.\<close>

theorem ABC_register_by_ID:
  assumes "cfg_ok c"
  shows "case setABCRegisterByID c a v i of
      Inr t \<Rightarrow> cfg_ok t \<and> chip_ids t = chip_ids c \<and> m_hcc t = m_hcc c \<and> getABCRegisterByID t a i = Inr v \<and>
        (\<forall>b j. \<not> (b = a \<and> abcFromChipID c j = abcFromChipID c i) \<longrightarrow>
           getABCRegisterByID t b j = getABCRegisterByID c b j)
    | Inl e \<Rightarrow> e = (if i \<in> fst ` set (chip_ids c) then Out_Of_Range else Undefined) \<and>
        getABCRegisterByID c a i = Inl e"
proof (cases "setABCRegisterByID c a v i")
  case (Inl e)
  from setByID_faults [OF assms Inl] Inl show ?thesis by simp
next
  case (Inr t)
  from setByID_laws [OF assms Inr] Inr show ?thesis by auto
qed

theorem ABC_register_by_ID_witness:
  "\<exists>c t. cfg_ok c \<and> setABCRegisterByID c 16 0xff 3 = Inr t \<and> getABCRegisterByID t 16 3 = Inr 0xff"
proof -
  obtain d where d: "cfg_ok d" "map_of (chip_ids d) 3 = Some 7" "chan_ok 7 d" "16 \<in> chan_addrs 7 d" by (rule example_config)
  from chan.put_in [OF d(3,4), of "0xff"] obtain t where "setABCRegisterByID d 16 0xff 3 = Inr t"
    by (auto simp: by_ID abcFromChipID_ids d(2))
  with ABC_register_by_ID [OF d(1), where a = 16 and v = "0xff" and i = 3] d(1) show ?thesis by auto
qed

text \<open>C34: \<open>enableAll\<close> never fails on a well-formed configuration and changes nothing but the masks:
  afterwards the eight mask registers of every ABC are zero, so that every strip is unmasked, every
  other register of every ABC reads as before (those with the trims among them), an access to a
  register an ABC lacks fails as before, and identifiers, input channels, the HCC and all other
  members of the configuration are the same.\<close>

theorem enableAll_unmasks:
  assumes "cfg_ok c"
  shows "\<exists>t. enableAll c = Inr t \<and> cfg_ok t \<and> same_shape c t \<and> t = c\<lparr>m_ABCchips := m_ABCchips t\<rparr> \<and>
    (\<forall>ic a. readAbc ic (\<lambda>abc. abc_getRegisterValue abc a) t =
       (if abc_at c ic \<noteq> None \<and> a \<in> MaskInput ` {..<8} then Inr 0
        else readAbc ic (\<lambda>abc. abc_getRegisterValue abc a) c)) \<and>
    (\<forall>ic ch. readAbc ic (\<lambda>abc. isMasked abc ch) t = (if abc_at c ic = None then Inl Undefined else Inr False) \<and>
       readAbc ic (\<lambda>abc. getTrimDACRaw abc ch) t = readAbc ic (\<lambda>abc. getTrimDACRaw abc ch) c)"
proof -
  have un: "\<exists>abc'. unmask abc = Inr abc' \<and> abc_ok abc' \<and> m_abcID abc' = m_abcID abc"
    if "abc_at c ic = Some abc" for ic abc
    using unmask_spec [OF cfg_ok_abc(2) [OF assms that]] by metis
  obtain t where t: "eachAbc (\<lambda>ic. withAbc ic unmask) c c = Inr t" "cfg_ok t" "same_shape c t"
    "\<And>ic. abc_at t ic = (case abc_at c ic of None \<Rightarrow> None | Some abc \<Rightarrow> (case unmask abc of Inr a \<Rightarrow> Some a | Inl _ \<Rightarrow> None))"
    by (rule eachAbc_withAbc [OF assms, of unmask]) (erule un, rule that)
  have each: "readAbc ic (\<lambda>abc. abc_getRegisterValue abc a) t =
        (if abc_at c ic \<noteq> None \<and> a \<in> MaskInput ` {..<8} then Inr 0 else readAbc ic (\<lambda>abc. abc_getRegisterValue abc a) c) \<and>
      readAbc ic (\<lambda>abc. isMasked abc ch) t = (if abc_at c ic = None then Inl Undefined else Inr False) \<and>
      readAbc ic (\<lambda>abc. getTrimDACRaw abc ch) t = readAbc ic (\<lambda>abc. getTrimDACRaw abc ch) c" for ic a ch
  proof (cases "abc_at c ic")
    case None
    with t(4) [of ic] show ?thesis by (simp add: readAbc_def)
  next
    case (Some abc)
    obtain abc' where a: "unmask abc = Inr abc'"
      "\<And>a. abc_getRegisterValue abc' a = (if a \<in> MaskInput ` {..<8} then Inr 0 else abc_getRegisterValue abc a)"
      by (rule unmask_spec [OF cfg_ok_abc(2) [OF assms Some]]) (rule that)
    have ne: "TrimLo k \<notin> MaskInput ` {..<8}" "TrimHi k \<notin> MaskInput ` {..<8}" for k
      by (auto simp: TrimLo_def TrimHi_def MaskInput_def)
    have "isMasked abc' ch = Inr False" using mask_reg_lt(1) [of ch] by (simp add: isMasked_value a(2))
    moreover have "getTrimDACRaw abc' ch = getTrimDACRaw abc ch" by (simp add: getTrimDACRaw_def Let_def a(2) ne)
    ultimately show ?thesis using t(4) [of ic] Some a by (simp add: readAbc_def)
  qed
  have "t = c\<lparr>m_ABCchips := m_ABCchips t\<rparr>" by (rule eachAbc_rest [OF t(1)])
  with t(1-3) each show ?thesis unfolding enableAll_each by blast
qed

theorem enableAll_unmasks_witness:
  "\<exists>c t. cfg_ok c \<and> getABCRegisterByID c 16 3 = Inr 0xff \<and> enableAll c = Inr t \<and>
     readAbc 7 (\<lambda>abc. abc_getRegisterValue abc 16) t = Inr 0"
proof -
  obtain d where d: "cfg_ok d" "map_of (chip_ids d) 3 = Some 7" "chan_ok 7 d" "16 \<in> chan_addrs 7 d" by (rule example_config)
  from chan.put_in [OF d(3,4), of "0xff"] obtain c where c: "setABCRegisterByID d 16 0xff 3 = Inr c"
    by (auto simp: by_ID abcFromChipID_ids d(2))
  note l = setByID_laws [OF d(1) c]
  have "map_of (chip_ids c) 3 = Some 7" using l d(2) by simp
  from chip_ids_at [OF l(1) this] have "abc_at c 7 \<noteq> None" by auto
  moreover have "16 \<in> MaskInput ` {..<8}" by (simp add: MaskInput_def image_iff)
  ultimately show ?thesis using enableAll_unmasks [of c] l by auto
qed

text \<open>C35: Histogram slots and input channels: the channel that the map sends to a slot is the one
  \<open>inputChannelForHistoChip\<close> finds for the slot, and a number that is no entry of the map has no
  channel, on which \<open>abcForHistoChip\<close> aborts. (The bad slot is an entry as well: asking for it finds
  the first disabled channel.)\<close>

theorem histo_slot_roundtrip:
  assumes "cfg_ok c" and "histoChipMap (m_hcc c) = Inr m"
  shows "(\<forall>i. i < 11 \<and> m ! i \<noteq> 15 \<longrightarrow> inputChannelForHistoChip c (unat (m ! i)) = Inr (int i)) \<and>
    (\<forall>k. k \<notin> unat ` set m \<longrightarrow> inputChannelForHistoChip c k = Inr (- 1) \<and> abcForHistoChip c k = Inl Aborted)"
proof (intro conjI allI impI; (elim conjE)?)
  note s = histo_slots [OF cfg_ok_hcc [OF assms(1)] assms(2)]
  have f: "find (\<lambda>i. unat (m ! i) = k) [0..<length m] = None \<longleftrightarrow> k \<notin> unat ` set m" for k
  proof -
    have "unat ` set m = (\<lambda>j. unat (m ! j)) ` {..<length m}"
      by (simp add: set_conv_nth) (auto simp: image_iff)
    then show ?thesis by (auto simp: find_None_iff)
  qed
  show "inputChannelForHistoChip c (unat (m ! i)) = Inr (int i)" if "i < 11" "m ! i \<noteq> 15" for i
  proof (cases "find (\<lambda>j. unat (m ! j) = unat (m ! i)) [0..<length m]")
    case None
    with f [of "unat (m ! i)"] that s(1) show ?thesis by simp
  next
    case (Some j)
    then have j: "j < 11" "unat (m ! j) = unat (m ! i)" using s(1) by (auto simp: find_Some_iff)
    from j(2) have "m ! j = m ! i" by (rule unsigned_word_eqI)
    from s(2) [OF that(1) j(1) that(2) this] have "j = i" by simp
    with Some have "find (\<lambda>j. unat (m ! j) = unat (m ! i)) [0..<length m] = Some i" by (simp only:)
    then show ?thesis by (simp only: inputChannelForHistoChip_def assms(2) rbind_Inr option.case)
  qed
  show "inputChannelForHistoChip c k = Inr (- 1)" if "k \<notin> unat ` set m" for k
    using that f [of k] by (simp add: inputChannelForHistoChip_def assms(2))
  then show "abcForHistoChip c k = Inl Aborted" if "k \<notin> unat ` set m" for k
    using that by (simp add: abcForHistoChip_def abcForInputChannel_def abcFromIndex_def
        isAbcForInputChannel_def MaxABCsPerHCC_def)
qed

theorem histo_slot_roundtrip_witness:
  "\<exists>c m. cfg_ok c \<and> histoChipMap (m_hcc c) = Inr m \<and> inputChannelForHistoChip c (unat (m ! 2)) = Inr 2"
proof -
  obtain c where c: "cfg_ok c" "hccSubRegisterMap_all (hcc_info (m_hcc c)) = hcc_fields 1"
    by (rule new_StarCfg_ok [of 1 1]) auto
  have f: "hcc_fields 1 ''ICENABLE'' = Some \<lparr>m_regAddress = 40, m_bOffset = 0, m_width = 11, m_subRegName = ''ICENABLE''\<rparr>"
    by (simp add: hcc_fields_def hccSubRegDefs_def s_hccsubregdefs_common_def s_hccsubregdefs_v1_def sub_of_def)
  have w: "take_bit 11 (5 :: u32) = 5" by simp
  obtain t where t: "cfg_ok t" "getHCCSubRegisterValue t ''ICENABLE'' = Inr 5"
    by (rule setHCCSub_ok [OF c(1), of "''ICENABLE''" _ 5, unfolded c(2), OF f]) (use w in simp, rule that)
  from histoChipMap_value [OF cfg_ok_hcc [OF t(1)]] obtain m where m: "histoChipMap (m_hcc t) = Inr m" by blast
  have "m ! 2 \<noteq> 15"
    using histo_slots(3) [OF cfg_ok_hcc [OF t(1)] m, of 5 2] t(2)
    by (simp add: getHCCSubRegisterValue_def bit_iff_odd)
  with histo_slot_roundtrip [OF t(1) m] t(1) m have "inputChannelForHistoChip t (unat (m ! 2)) = Inr (int 2)"
    using \<open>m ! 2 \<noteq> 15\<close> by auto
  with t(1) m show ?thesis by auto
qed

end
