(* ===== verification/Star_Packets.thy ===== *)
theory Star_Packets
  imports Yarr_Prelude
begin

text \<open>
  Response packets of the HCC (src/src/libStar/include/StarPackets.h and the namespace
  \<open>StarPackets\<close> of src/src/libStarEmu/StarChipsetEmu.cpp), and their transport as 32-bit words:
  \<open>sendPacket\<close> packs the bytes four to a word, first byte lowest, and
  \<open>process_data\<close> of src/src/libStar/StarDataProcessor.cpp unpacks them.
\<close>

section \<open>Packet types\<close>

datatype PacketTypes =
  PT_PR | PT_LP | PT_ABCRegRd | PT_ABCPacketTransRegRd | PT_HCCRegRd | PT_ABCFullTransRegRd | PT_ABCHPR | PT_HCCHPR

fun pt_code :: "PacketTypes \<Rightarrow> u8" where
  "pt_code PT_PR = 1"
| "pt_code PT_LP = 2"
| "pt_code PT_ABCRegRd = 4"
| "pt_code PT_ABCPacketTransRegRd = 7"
| "pt_code PT_HCCRegRd = 8"
| "pt_code PT_ABCFullTransRegRd = 11"
| "pt_code PT_ABCHPR = 13"
| "pt_code PT_HCCHPR = 14"

section \<open>Building packets\<close>

definition getParity_8bits :: "u8 \<Rightarrow> bool" where
  "getParity_8bits v0 =
     (let v1 = v0 XOR drop_bit 4 v0; v2 = v1 XOR drop_bit 2 v1; v3 = v2 XOR drop_bit 1 v2
      in v3 AND 1 \<noteq> 0)"

definition physics_header :: "PacketTypes \<Rightarrow> u8 \<Rightarrow> u8 \<Rightarrow> u16" where
  "physics_header typ l0tag bc_count =
     (let errorflag = (0 :: u16); bc_parity = (if getParity_8bits bc_count then 1 else 0 :: u16)
      in push_bit 12 (ucast (pt_code typ)) OR push_bit 11 errorflag OR push_bit 4 (ucast (l0tag AND 0x7f))
         OR push_bit 1 (ucast (bc_count AND 7)) OR bc_parity)"

definition two_bytes :: "u16 \<Rightarrow> u8 list" where
  "two_bytes w = [ucast (drop_bit 8 w AND 0xff), ucast (w AND 0xff)]"

definition cluster_word :: "nat \<Rightarrow> u16 \<Rightarrow> u16" where
  "cluster_word input_chan cluster = push_bit 11 (of_nat input_chan AND 0xf) OR (cluster AND 0x7ff)"

definition endOfPacket :: u16 where "endOfPacket = 0x6fed"

text \<open>The clusters by input channel; a packet without clusters is empty.\<close>

definition buildPhysicsPacket :: "u16 list list \<Rightarrow> PacketTypes \<Rightarrow> u8 \<Rightarrow> u8 \<Rightarrow> u8 list" where
  "buildPhysicsPacket allClusters typ l0tag bc_count =
     (let hdr = two_bytes (physics_header typ l0tag bc_count);
          body = concat (map (\<lambda>(ichip, clusters). concat (map (\<lambda>c. two_bytes (cluster_word ichip c)) clusters))
                   (zip [0..<length allClusters] allClusters))
      in if length (hdr @ body) = 2 then [] else hdr @ body @ two_bytes endOfPacket)"

text \<open>The raw version takes the cluster words as they are and always ends the packet.\<close>

definition buildPhysicsPacket_raw :: "u16 list \<Rightarrow> PacketTypes \<Rightarrow> u8 \<Rightarrow> u8 \<Rightarrow> u8 list" where
  "buildPhysicsPacket_raw cluster_data typ l0tag bc_count =
     two_bytes (physics_header typ l0tag bc_count) @ concat (map two_bytes cluster_data) @ two_bytes endOfPacket"

definition buildABCRegisterPacket :: "PacketTypes \<Rightarrow> u8 \<Rightarrow> u8 \<Rightarrow> u32 \<Rightarrow> u16 \<Rightarrow> u8 list" where
  "buildABCRegisterPacket typ input_channel reg_addr reg_data reg_status =
     [push_bit 4 (pt_code typ AND 0xf) OR (input_channel AND 0xf),
      reg_addr,
      ucast (drop_bit 28 reg_data),
      ucast (drop_bit 20 reg_data AND 0xff),
      ucast (drop_bit 12 reg_data AND 0xff),
      ucast (drop_bit 4 reg_data AND 0xff),
      ucast (push_bit 4 (reg_data AND 0xf)) OR ucast (drop_bit 12 reg_status AND 0xf),
      ucast (drop_bit 4 reg_status AND 0xff),
      ucast (push_bit 4 (reg_status AND 0xf))]"

definition buildHCCRegisterPacket :: "PacketTypes \<Rightarrow> u8 \<Rightarrow> u32 \<Rightarrow> u8 list" where
  "buildHCCRegisterPacket typ reg_addr reg_data =
     [push_bit 4 (pt_code typ AND 0xf) OR drop_bit 4 reg_addr,
      push_bit 4 (reg_addr AND 0xf) OR ucast (drop_bit 28 reg_data),
      ucast (drop_bit 20 reg_data AND 0xff),
      ucast (drop_bit 12 reg_data AND 0xff),
      ucast (drop_bit 4 reg_data AND 0xff),
      ucast (push_bit 4 (reg_data AND 0xf))]"

section \<open>Transport\<close>

text \<open>The value of up to four bytes, the first one lowest.\<close>

fun le_bytes :: "u8 list \<Rightarrow> u32" where
  "le_bytes [] = 0"
| "le_bytes (b # bs) = ucast b OR push_bit 8 (le_bytes bs)"

text \<open>\<open>sendPacket\<close>: full words by a 32-bit read, then a last word of the remaining bytes.\<close>

definition sendPacket_words :: "u8 list \<Rightarrow> u32 list" where
  "sendPacket_words byts =
     (let byte_length = length byts; word_length = (byte_length + 3) div 4
      in map (\<lambda>i. le_bytes (take 4 (drop (i * 4) byts))) [0..<byte_length div 4] @
         (if byte_length mod 4 \<noteq> 0
          then [le_bytes (take (byte_length mod 4) (drop ((word_length - 1) * 4) byts))] else []))"

text \<open>The loop of \<open>process_data\<close> over the words and their four bytes.\<close>

definition unpack_words :: "u32 list \<Rightarrow> u16 list" where
  "unpack_words ws = concat (map (\<lambda>w. map (\<lambda>i. ucast (drop_bit (i * 8) w AND 0xff)) [0..<4]) ws)"

section \<open>Laws\<close>

lemma bit_le_bytes: "bit (le_bytes bs) n \<longleftrightarrow> n < 32 \<and> n div 8 < length bs \<and> bit (bs ! (n div 8)) (n mod 8)"
proof (induction bs arbitrary: n)
  case (Cons b bs)
  show ?case
  proof (cases "n < 8")
    case True
    then show ?thesis by (auto simp: bit_simps)
  next
    case False
    then obtain m where m: "n = m + 8" by (metis add.commute le_iff_add not_less)
    have "bit (le_bytes (b # bs)) n \<longleftrightarrow> n < 32 \<and> bit (le_bytes bs) m"
      using False by (auto simp: m bit_simps dest: bit_imp_le_length)
    moreover have "(m + 8) div 8 = Suc (m div 8)" "(m + 8) mod 8 = m mod 8" by simp_all
    ultimately show ?thesis using Cons.IH [of m] by (auto simp: m)
  qed
qed simp

lemma byte_of_le_bytes:
  assumes "i < 4"
  shows "ucast (drop_bit (i * 8) (le_bytes bs) AND 0xff) = (if i < length bs then ucast (bs ! i) else (0 :: u16))"
proof (rule bit_word_eqI)
  fix n
  assume "n < LENGTH(16)"
  show "bit (ucast (drop_bit (i * 8) (le_bytes bs) AND 0xff) :: u16) n =
      bit (if i < length bs then ucast (bs ! i) else (0 :: u16)) n"
  proof (cases "n < 8")
    case True
    then have "(i * 8 + n) div 8 = i" "(i * 8 + n) mod 8 = n" "i * 8 + n < 32" using assms by auto
    with True show ?thesis by (auto simp: bits_simps bit_le_bytes add.commute)
  next
    case False
    then show ?thesis by (auto simp: bits_simps dest: bit_imp_le_length)
  qed
qed

lemma unpack_le: "length bs \<le> 4 \<Longrightarrow> unpack_words [le_bytes bs] = map ucast (bs @ replicate (4 - length bs) 0)"
  by (rule nth_equalityI) (auto simp: unpack_words_def byte_of_le_bytes nth_append)

lemma unpack_append: "unpack_words (xs @ ys) = unpack_words xs @ unpack_words ys"
  by (simp add: unpack_words_def)

lemma unpack_Cons: "unpack_words (w # ws) = unpack_words [w] @ unpack_words ws"
  by (simp add: unpack_words_def)

lemma sendPacket_short: "length bs < 4 \<Longrightarrow> sendPacket_words bs = (if bs = [] then [] else [le_bytes bs])"
  by (auto simp: sendPacket_words_def Let_def)

lemma sendPacket_step:
  assumes "4 \<le> length bs"
  shows "sendPacket_words bs = le_bytes (take 4 bs) # sendPacket_words (drop 4 bs)"
proof -
  obtain n where n: "length bs = n + 4" using assms by (metis add.commute le_iff_add)
  have up: "[0..<Suc k] = 0 # map Suc [0..<k]" for k by (simp add: upt_conv_Cons map_Suc_upt)
  have d: "(n + 4) div 4 = Suc (n div 4)" "(n + 4) mod 4 = n mod 4" "(n + 4 + 3) div 4 = Suc ((n + 3) div 4)"
    by simp_all
  have l: "(n + 3) div 4 * 4 = 4 + ((n + 3) div 4 - Suc 0) * 4" if "n mod 4 \<noteq> 0"
  proof -
    have "n \<noteq> 0" using that by auto
    then have "(n + 3) div 4 \<noteq> 0" by simp
    then show ?thesis by (cases "(n + 3) div 4") simp_all
  qed
  show ?thesis
  proof (cases "n mod 4 = 0")
    case True
    then show ?thesis
      unfolding sendPacket_words_def Let_def n d length_drop up
      by (simp add: n comp_def add.commute)
  next
    case False
    then show ?thesis
      unfolding sendPacket_words_def Let_def n d length_drop up
      using l by (simp add: n comp_def add.commute)
  qed
qed

lemma transport: "unpack_words (sendPacket_words bs) = map ucast (bs @ replicate ((4 - length bs mod 4) mod 4) 0)"
proof (induction bs rule: length_induct)
  case (1 bs)
  show ?case
  proof (cases "length bs < 4")
    case True
    then show ?thesis
      using unpack_le [of bs] by (cases "bs = []") (simp_all add: sendPacket_short unpack_words_def)
  next
    case False
    then obtain n where n: "length bs = n + 4" by (metis add.commute le_iff_add not_less)
    then have d: "length (drop 4 bs) < length bs" "(4 - length (drop 4 bs) mod 4) mod 4 = (4 - length bs mod 4) mod 4"
      by simp_all
    have "unpack_words (sendPacket_words bs) = unpack_words [le_bytes (take 4 bs)] @ unpack_words (sendPacket_words (drop 4 bs))"
      using False by (simp only: not_less sendPacket_step) (rule unpack_Cons)
    also have "\<dots> = map ucast (take 4 bs @ drop 4 bs @ replicate ((4 - length bs mod 4) mod 4) 0)"
      using 1 d(1) unfolding d(2) [symmetric] by (simp add: unpack_le n)
    also have "take 4 bs @ drop 4 bs @ replicate ((4 - length bs mod 4) mod 4) 0 = bs @ replicate ((4 - length bs mod 4) mod 4) 0"
      by (simp only: append_assoc [symmetric] append_take_drop_id)
    finally show ?thesis .
  qed
qed

end
