(* ===== verification/Star_Chip_Packet.thy ===== *)
theory Star_Chip_Packet
  imports Star_Packets
begin

text \<open>
  The parser of response packets that the data processor uses
  (src/src/libStar/include/StarChipPacket.h). A packet is the list of its words, between a start
  word 0x13C and an end word 0x1DC; parsing fills the fields and returns 0 or 1. Reads past the
  end of the word vector are \<open>Undefined\<close>. Fields of type \<open>int\<close> hold masked words and are kept at
  32 bits.
\<close>

section \<open>State\<close>

datatype PacketType =
  TYP_NONE | TYP_PR | TYP_LP | TYP_ABC_RR | TYP_ABC_TRANSP | TYP_HCC_RR | TYP_ABC_FULL | TYP_ABC_HPR
  | TYP_HCC_HPR | TYP_UNKNOWN

definition packet_type_headers :: "nat \<rightharpoonup> PacketType" where
  "packet_type_headers = map_of
     [(1, TYP_PR), (2, TYP_LP), (4, TYP_ABC_RR), (7, TYP_ABC_TRANSP),
      (8, TYP_HCC_RR), (11, TYP_ABC_FULL), (13, TYP_ABC_HPR), (14, TYP_HCC_HPR), (0, TYP_NONE)]"

record Cluster =
  cl_input_channel :: u8
  cl_raw_cluster :: u8
  cl_address :: u8
  cl_next :: u8

record ErrorBlock =
  error_abc :: "nat list"
  error_bcid :: "nat list"
  error_l0tag :: "nat list"
  error_timeout :: "nat list"

record StarChipPacket =
  raw_words :: "u16 list"
  sp_type :: PacketType
  error_block :: "ErrorBlock option"
  sp_address :: u8
  sp_value :: u32
  channel_abc :: u16
  abc_status :: u16
  sp_flag :: u32
  sp_bcid :: u32
  sp_bcid_parity :: u32
  sp_l0id :: u32
  sp_clusters :: "Cluster list"
  num_idles :: u32

definition new_StarChipPacket :: StarChipPacket where
  "new_StarChipPacket =
     \<lparr>raw_words = [], sp_type = TYP_NONE, error_block = None, sp_address = 0, sp_value = 0, channel_abc = 0,
      abc_status = 0, sp_flag = 0, sp_bcid = 0, sp_bcid_parity = 0, sp_l0id = 0, sp_clusters = [], num_idles = 0\<rparr>"

definition cluster_eq :: "Cluster \<Rightarrow> Cluster \<Rightarrow> bool" where
  "cluster_eq lhs rhs \<longleftrightarrow>
     cl_input_channel lhs = cl_input_channel rhs \<and> cl_raw_cluster lhs = cl_raw_cluster rhs"

section \<open>Error blocks\<close>

definition error_channels :: "u64 \<Rightarrow> nat \<Rightarrow> nat list" where
  "error_channels error_word s =
     (let w = (ucast (drop_bit s error_word AND 0x7FF) :: u16)
      in filter (\<lambda>i_chan. drop_bit i_chan w AND 1 \<noteq> 0) [0..<11])"

definition parse_ErrorBlock :: "u64 \<Rightarrow> ErrorBlock" where
  "parse_ErrorBlock error_word =
     \<lparr>error_abc = error_channels error_word 36, error_bcid = error_channels error_word 24,
      error_l0tag = error_channels error_word 12, error_timeout = error_channels error_word 0\<rparr>"

section \<open>Words\<close>

definition is_parsed :: "StarChipPacket \<Rightarrow> bool" where
  "is_parsed p \<longleftrightarrow> sp_type p \<noteq> TYP_NONE"

definition add_word :: "u16 \<Rightarrow> StarChipPacket \<Rightarrow> StarChipPacket" where
  "add_word w p = p\<lparr>raw_words := raw_words p @ [w]\<rparr>"

definition clear_parsed_info :: "StarChipPacket \<Rightarrow> StarChipPacket" where
  "clear_parsed_info p =
     p\<lparr>sp_address := 0, sp_value := 0, channel_abc := 0, sp_type := TYP_NONE, error_block := None,
       sp_flag := 0, sp_bcid := 0, sp_bcid_parity := 0, sp_l0id := 0, sp_clusters := []\<rparr>"

definition clear_packet :: "StarChipPacket \<Rightarrow> StarChipPacket" where
  "clear_packet p = (clear_parsed_info (p\<lparr>raw_words := []\<rparr>))\<lparr>num_idles := 0\<rparr>"

section \<open>Register packets\<close>

text \<open>\<open>raw_words[i]\<close> widened to 32 bits, and the list of the words at the given indices.\<close>

definition rw :: "StarChipPacket \<Rightarrow> nat \<Rightarrow> u32 result" where
  "rw p i = rbind (vec_read (raw_words p) i) (\<lambda>w. Inr (ucast w))"

definition parse_data_HCC_read :: "StarChipPacket \<Rightarrow> (nat \<times> StarChipPacket) result" where
  "parse_data_HCC_read p =
     (let n = length (raw_words p)
      in if n \<noteq> 8 \<and> (n - 2) div 4 \<noteq> 2 then Inr (1, p)
         else rbind (rw p 1) (\<lambda>w1. rbind (rw p 2) (\<lambda>w2. rbind (rw p 3) (\<lambda>w3.
              rbind (rw p 4) (\<lambda>w4. rbind (rw p 5) (\<lambda>w5. rbind (rw p 6) (\<lambda>w6.
              Inr (0, p\<lparr>sp_address := ucast (push_bit 4 (w1 AND 0xF) OR (drop_bit 4 w2 AND 0xF)),
                sp_value := push_bit 28 (w2 AND 0xF) OR push_bit 20 (w3 AND 0xFF) OR push_bit 12 (w4 AND 0xFF)
                  OR push_bit 4 (w5 AND 0xFF) OR (drop_bit 4 w6 AND 0xF)\<rparr>))))))))"

definition parse_data_ABC_read :: "StarChipPacket \<Rightarrow> (nat \<times> StarChipPacket) result" where
  "parse_data_ABC_read p =
     (let n = length (raw_words p)
      in if n \<noteq> 11 \<and> (n - 2) div 4 \<noteq> 3 then Inr (1, p)
         else rbind (rw p 1) (\<lambda>w1. rbind (rw p 2) (\<lambda>w2. rbind (rw p 3) (\<lambda>w3.
              rbind (rw p 4) (\<lambda>w4. rbind (rw p 5) (\<lambda>w5. rbind (rw p 6) (\<lambda>w6.
              rbind (rw p 7) (\<lambda>w7. rbind (rw p 8) (\<lambda>w8. rbind (rw p 9) (\<lambda>w9.
              Inr (0, p\<lparr>channel_abc := ucast (w1 AND 0xF), sp_address := ucast (w2 AND 0xFF),
                sp_value := push_bit 28 (w3 AND 0xF) OR push_bit 20 (w4 AND 0xFF) OR push_bit 12 (w5 AND 0xFF)
                  OR push_bit 4 (w6 AND 0xFF) OR drop_bit 4 (w7 AND 0xF0),
                abc_status := ucast (push_bit 12 (w7 AND 0xF) OR push_bit 4 (w8 AND 0xFF) OR drop_bit 4 (w9 AND 0xF0))\<rparr>)))))))))))"

section \<open>Physics packets\<close>

lemma rbind_fundef_cong [fundef_cong]:
  "r = r' \<Longrightarrow> (\<And>x. r' = Inr x \<Longrightarrow> f x = g x) \<Longrightarrow> rbind r f = rbind r' g"
  by (cases r') simp_all

text \<open>The inner loop over idle words: \<open>None\<close> is the return with an error.\<close>

function skip_idles :: "u16 list \<Rightarrow> nat \<Rightarrow> nat option result" where
  "skip_idles ws iW =
     rbind (vec_read ws iW) (\<lambda>w.
     if w = 0x3FF then (if iW + 2 \<ge> length ws then Inr None else skip_idles ws (iW + 1))
     else Inr (Some iW))"
  by pat_completeness auto

termination
  by (relation "measure (\<lambda>(ws, iW). length ws - iW)") auto

declare skip_idles.simps [simp del]

definition error_word_at :: "u16 list \<Rightarrow> nat \<Rightarrow> u64 result" where
  "error_word_at ws iW =
     rfold (\<lambda>i error_word. rbind (vec_read ws (iW + 2 + i)) (\<lambda>w.
       Inr (error_word OR push_bit (8 * (5 - i)) (ucast w)))) [0..<6] 0"

definition cluster_of :: "u16 \<Rightarrow> Cluster" where
  "cluster_of word =
     \<lparr>cl_input_channel = ucast (drop_bit 11 word AND 0xF), cl_raw_cluster = ucast (word AND 0x7FF),
      cl_address = ucast (drop_bit 3 word AND 0xFF), cl_next = ucast (word AND 0x7)\<rparr>"

lemma skip_idles_ge:
  "skip_idles ws i = Inr (Some j) \<Longrightarrow> i \<le> j \<and> j < length ws"
proof (induction ws i rule: skip_idles.induct)
  case (1 ws iW)
  from 1(2) obtain w where w: "vec_read ws iW = Inr w" "iW < length ws"
    by (subst (asm) skip_idles.simps) (auto simp: rbind_eq_Inr_iff vec_read_def split: if_splits)
  show ?case
  proof (cases "w = 0x3FF \<and> \<not> iW + 2 \<ge> length ws")
    case True
    with 1(2) w have "skip_idles ws (iW + 1) = Inr (Some j)" by (subst (asm) skip_idles.simps) simp
    from 1(1) [OF w(1) _ _ this] True show ?thesis by simp
  next
    case False
    with 1(2) w show ?thesis by (subst (asm) skip_idles.simps) (auto split: if_splits)
  qed
qed

text \<open>The outer loop: the flag says whether the trailer was reached, the number is \<open>iW\<close> there.\<close>

function prlp_loop :: "u16 list \<Rightarrow> nat \<Rightarrow> StarChipPacket \<Rightarrow> (bool \<times> nat \<times> StarChipPacket) result" where
  "prlp_loop ws iW p =
     (if iW + 1 \<ge> length ws then Inr (False, iW, p)
      else rbind (skip_idles ws iW) (\<lambda>r. case r of
        None \<Rightarrow> Inr (False, iW, p)
      | Some iW \<Rightarrow>
         rbind (vec_read ws iW) (\<lambda>hi. rbind (vec_read ws (iW + 1)) (\<lambda>lo.
         let word = push_bit 8 hi OR lo
         in if word = 0x77F4 then
              (if length ws < iW + 8 then Inr (False, iW, p)
               else rbind (error_word_at ws iW) (\<lambda>error_word.
                    prlp_loop ws (iW + 8) (p\<lparr>error_block := Some (parse_ErrorBlock error_word)\<rparr>)))
            else if word = 0x6FED then Inr (True, iW, p)
            else if word AND 0x7FF = 0x3FE then prlp_loop ws (iW + 2) p
            else prlp_loop ws (iW + 2) (p\<lparr>sp_clusters := sp_clusters p @ [cluster_of word]\<rparr>)))))"
  by pat_completeness auto

termination
  by (relation "measure (\<lambda>(ws, iW, p). length ws - iW)") (force dest: skip_idles_ge)+

declare prlp_loop.simps [simp del]

definition parse_data_PRLP :: "StarChipPacket \<Rightarrow> (nat \<times> StarChipPacket) result" where
  "parse_data_PRLP p =
     rbind (rw p 1) (\<lambda>w1. rbind (rw p 2) (\<lambda>w2.
     rbind (prlp_loop (raw_words p) 3
         (p\<lparr>sp_flag := drop_bit 3 w1 AND 1, sp_l0id := push_bit 4 (w1 AND 7) OR (drop_bit 4 w2 AND 0xF),
            sp_bcid := drop_bit 1 w2 AND 7, sp_bcid_parity := w2 AND 1\<rparr>)) (\<lambda>(ended, iW, p).
     if \<not> ended then Inr (1, p)
     else let used_count = of_nat (iW + 3) :: u32; unused_count = of_nat (length (raw_words p)) - used_count
          in Inr (if unused_count > 0 \<and> unused_count > 2 then 1 else 0, p))))"

text \<open>The wrapped word of a transparent packet is only logged; its bytes are read.\<close>

definition parse_data_ABC_transparent :: "StarChipPacket \<Rightarrow> (nat \<times> StarChipPacket) result" where
  "parse_data_ABC_transparent p =
     rbind (rw p 1) (\<lambda>w1. rbind (rw p 2) (\<lambda>w2.
     rbind (rfold (\<lambda>i b. rbind (rw p (3 + i)) (\<lambda>w. Inr (push_bit 8 b OR ucast w))) [0..<7] (ucast w2 :: u64)) (\<lambda>_.
     Inr (0, p\<lparr>channel_abc := ucast (w1 AND 0xF)\<rparr>))))"

section \<open>Parsing\<close>

definition parse_packet :: "StarChipPacket \<Rightarrow> (nat \<times> StarChipPacket) result" where
  "parse_packet p0 =
     (let p = (if is_parsed p0 then clear_parsed_info p0 else p0); ws = raw_words p
      in if length ws < 4 then Inr (1, p)
         else if hd ws \<noteq> 0x13C then Inr (1, p)
         else if last ws \<noteq> 0x1DC then Inr (1, p)
         else rbind (rw p 1) (\<lambda>w1.
           case packet_type_headers (unat (drop_bit 4 w1 AND 0xF)) of
             None \<Rightarrow> Inr (1, p\<lparr>sp_type := TYP_UNKNOWN\<rparr>)
           | Some t \<Rightarrow>
              let p = p\<lparr>sp_type := t\<rparr>
              in if t = TYP_HCC_RR \<or> t = TYP_HCC_HPR then parse_data_HCC_read p
                 else if t = TYP_ABC_RR \<or> t = TYP_ABC_HPR then parse_data_ABC_read p
                 else if t = TYP_LP \<or> t = TYP_PR then parse_data_PRLP p
                 else if t = TYP_ABC_TRANSP then parse_data_ABC_transparent p
                 else Inr (0, p)))"

definition compare_raw_words :: "StarChipPacket \<Rightarrow> StarChipPacket \<Rightarrow> bool" where
  "compare_raw_words p q \<longleftrightarrow>
     length (raw_words p) = length (raw_words q) \<and>
     list_all (\<lambda>iW. raw_words p ! iW = raw_words q ! iW) [0..<length (raw_words p)]"

definition compare_packets :: "StarChipPacket \<Rightarrow> StarChipPacket \<Rightarrow> bool" where
  "compare_packets p q \<longleftrightarrow>
     \<not> (sp_address p \<noteq> sp_address q \<or> sp_value p \<noteq> sp_value q \<or> channel_abc p \<noteq> channel_abc q \<or>
        sp_flag p \<noteq> sp_flag q \<or> sp_bcid p \<noteq> sp_bcid q \<or> sp_bcid_parity p \<noteq> sp_bcid_parity q \<or>
        sp_l0id p \<noteq> sp_l0id q \<or> length (sp_clusters p) \<noteq> length (sp_clusters q)) \<and>
     list_all (\<lambda>c. list_ex (cluster_eq c) (sp_clusters q)) (sp_clusters p)"


section \<open>Reads stay inside the packet\<close>

lemma rw_sat: "i < length (raw_words p) \<Longrightarrow> rw p i = Inr (ucast (raw_words p ! i))"
  by (simp add: rw_def)

abbreviation parsed_from :: "StarChipPacket \<Rightarrow> nat \<times> StarChipPacket \<Rightarrow> bool" where
  "parsed_from p rq \<equiv> fst rq \<le> 1 \<and> raw_words (snd rq) = raw_words p"

lemma HCC_read_safe: "4 \<le> length (raw_words p) \<Longrightarrow> rsat (\<lambda>_. False) (parsed_from p) (parse_data_HCC_read p)"
  by (auto simp: parse_data_HCC_read_def Let_def rw_sat)

lemma ABC_read_safe: "4 \<le> length (raw_words p) \<Longrightarrow> rsat (\<lambda>_. False) (parsed_from p) (parse_data_ABC_read p)"
  by (auto simp: parse_data_ABC_read_def Let_def rw_sat)

lemma transparent_safe:
  "rsat (\<lambda>e. e = Undefined \<and> length (raw_words p) < 10) (parsed_from p) (parse_data_ABC_transparent p)"
proof -
  have rw: "rsat (\<lambda>e. e = Undefined \<and> length (raw_words p) < 10) (\<lambda>_. True) (rw p i)" if "i < 10" for i
    using that by (auto simp: rw_def vec_read_def)
  have "rsat (\<lambda>e. e = Undefined \<and> length (raw_words p) < 10) (\<lambda>_. True)
      (rfold (\<lambda>i b. rbind (rw p (3 + i)) (\<lambda>w. Inr (push_bit 8 b OR ucast w))) [0..<7] (x :: u64))" for x
    by (rule rsat_fold) (auto intro!: rsat_bind [OF rw])
  then show ?thesis
    unfolding parse_data_ABC_transparent_def
    by (intro rsat_bind [OF rw] rsat_bind [of _ "\<lambda>_. True"]) auto
qed

lemma skip_idles_safe:
  "iW + 1 < length ws \<Longrightarrow>
   rsat (\<lambda>_. False) (\<lambda>r. case r of None \<Rightarrow> True | Some j \<Rightarrow> iW \<le> j \<and> j + 1 < length ws) (skip_idles ws iW)"
proof (induction ws iW rule: skip_idles.induct)
  case (1 ws iW)
  show ?case
  proof (cases "ws ! iW = 0x3FF \<and> \<not> iW + 2 \<ge> length ws")
    case True
    with 1 have "rsat (\<lambda>_. False) (\<lambda>r. case r of None \<Rightarrow> True | Some j \<Rightarrow> iW + 1 \<le> j \<and> j + 1 < length ws) (skip_idles ws (iW + 1))"
      by simp
    then show ?thesis
      using True 1(2) by (subst skip_idles.simps) (auto elim!: rsat_weaken split: option.splits)
  next
    case False
    with 1(2) show ?thesis by (subst skip_idles.simps) auto
  qed
qed

lemma error_word_safe:
  assumes "iW + 8 \<le> length ws"
  shows "rsat (\<lambda>_. False) (\<lambda>_. True) (error_word_at ws iW)"
  unfolding error_word_at_def by (rule rsat_fold) (use assms in auto)

lemma prlp_loop_safe:
  "rsat (\<lambda>_. False) (\<lambda>(ended, i, q). (ended \<longrightarrow> i + 1 < length ws) \<and> raw_words q = raw_words p \<and> sp_type q = sp_type p)
     (prlp_loop ws iW p)"
proof (induction ws iW p rule: prlp_loop.induct)
  case (1 ws iW p)
  show ?case
  proof (cases "iW + 1 \<ge> length ws")
    case True
    then show ?thesis by (subst prlp_loop.simps) simp
  next
    case False
    then have s: "rsat (\<lambda>_. False) (\<lambda>r. case r of None \<Rightarrow> True | Some j \<Rightarrow> iW \<le> j \<and> j + 1 < length ws) (skip_idles ws iW)"
      by (intro skip_idles_safe) simp
    then obtain r where r: "skip_idles ws iW = Inr r" by (cases "skip_idles ws iW") auto
    show ?thesis
    proof (cases r)
      case None
      with False r show ?thesis by (subst prlp_loop.simps) simp
    next
      case (Some j)
      with s r have j: "j + 1 < length ws" by simp
      then have v: "vec_read ws j = Inr (ws ! j)" "vec_read ws (j + 1) = Inr (ws ! (j + 1))" by simp_all
      let ?word = "push_bit 8 (ws ! j) OR ws ! (j + 1)"
      note IH = "1.IH" [OF False r Some v refl]
      have e: "\<exists>x. error_word_at ws j = Inr x" if "j + 8 \<le> length ws"
        using error_word_safe [OF that] by (cases "error_word_at ws j") auto
      show ?thesis
        using False r Some v j IH e
        by (subst prlp_loop.simps) (auto simp: Let_def elim!: rsat_weaken)
    qed
  qed
qed

lemma PRLP_safe:
  assumes "4 \<le> length (raw_words p)"
  shows "rsat (\<lambda>_. False) (parsed_from p) (parse_data_PRLP p)"
proof -
  have r: "rw p 1 = Inr (ucast (raw_words p ! 1))" "rw p 2 = Inr (ucast (raw_words p ! 2))"
    using assms by (simp_all add: rw_sat)
  show ?thesis
    unfolding parse_data_PRLP_def r rbind_Inr
    by (rule rsat_bind [OF prlp_loop_safe]) (auto simp: Let_def)
qed

section \<open>Round trips of register packets\<close>

text \<open>The packet that \<open>process_data\<close> makes of received 32-bit words.\<close>

definition packet_of_data :: "u32 list \<Rightarrow> StarChipPacket" where
  "packet_of_data ws = add_word 0x1DC (fold add_word (unpack_words ws) (add_word 0x13C new_StarChipPacket))"

lemma fold_add_word: "fold add_word ws p = p\<lparr>raw_words := raw_words p @ ws\<rparr>"
  by (induction ws arbitrary: p) (simp_all add: add_word_def)

lemma packet_of_data_words: "packet_of_data ws = new_StarChipPacket\<lparr>raw_words := 0x13C # unpack_words ws @ [0x1DC]\<rparr>"
  by (simp add: packet_of_data_def fold_add_word add_word_def new_StarChipPacket_def)

text \<open>A 32-bit value from its parts, and a byte through the word types.\<close>

lemma join_parts:
  fixes x :: u32
  shows "push_bit 28 (drop_bit 28 x AND 0xF) OR push_bit 20 (drop_bit 20 x AND 0xFF) OR push_bit 12 (drop_bit 12 x AND 0xFF)
      OR push_bit 4 (drop_bit 4 x AND 0xFF) OR (x AND 0xF) = x" (is "?y = x")
proof (rule bit_word_eqI)
  fix n
  assume "n < LENGTH(32)"
  then consider "n < 4" | "4 \<le> n" "n < 12" | "12 \<le> n" "n < 20" | "20 \<le> n" "n < 28" | "28 \<le> n" "n < 32"
    by fastforce
  then show "bit ?y n = bit x n" by cases (auto simp: bits_simps)
qed

lemma parse_HCC_words:
  assumes "raw_words p = [s, a0, a1, a2, a3, a4, a5, x, y, z]"
  shows "parse_data_HCC_read p = Inr (0, p
    \<lparr>sp_address := ucast (push_bit 4 ((ucast a0 :: u32) AND 0xF) OR (drop_bit 4 (ucast a1) AND 0xF)),
     sp_value := push_bit 28 (ucast a1 AND 0xF) OR push_bit 20 (ucast a2 AND 0xFF) OR push_bit 12 (ucast a3 AND 0xFF)
       OR push_bit 4 (ucast a4 AND 0xFF) OR (drop_bit 4 (ucast a5) AND 0xF)\<rparr>)"
  unfolding parse_data_HCC_read_def Let_def rw_def assms by simp

lemma parse_ABC_words:
  assumes "raw_words p = [s, a0, a1, a2, a3, a4, a5, a6, a7, a8, x, y, w, z]"
  shows "parse_data_ABC_read p = Inr (0, p
    \<lparr>channel_abc := ucast ((ucast a0 :: u32) AND 0xF), sp_address := ucast ((ucast a1 :: u32) AND 0xFF),
     sp_value := push_bit 28 (ucast a2 AND 0xF) OR push_bit 20 (ucast a3 AND 0xFF) OR push_bit 12 (ucast a4 AND 0xFF)
       OR push_bit 4 (ucast a5 AND 0xFF) OR drop_bit 4 (ucast a6 AND 0xF0),
     abc_status := ucast (push_bit 12 ((ucast a6 :: u32) AND 0xF) OR push_bit 4 (ucast a7 AND 0xFF) OR drop_bit 4 (ucast a8 AND 0xF0))\<rparr>)"
  unfolding parse_data_ABC_read_def Let_def rw_def assms by simp

text \<open>The bytes of a value, seen through the word types of the parser.\<close>

lemma byte_words:
  fixes x :: u32 and s :: u16 and a b :: u8
  shows "(ucast (ucast (ucast (drop_bit k x AND 0xFF) :: u8) :: u16) :: u32) AND 0xFF = drop_bit k x AND 0xFF"
    "(ucast (ucast (push_bit 4 (a AND 0xF) OR ucast (drop_bit 28 x) :: u8) :: u16) :: u32) AND 0xF = drop_bit 28 x AND 0xF"
    "(ucast (ucast (ucast (drop_bit 28 x) :: u8) :: u16) :: u32) AND 0xF = drop_bit 28 x AND 0xF"
    "drop_bit 4 (ucast (ucast (ucast (push_bit 4 (x AND 0xF)) :: u8) :: u16) :: u32) AND 0xF = x AND 0xF"
    "drop_bit 4 ((ucast (ucast (ucast (push_bit 4 (x AND 0xF)) OR ucast (drop_bit 12 s AND 0xF) :: u8) :: u16) :: u32) AND 0xF0) = x AND 0xF"
  by (rule bit_word_eqI, auto simp: bits_simps dest: bit_imp_le_length)+

lemma address_parts:
  fixes a b :: u8 and x :: u32
  shows "(ucast (push_bit 4 ((ucast (ucast (push_bit 4 b OR drop_bit 4 a) :: u16) :: u32) AND 0xF) OR
       (drop_bit 4 (ucast (ucast (push_bit 4 (a AND 0xF) OR ucast (drop_bit 28 x) :: u8) :: u16) :: u32) AND 0xF)) :: u8) = a"
    (is "?y = a")
proof (rule bit_word_eqI)
  fix n
  assume "n < LENGTH(8)"
  then consider "n < 4" | "4 \<le> n" "n < 8" by fastforce
  then show "bit ?y n = bit a n" by cases (auto simp: bits_simps dest: bit_imp_le_length)
qed

lemma ABC_parts:
  fixes a b :: u8 and x :: u32 and s :: u16
  shows "(ucast ((ucast (ucast (push_bit 4 b OR (a AND 0xF)) :: u16) :: u32) AND 0xF) :: u16) = ucast (a AND 0xF)"
    "(ucast ((ucast (ucast a :: u16) :: u32) AND 0xFF) :: u8) = a"
    "(ucast (push_bit 12 ((ucast (ucast (ucast (push_bit 4 (x AND 0xF)) OR ucast (drop_bit 12 s AND 0xF) :: u8) :: u16) :: u32) AND 0xF) OR
       push_bit 4 ((ucast (ucast (ucast (drop_bit 4 s AND 0xFF) :: u8) :: u16) :: u32) AND 0xFF) OR
       drop_bit 4 ((ucast (ucast (ucast (push_bit 4 (s AND 0xF)) :: u8) :: u16) :: u32) AND 0xF0)) :: u16) = s" (is "?y = s")
proof -
  show "(ucast ((ucast (ucast (push_bit 4 b OR (a AND 0xF)) :: u16) :: u32) AND 0xF) :: u16) = ucast (a AND 0xF)"
    by (rule bit_word_eqI) (auto simp: bits_simps)
  show "(ucast ((ucast (ucast a :: u16) :: u32) AND 0xFF) :: u8) = a"
    by (rule bit_word_eqI) (auto simp: bits_simps)
  show "?y = s"
  proof (rule bit_word_eqI)
    fix n
    assume "n < LENGTH(16)"
    then consider "n < 4" | "4 \<le> n" "n < 12" | "12 \<le> n" "n < 16" by fastforce
    then show "bit ?y n = bit s n" by cases (auto simp: bits_simps dest: bit_imp_le_length)
  qed
qed

lemma header_nibble:
  fixes c b :: u8
  shows "drop_bit 4 (ucast (ucast (push_bit 4 (c AND 0xf) OR drop_bit 4 b :: u8) :: u16) :: u32) AND 0xF = ucast (c AND 0xf)"
    "drop_bit 4 (ucast (ucast (push_bit 4 (c AND 0xf) OR (b AND 0xf) :: u8) :: u16) :: u32) AND 0xF = ucast (c AND 0xf)"
  by (rule bit_word_eqI, auto simp: bits_simps dest: bit_imp_le_length)+

lemma parse_dispatch:
  assumes "\<not> is_parsed p" and "raw_words p = 0x13C # a # b # ws @ [0x1DC]"
    and "packet_type_headers (unat (drop_bit 4 (ucast a :: u32) AND 0xF)) = Some t"
  shows "parse_packet p =
    (let p = p\<lparr>sp_type := t\<rparr>
     in if t = TYP_HCC_RR \<or> t = TYP_HCC_HPR then parse_data_HCC_read p
        else if t = TYP_ABC_RR \<or> t = TYP_ABC_HPR then parse_data_ABC_read p
        else if t = TYP_LP \<or> t = TYP_PR then parse_data_PRLP p
        else if t = TYP_ABC_TRANSP then parse_data_ABC_transparent p
        else Inr (0, p))"
  using assms by (simp add: parse_packet_def rw_def Let_def)

fun type_of :: "PacketTypes \<Rightarrow> PacketType" where
  "type_of PT_PR = TYP_PR"
| "type_of PT_LP = TYP_LP"
| "type_of PT_ABCRegRd = TYP_ABC_RR"
| "type_of PT_ABCPacketTransRegRd = TYP_ABC_TRANSP"
| "type_of PT_HCCRegRd = TYP_HCC_RR"
| "type_of PT_ABCFullTransRegRd = TYP_ABC_FULL"
| "type_of PT_ABCHPR = TYP_ABC_HPR"
| "type_of PT_HCCHPR = TYP_HCC_HPR"

lemma headers_code: "packet_type_headers (unat (ucast (pt_code typ AND 0xf) :: u32)) = Some (type_of typ)"
  by (cases "typ") (simp_all add: packet_type_headers_def)

lemma new_not_parsed: "\<not> is_parsed (packet_of_data ws)"
  by (simp add: packet_of_data_words is_parsed_def new_StarChipPacket_def)

lemma packet_of_bytes:
  "raw_words (packet_of_data (sendPacket_words bs)) =
   0x13C # map ucast bs @ replicate ((4 - length bs mod 4) mod 4) 0 @ [0x1DC]"
  by (simp add: packet_of_data_words transport)

lemma parse_bytes:
  assumes "bs = b0 # b1 # bs'" and "drop_bit 4 (ucast (ucast b0 :: u16) :: u32) AND 0xF = ucast (pt_code typ AND 0xf)"
  defines "p \<equiv> (packet_of_data (sendPacket_words bs))\<lparr>sp_type := type_of typ\<rparr>"
  shows "parse_packet (packet_of_data (sendPacket_words bs)) =
     (if typ = PT_HCCRegRd \<or> typ = PT_HCCHPR then parse_data_HCC_read p
      else if typ = PT_ABCRegRd \<or> typ = PT_ABCHPR then parse_data_ABC_read p
      else if typ = PT_LP \<or> typ = PT_PR then parse_data_PRLP p
      else if typ = PT_ABCPacketTransRegRd then parse_data_ABC_transparent p else Inr (0, p))"
proof -
  have "raw_words (packet_of_data (sendPacket_words bs)) =
      0x13C # ucast b0 # ucast b1 # (map ucast bs' @ replicate ((4 - length bs mod 4) mod 4) 0) @ [0x1DC]"
    by (simp add: packet_of_bytes assms(1))
  from parse_dispatch [OF new_not_parsed this, unfolded assms(2), OF headers_code]
  show ?thesis by (cases "typ") (simp_all add: p_def Let_def)
qed

lemma HCC_register_roundtrip:
  assumes "typ = PT_HCCRegRd \<or> typ = PT_HCCHPR" and bs: "bs = buildHCCRegisterPacket typ addr data"
  shows "\<exists>q. parse_packet (packet_of_data (sendPacket_words bs)) = Inr (0, q) \<and>
    sp_type q = type_of typ \<and> sp_address q = addr \<and> sp_value q = data"
proof -
  let ?p = "(packet_of_data (sendPacket_words bs))\<lparr>sp_type := type_of typ\<rparr>"
  note b = bs [unfolded buildHCCRegisterPacket_def]
  have "length bs = 6" by (simp add: b)
  then have "raw_words ?p = 0x13C # map ucast bs @ [0, 0, 0x1DC]"
    by (simp add: packet_of_bytes numeral_2_eq_2)
  note raw = this [unfolded b list.map append.simps]
  have "parse_packet (packet_of_data (sendPacket_words bs)) = parse_data_HCC_read ?p"
    using assms(1) by (simp add: parse_bytes [OF b header_nibble(1)])
  also have "\<dots> = Inr (0, ?p\<lparr>sp_address := addr, sp_value := data\<rparr>)"
    unfolding b parse_HCC_words [OF raw] by (simp only: byte_words address_parts join_parts)
  finally show ?thesis by simp
qed

lemma replicate_3: "replicate 3 x = [x, x, x]"
  by (simp add: eval_nat_numeral)

lemma ABC_register_roundtrip:
  assumes "typ = PT_ABCRegRd \<or> typ = PT_ABCHPR" and bs: "bs = buildABCRegisterPacket typ ic addr data status"
  shows "\<exists>q. parse_packet (packet_of_data (sendPacket_words bs)) = Inr (0, q) \<and>
    sp_type q = type_of typ \<and> channel_abc q = ucast (ic AND 0xF) \<and> sp_address q = addr \<and> sp_value q = data \<and>
    abc_status q = status"
proof -
  let ?p = "(packet_of_data (sendPacket_words bs))\<lparr>sp_type := type_of typ\<rparr>"
  note b = bs [unfolded buildABCRegisterPacket_def]
  have "length bs = 9" by (simp add: b)
  then have "raw_words ?p = 0x13C # map ucast bs @ [0, 0, 0, 0x1DC]"
    by (simp add: packet_of_bytes replicate_3)
  note raw = this [unfolded b list.map append.simps]
  have "parse_packet (packet_of_data (sendPacket_words bs)) = parse_data_ABC_read ?p"
    unfolding parse_bytes [OF b header_nibble(2)] using assms(1) by (elim disjE) simp_all
  also have "\<dots> = Inr (0, ?p\<lparr>channel_abc := ucast (ic AND 0xF), sp_address := addr, sp_value := data, abc_status := status\<rparr>)"
    unfolding b parse_ABC_words [OF raw] unfolding byte_words ABC_parts join_parts
    by simp
  finally show ?thesis by simp
qed


section \<open>Round trip of physics packets\<close>

definition word_bytes :: "u16 list \<Rightarrow> u16 list" where
  "word_bytes cs = concat (map (\<lambda>w. map ucast (two_bytes w)) cs)"

lemma word_bytes_simps [simp]:
  "word_bytes [] = []"
  "word_bytes (w # cs) = ucast (ucast (drop_bit 8 w AND 0xff) :: u8) # ucast (ucast (w AND 0xff) :: u8) # word_bytes cs"
  by (simp_all add: word_bytes_def two_bytes_def)

lemma length_word_bytes: "length (word_bytes cs) = 2 * length cs"
  by (induction cs) simp_all

lemma bytes_join:
  fixes w :: u16
  shows "push_bit 8 (ucast (ucast (drop_bit 8 w AND 0xff) :: u8) :: u16) OR ucast (ucast (w AND 0xff) :: u8) = w"
    (is "?y = w")
proof (rule bit_word_eqI)
  fix n
  assume "n < LENGTH(16)"
  then consider "n < 8" | "8 \<le> n" "n < 16" by fastforce
  then show "bit ?y n = bit w n"
    by cases (auto simp: bits_simps dest: bit_imp_le_length)
qed

lemma byte_not_idle: "ucast (b :: u8) \<noteq> (0x3FF :: u16)"
proof
  assume "ucast b = (0x3FF :: u16)"
  then have "bit (ucast b :: u16) 9" by (simp add: bits_simps)
  then show False by (auto simp: bit_simps dest: bit_imp_le_length)
qed

lemma drop_ConsD: "drop i ws = x # xs \<Longrightarrow> i < length ws \<and> ws ! i = x \<and> drop (Suc i) ws = xs"
  by (metis Cons_nth_drop_Suc drop_all list.distinct(1) list.inject not_le_imp_less)

lemma prlp_step:
  assumes "drop i ws = word_bytes [w] @ rest"
  shows "prlp_loop ws i p =
    (if w = 0x77F4 then
       (if length ws < i + 8 then Inr (False, i, p)
        else rbind (error_word_at ws i) (\<lambda>error_word.
             prlp_loop ws (i + 8) (p\<lparr>error_block := Some (parse_ErrorBlock error_word)\<rparr>)))
     else if w = 0x6FED then Inr (True, i, p)
     else if w AND 0x7FF = 0x3FE then prlp_loop ws (i + 2) p
     else prlp_loop ws (i + 2) (p\<lparr>sp_clusters := sp_clusters p @ [cluster_of w]\<rparr>))"
proof -
  let ?a = "ucast (drop_bit 8 w AND 0xff) :: u8" and ?b = "ucast (w AND 0xff) :: u8"
  from assms have "drop i ws = ucast ?a # ucast ?b # rest" by (simp only: word_bytes_simps append.simps)
  from drop_ConsD [OF this] drop_ConsD [of "Suc i" ws] have
    ws: "Suc i < length ws" "ws ! i = ucast ?a" "ws ! (Suc i) = ucast ?b" by auto
  have "skip_idles ws i = Inr (Some i)"
    using ws byte_not_idle by (subst skip_idles.simps) simp
  then show ?thesis
    using ws by (subst prlp_loop.simps) (simp add: bytes_join Let_def)
qed

lemma prlp_words:
  assumes "\<forall>w \<in> set cs. w \<noteq> 0x77F4 \<and> w \<noteq> 0x6FED" and "drop i ws = word_bytes (cs @ [0x6FED]) @ rest"
  shows "prlp_loop ws i p = Inr (True, i + 2 * length cs,
    p\<lparr>sp_clusters := sp_clusters p @ map cluster_of (filter (\<lambda>w. w AND 0x7FF \<noteq> 0x3FE) cs)\<rparr>)"
  using assms
proof (induction cs arbitrary: i p)
  case Nil
  then have "drop i ws = word_bytes [0x6FED] @ rest" by simp
  from prlp_step [OF this] show ?case by simp
next
  case (Cons w cs)
  then have d: "drop i ws = word_bytes [w] @ word_bytes (cs @ [0x6FED]) @ rest" by simp
  have "drop (i + 2) ws = drop 2 (drop i ws)" by (simp add: add.commute)
  also have "\<dots> = word_bytes (cs @ [0x6FED]) @ rest" unfolding d by simp
  finally have d2: "drop (i + 2) ws = word_bytes (cs @ [0x6FED]) @ rest" .
  have ne: "w \<noteq> 0x77F4" "w \<noteq> 0x6FED" "\<forall>w \<in> set cs. w \<noteq> 0x77F4 \<and> w \<noteq> 0x6FED" using Cons.prems(1) by auto
  show ?case
    using prlp_step [OF d, of p] ne(1,2) Cons.IH [OF ne(3) d2] by simp
qed

text \<open>The header.\<close>

lemma header_parts:
  fixes "typ" :: PacketTypes and l b :: u8
  defines "h \<equiv> physics_header typ l b"
  defines "w1 \<equiv> (ucast (ucast (ucast (drop_bit 8 h AND 0xff) :: u8) :: u16) :: u32)"
    and "w2 \<equiv> (ucast (ucast (ucast (h AND 0xff) :: u8) :: u16) :: u32)"
  shows "drop_bit 4 w1 AND 0xF = ucast (pt_code typ AND 0xf)" "drop_bit 3 w1 AND 1 = 0"
    "push_bit 4 (w1 AND 7) OR (drop_bit 4 w2 AND 0xF) = ucast (l AND 0x7f)"
    "drop_bit 1 w2 AND 7 = ucast (b AND 7)" "w2 AND 1 = of_bool (getParity_8bits b)"
proof -
  have "pt_code typ = take_bit 4 (pt_code typ)" by (cases "typ") simp_all
  then have pt: "bit (pt_code typ) n \<Longrightarrow> n < 4" for n by (metis bit_take_bit_iff)
  have h: "bit h n \<longleftrightarrow> (12 \<le> n \<and> n < 16 \<and> bit (pt_code typ) (n - 12)) \<or> (4 \<le> n \<and> n < 11 \<and> bit l (n - 4)) \<or>
      (1 \<le> n \<and> n < 4 \<and> bit b (n - 1)) \<or> (n = 0 \<and> getParity_8bits b)" for n
    unfolding h_def physics_header_def Let_def bit_or_iff bit_push_bit_iff
    by (auto simp: bits_simps bit_1_iff dest: bit_imp_le_length)
  show "drop_bit 4 w1 AND 0xF = ucast (pt_code typ AND 0xf)"
    by (rule bit_word_eqI) (auto simp: w1_def bits_simps h dest: bit_imp_le_length)
  show "drop_bit 3 w1 AND 1 = 0"
  proof -
    have "\<not> bit w1 3" by (simp add: w1_def bits_simps h)
    then show ?thesis by (simp add: and_one_eq mod_2_eq_odd bit_iff_odd_drop_bit)
  qed
  show "push_bit 4 (w1 AND 7) OR (drop_bit 4 w2 AND 0xF) = ucast (l AND 0x7f)"
    by (rule bit_word_eqI) (auto simp: w1_def w2_def bits_simps h dest: bit_imp_le_length)
  show "drop_bit 1 w2 AND 7 = ucast (b AND 7)"
    by (rule bit_word_eqI) (auto simp: w2_def bits_simps h dest: bit_imp_le_length)
  show "w2 AND 1 = of_bool (getParity_8bits b)"
  proof -
    have "bit w2 0 \<longleftrightarrow> getParity_8bits b" by (simp add: w2_def bits_simps h)
    then show ?thesis by (simp add: and_one_eq mod_2_eq_odd bit_0)
  qed
qed


text \<open>The words of the clusters by input channel, in the order of the packet.\<close>

definition words_of :: "u16 list list \<Rightarrow> u16 list" where
  "words_of cls = concat (map (\<lambda>(ic, cs). map (cluster_word ic) cs) (zip [0..<length cls] cls))"

lemma body_words:
  "concat (map (\<lambda>(ic, cs). concat (map (\<lambda>c. two_bytes (cluster_word ic c)) cs)) xs) =
   concat (map two_bytes (concat (map (\<lambda>(ic, cs). map (cluster_word ic) cs) xs)))"
  by (induction xs) (auto simp: comp_def)

lemma word_bytes_alt: "word_bytes cs = map ucast (concat (map two_bytes cs))"
  by (induction cs) (simp_all add: two_bytes_def)

lemma cluster_word_channel:
  assumes "ic < 11"
  shows "cluster_word ic c \<noteq> 0x77F4" "cluster_word ic c \<noteq> 0x6FED"
proof -
  have u: "unat (of_nat ic :: u16) = ic" using assms by (simp add: unat_of_nat)
  then have tb: "take_bit 4 (of_nat ic :: u16) = of_nat ic"
    by (intro take_bit_idem_unat) (use assms in simp)
  have "take_bit 4 ic = ic" using assms by (simp add: take_bit_nat_eq_self)
  then have "\<And>n. bit ic n \<Longrightarrow> n < 5" by (metis bit_take_bit_iff less_SucI eval_nat_numeral(3))
  then have d: "drop_bit 11 (cluster_word ic c) = of_nat ic"
    unfolding cluster_word_def and_literals(4) tb
    by (intro bit_word_eqI) (auto simp: bits_simps dest: bit_imp_le_length)
  show "cluster_word ic c \<noteq> 0x77F4"
  proof
    assume "cluster_word ic c = 0x77F4"
    with d have "(of_nat ic :: u16) = 14" by simp
    then have "unat (of_nat ic :: u16) = 14" by simp
    with u assms show False by simp
  qed
  show "cluster_word ic c \<noteq> 0x6FED"
  proof
    assume "cluster_word ic c = 0x6FED"
    with d have "(of_nat ic :: u16) = 13" by simp
    then have "unat (of_nat ic :: u16) = 13" by simp
    with u assms show False by simp
  qed
qed

lemma words_of_ok:
  assumes "length cls \<le> 11"
  shows "\<forall>w \<in> set (words_of cls). w \<noteq> 0x77F4 \<and> w \<noteq> 0x6FED"
proof
  fix w
  assume "w \<in> set (words_of cls)"
  then obtain ic c where "w = cluster_word ic c" "ic < length cls"
    by (auto simp: words_of_def dest!: set_zip_leftD)
  with assms cluster_word_channel [of ic c] show "w \<noteq> 0x77F4 \<and> w \<noteq> 0x6FED" by simp
qed

lemma physics_bytes:
  "buildPhysicsPacket cls typ l b =
   (if words_of cls = [] then [] else buildPhysicsPacket_raw (words_of cls) typ l b)"
proof -
  have "concat (map two_bytes ws) = [] \<longleftrightarrow> ws = []" for ws by (cases ws) (simp_all add: two_bytes_def)
  then show ?thesis
    unfolding buildPhysicsPacket_def buildPhysicsPacket_raw_def Let_def body_words words_of_def [symmetric] endOfPacket_def
    by (simp add: two_bytes_def)
qed

lemma even_pad: "(4 - (4 + 2 * k) mod 4) mod 4 \<le> (2 :: nat)"
proof -
  have "(4 + 2 * k) mod 4 = 2 * (k mod 2)" by (simp add: mult_mod_right)
  moreover have "k mod 2 = 0 \<or> k mod 2 = 1" by auto
  ultimately show ?thesis by (elim disjE) (simp_all only:, simp_all)
qed

lemma physics_raw_roundtrip:
  assumes "typ = PT_LP \<or> typ = PT_PR" and ws: "\<forall>w \<in> set ws. w \<noteq> 0x77F4 \<and> w \<noteq> 0x6FED"
    and bs: "bs = buildPhysicsPacket_raw ws typ l b"
  shows "parse_packet (packet_of_data (sendPacket_words bs)) = Inr (0, (packet_of_data (sendPacket_words bs))
    \<lparr>sp_type := type_of typ, sp_flag := 0, sp_l0id := ucast (l AND 0x7f), sp_bcid := ucast (b AND 7),
     sp_bcid_parity := of_bool (getParity_8bits b),
     sp_clusters := map cluster_of (filter (\<lambda>w. w AND 0x7FF \<noteq> 0x3FE) ws)\<rparr>)"
proof -
  let ?p = "(packet_of_data (sendPacket_words bs))\<lparr>sp_type := type_of typ\<rparr>"
  let ?h = "physics_header typ l b"
  let ?w1 = "ucast (drop_bit 8 ?h AND 0xff) :: u8" and ?w2 = "ucast (?h AND 0xff) :: u8"
  have b: "bs = ?w1 # ?w2 # concat (map two_bytes ws) @ two_bytes 0x6FED"
    by (simp add: bs buildPhysicsPacket_raw_def two_bytes_def endOfPacket_def)
  have "length (concat (map two_bytes ws)) = 2 * length ws" by (induction ws) (simp_all add: two_bytes_def)
  then have len: "length bs = 4 + 2 * length ws" by (simp add: b two_bytes_def)
  obtain n where n: "n = (4 - length bs mod 4) mod 4" by blast
  have raw: "raw_words ?p = 0x13C # ucast ?w1 # ucast ?w2 # word_bytes (ws @ [0x6FED]) @ replicate n 0 @ [0x1DC]"
    by (simp add: packet_of_bytes n [symmetric]) (simp add: word_bytes_alt b)
  let ?q = "?p\<lparr>sp_flag := 0, sp_l0id := ucast (l AND 0x7f), sp_bcid := ucast (b AND 7),
     sp_bcid_parity := of_bool (getParity_8bits b)\<rparr>"
  have "drop 3 (raw_words ?q) = word_bytes (ws @ [0x6FED]) @ replicate n 0 @ [0x1DC]"
    using raw by simp
  from prlp_words [OF ws this, of ?q] have
    loop: "prlp_loop (raw_words ?q) 3 ?q = Inr (True, 3 + 2 * length ws,
      ?q\<lparr>sp_clusters := map cluster_of (filter (\<lambda>w. w AND 0x7FF \<noteq> 0x3FE) ws)\<rparr>)"
    by (simp add: packet_of_data_words new_StarChipPacket_def)
  have size: "length (raw_words ?p) = 2 * length ws + 6 + n"
    unfolding raw by (simp add: length_word_bytes)
  have n2: "n \<le> 2" unfolding n len by (rule even_pad)
  then have "unat (of_nat n :: u32) = n" by (simp add: unat_of_nat)
  then have "\<not> (of_nat n :: u32) > 2" using n2 by (simp add: word_less_nat_alt)
  then have rest: "\<not> (of_nat (length (raw_words ?p)) - of_nat (3 + 2 * length ws + 3) > (2 :: u32))"
    unfolding size by (simp add: algebra_simps)
  have rw12: "rw ?p 1 = Inr (ucast (ucast ?w1 :: u16))" "rw ?p 2 = Inr (ucast (ucast ?w2 :: u16))"
    unfolding rw_def raw by simp_all
  have "parse_data_PRLP ?p = Inr (0, ?q\<lparr>sp_clusters := map cluster_of (filter (\<lambda>w. w AND 0x7FF \<noteq> 0x3FE) ws)\<rparr>)"
    unfolding parse_data_PRLP_def rw12 rbind_Inr header_parts
    using loop rest by (simp add: Let_def)
  then show ?thesis
    unfolding parse_bytes [OF b header_parts(1)] using assms(1) by (elim disjE) simp_all
qed


text \<open>A cluster, in the fields it is sent in.\<close>

lemma cluster_of_word:
  assumes "ic < 11"
  shows "cluster_of (cluster_word ic c) =
    \<lparr>cl_input_channel = of_nat ic, cl_raw_cluster = ucast (c AND 0x7ff), cl_address = ucast (drop_bit 3 c AND 0xff),
     cl_next = ucast (c AND 7)\<rparr>"
    and "(cluster_word ic c AND 0x7FF = 0x3FE) \<longleftrightarrow> (c AND 0x7ff = 0x3fe)"
proof -
  have "take_bit 4 ic = ic" using assms by (simp add: take_bit_nat_eq_self)
  then have ic: "bit ic n \<Longrightarrow> n < 4" for n by (metis bit_take_bit_iff)
  have bits: "bit (cluster_word ic c) n \<longleftrightarrow> n < 11 \<and> bit c n \<or> 11 \<le> n \<and> n < 16 \<and> bit ic (n - 11)" for n
    using ic by (auto simp: cluster_word_def bits_simps dest: bit_imp_le_length)
  have low: "cluster_word ic c AND 0x7FF = c AND 0x7FF"
    by (rule bit_word_eqI) (auto simp: bits_simps bits)
  have ch: "ucast (drop_bit 11 (cluster_word ic c) AND 0xF) = (of_nat ic :: u8)"
    by (rule bit_word_eqI) (auto simp: bits_simps bits dest: ic)
  have ad: "ucast (drop_bit 3 (cluster_word ic c) AND 0xFF) = (ucast (drop_bit 3 c AND 0xff) :: u8)"
    by (rule bit_word_eqI) (auto simp: bits_simps bits)
  have nx: "ucast (cluster_word ic c AND 7) = (ucast (c AND 7) :: u8)"
    by (rule bit_word_eqI) (auto simp: bits_simps bits)
  show "cluster_of (cluster_word ic c) =
    \<lparr>cl_input_channel = of_nat ic, cl_raw_cluster = ucast (c AND 0x7ff), cl_address = ucast (drop_bit 3 c AND 0xff),
     cl_next = ucast (c AND 7)\<rparr>"
    unfolding cluster_of_def low ch ad nx ..
  show "(cluster_word ic c AND 0x7FF = 0x3FE) \<longleftrightarrow> (c AND 0x7ff = 0x3fe)" unfolding low ..
qed

definition sent_clusters :: "u16 list list \<Rightarrow> Cluster list" where
  "sent_clusters cls = concat (map (\<lambda>(ic, cs). map (\<lambda>c.
     \<lparr>cl_input_channel = of_nat ic, cl_raw_cluster = ucast (c AND 0x7ff), cl_address = ucast (drop_bit 3 c AND 0xff),
      cl_next = ucast (c AND 7)\<rparr>) (filter (\<lambda>c. c AND 0x7ff \<noteq> 0x3fe) cs)) (zip [0..<length cls] cls))"

lemma clusters_of_words:
  assumes "length cls \<le> 11"
  shows "map cluster_of (filter (\<lambda>w. w AND 0x7FF \<noteq> 0x3FE) (words_of cls)) = sent_clusters cls"
proof -
  have one: "map cluster_of (filter (\<lambda>w. w AND 0x7FF \<noteq> 0x3FE) (map (cluster_word ic) cs)) =
      map (\<lambda>c. \<lparr>cl_input_channel = of_nat ic, cl_raw_cluster = ucast (c AND 0x7ff), cl_address = ucast (drop_bit 3 c AND 0xff),
        cl_next = ucast (c AND 7)\<rparr>) (filter (\<lambda>c. c AND 0x7ff \<noteq> 0x3fe) cs)" if "ic < 11" for ic cs
    by (induction cs) (simp_all add: cluster_of_word [OF that])
  have "\<forall>(ic, cs) \<in> set (zip [0..<length cls] cls). ic < 11"
    using assms by (auto dest!: set_zip_leftD)
  then have "map (\<lambda>(ic, cs). map cluster_of (filter (\<lambda>w. w AND 0x7FF \<noteq> 0x3FE) (map (cluster_word ic) cs))) (zip [0..<length cls] cls)
    = map (\<lambda>(ic, cs). map (\<lambda>c. \<lparr>cl_input_channel = of_nat ic, cl_raw_cluster = ucast (c AND 0x7ff),
        cl_address = ucast (drop_bit 3 c AND 0xff), cl_next = ucast (c AND 7)\<rparr>)
        (filter (\<lambda>c. c AND 0x7ff \<noteq> 0x3fe) cs)) (zip [0..<length cls] cls)"
    by (intro map_cong) (auto simp only: one split: prod.splits)
  moreover have "map cluster_of (filter P (concat (map (\<lambda>(ic, cs). map (cluster_word ic) cs) xs))) =
      concat (map (\<lambda>(ic, cs). map cluster_of (filter P (map (cluster_word ic) cs))) xs)" for P xs
    by (induction xs) auto
  ultimately show ?thesis by (simp only: words_of_def sent_clusters_def)
qed

section \<open>Properties\<close>

text \<open>C17: A register read-back packet of the HCC survives the transport: built by the emulator, packed
  into 32-bit words and parsed by the data processor (which sees the padding bytes), it gives the
  packet type, the address and the value it was built from, and parsing returns 0.\<close>

theorem HCC_packet_roundtrip:
  assumes "typ = PT_HCCRegRd \<or> typ = PT_HCCHPR"
  shows "\<exists>q. parse_packet (packet_of_data (sendPacket_words (buildHCCRegisterPacket typ addr data))) = Inr (0, q) \<and>
    sp_type q = type_of typ \<and> sp_address q = addr \<and> sp_value q = data"
  using assms by (rule HCC_register_roundtrip) (rule refl)

theorem HCC_packet_roundtrip_witness:
  "\<exists>q. parse_packet (packet_of_data (sendPacket_words (buildHCCRegisterPacket PT_HCCHPR 15 0x12345678))) = Inr (0, q) \<and>
    sp_value q = 0x12345678"
  using HCC_packet_roundtrip [of PT_HCCHPR 15 "0x12345678"] by blast

text \<open>C18: The same for a register read-back packet of an ABC, with the input channel (its low four
  bits) and the status word.\<close>

theorem ABC_packet_roundtrip:
  assumes "typ = PT_ABCRegRd \<or> typ = PT_ABCHPR"
  shows "\<exists>q. parse_packet (packet_of_data (sendPacket_words (buildABCRegisterPacket typ ic addr data status))) = Inr (0, q) \<and>
    sp_type q = type_of typ \<and> channel_abc q = ucast (ic AND 0xF) \<and> sp_address q = addr \<and> sp_value q = data \<and>
    abc_status q = status"
  using assms by (rule ABC_register_roundtrip) (rule refl)

theorem ABC_packet_roundtrip_witness:
  "\<exists>q. parse_packet (packet_of_data (sendPacket_words (buildABCRegisterPacket PT_ABCRegRd 7 16 0xdeadbeef 0xa123))) = Inr (0, q) \<and>
    sp_value q = 0xdeadbeef \<and> abc_status q = 0xa123"
  using ABC_packet_roundtrip [of PT_ABCRegRd 7 16 "0xdeadbeef" "0xa123"] by blast

text \<open>C8: A physics packet survives the transport as well: if it is not empty, parsing it returns 0 and
  gives the trigger tag, the low bits of the bunch counter with their parity, and exactly the
  clusters sent, in order, with their input channels (the ``no cluster'' words are dropped).\<close>

theorem physics_packet_roundtrip:
  assumes "typ = PT_LP \<or> typ = PT_PR" and "length cls \<le> 11" and "buildPhysicsPacket cls typ l b \<noteq> []"
  shows "\<exists>q. parse_packet (packet_of_data (sendPacket_words (buildPhysicsPacket cls typ l b))) = Inr (0, q) \<and>
    sp_type q = type_of typ \<and> sp_flag q = 0 \<and> sp_l0id q = ucast (l AND 0x7f) \<and> sp_bcid q = ucast (b AND 7) \<and>
    sp_bcid_parity q = of_bool (getParity_8bits b) \<and> sp_clusters q = sent_clusters cls"
proof -
  from assms(3) have e: "buildPhysicsPacket cls typ l b = buildPhysicsPacket_raw (words_of cls) typ l b"
    by (simp add: physics_bytes split: if_splits)
  from physics_raw_roundtrip [OF assms(1) words_of_ok [OF assms(2)] e] show ?thesis
    by (simp add: clusters_of_words [OF assms(2)])
qed

theorem physics_packet_roundtrip_witness:
  "\<exists>q. parse_packet (packet_of_data (sendPacket_words (buildPhysicsPacket [[0x123], [], [0x3fe, 0x7ff]] PT_LP 0x55 0xab))) = Inr (0, q) \<and>
    length (sp_clusters q) = 2"
proof -
  have "buildPhysicsPacket [[0x123], [], [0x3fe, 0x7ff]] PT_LP 0x55 0xab \<noteq> []"
    by (simp add: buildPhysicsPacket_def two_bytes_def Let_def)
  moreover have "length (sent_clusters [[0x123], [], [0x3fe, 0x7ff]]) = 2"
    by (simp add: sent_clusters_def)
  ultimately show ?thesis
    using physics_packet_roundtrip [of PT_LP "[[0x123], [], [0x3fe, 0x7ff]]" "0x55" "0xab"] by auto
qed

text \<open>C36: Parsing always returns, whatever the words are, and reads only words of the packet, with one
  exception: a packet of the type ABC transparent, whose words 2 to 9 are read without a test of
  the length.\<close>

theorem parse_reads_inside:
  "case parse_packet p of
     Inr (r, q) \<Rightarrow> r \<le> 1 \<and> raw_words q = raw_words p
   | Inl e \<Rightarrow> e = Undefined \<and> length (raw_words p) < 10 \<and> drop_bit 4 (raw_words p ! 1) AND 0xF = 7"
proof -
  let ?E = "\<lambda>e. e = Undefined \<and> length (raw_words p) < 10 \<and> drop_bit 4 (raw_words p ! 1) AND 0xF = 7"
  let ?p = "if is_parsed p then clear_parsed_info p else p"
  have rp: "raw_words ?p = raw_words p" by (simp add: clear_parsed_info_def)
  let ?k = "unat (drop_bit 4 (ucast (raw_words p ! 1) :: u32) AND 0xF)"
  have k: "drop_bit 4 (raw_words p ! 1) AND 0xF = 7" if "?k = 7"
  proof -
    have "drop_bit 4 (ucast (raw_words p ! 1) :: u32) AND 0xF = ucast (drop_bit 4 (raw_words p ! 1) AND 0xF)"
      by (rule bit_word_eqI) (auto simp: bits_simps)
    moreover have "unat (ucast x :: u32) = unat x" for x :: u16
      using unsigned_less [of x, where 'a = nat] by (simp add: unsigned_ucast_eq take_bit_nat_eq_self)
    ultimately have "unat (drop_bit 4 (raw_words p ! 1) AND 0xF) = unat (7 :: u16)" using that by simp
    then show ?thesis by (rule unsigned_word_eqI)
  qed
  have transp: "t = TYP_ABC_TRANSP \<Longrightarrow> packet_type_headers ?k = Some t \<Longrightarrow> ?k = 7" for t
    by (auto simp: packet_type_headers_def split: if_splits)
  have "rsat ?E (parsed_from p) (parse_packet p)"
  proof (cases "length (raw_words p) < 4 \<or> hd (raw_words p) \<noteq> 0x13C \<or> last (raw_words p) \<noteq> 0x1DC")
    case True
    then show ?thesis using rp by (auto simp: parse_packet_def Let_def clear_parsed_info_def)
  next
    case False
    then have len: "4 \<le> length (raw_words p)" by simp
    then have w1: "rw ?p 1 = Inr (ucast (raw_words p ! 1))" using rp by (subst rw_sat) simp_all
    show ?thesis
    proof (cases "packet_type_headers ?k")
      case None
      then show ?thesis using False rp w1 by (simp add: parse_packet_def Let_def)
    next
      case (Some t)
      let ?q = "?p\<lparr>sp_type := t\<rparr>"
      have rq: "raw_words ?q = raw_words p" using rp by simp
      have "rsat ?E (parsed_from p) (parse_data_HCC_read ?q)" "rsat ?E (parsed_from p) (parse_data_ABC_read ?q)"
        "rsat ?E (parsed_from p) (parse_data_PRLP ?q)"
        using HCC_read_safe [of ?q] ABC_read_safe [of ?q] PRLP_safe [of ?q] len unfolding rq
        by (auto elim!: rsat_weaken)
      moreover have "rsat ?E (parsed_from p) (parse_data_ABC_transparent ?q)" if "t = TYP_ABC_TRANSP"
        using transparent_safe [of ?q] k transp [OF that Some] unfolding rq by (auto elim!: rsat_weaken)
      ultimately show ?thesis
        using False Some rp w1 rq by (simp add: parse_packet_def Let_def)
    qed
  qed
  then show ?thesis by (cases "parse_packet p") (auto split: prod.split)
qed

end
