(* ===== verification/Star_Clusters.thy ===== *)
theory Star_Clusters
  imports Yarr_Prelude
begin

text \<open>
  The cluster finder of the emulated ABC (src/src/libStarEmu/StarChipsetEmu.cpp, \<open>clusterFinder\<close> and
  its helpers). The 256 strips are two rows of 128; a row is held in two 64-bit words. A cluster
  is the address of a hit strip and the pattern of the next three strips of its row.
\<close>

type_synonym StripData = "256 word"

section \<open>Model\<close>

definition getBit_128b :: "u8 \<Rightarrow> u64 \<Rightarrow> u64 \<Rightarrow> bool" where
  "getBit_128b bit_addr data_high64 data_low64 =
     (if bit_addr > 127 then False
      else if bit_addr < 64 then drop_bit (unat bit_addr) data_low64 AND 1 \<noteq> 0
      else drop_bit (unat (bit_addr - 64)) data_high64 AND 1 \<noteq> 0)"

definition setBit_128b :: "u8 \<Rightarrow> bool \<Rightarrow> u64 \<times> u64 \<Rightarrow> u64 \<times> u64" where
  "setBit_128b bit_addr v d =
     (case d of (data_high64, data_low64) \<Rightarrow>
      if bit_addr < 64 then
        (data_high64,
         (data_low64 AND NOT (push_bit (unat bit_addr) 1)) OR push_bit (unat bit_addr) (of_bool v))
      else if bit_addr < 128 then
        ((data_high64 AND NOT (push_bit (unat (bit_addr - 64)) 1)) OR push_bit (unat (bit_addr - 64)) (of_bool v),
         data_low64)
      else (data_high64, data_low64))"

text \<open>\<open>__builtin_ctzll\<close>, the number of trailing zeros of a non-zero word.\<close>

definition ctzll :: "u64 \<Rightarrow> nat" where
  "ctzll x = (case find (bit x) [0..<64] of Some i \<Rightarrow> i | None \<Rightarrow> 64)"

definition clusterFinder_sub :: "u64 \<Rightarrow> u64 \<Rightarrow> bool \<Rightarrow> u16 \<times> u64 \<times> u64" where
  "clusterFinder_sub hits_high64 hits_low64 isSecondRow =
     (let hit_addr = (if hits_low64 \<noteq> 0 then of_nat (ctzll hits_low64)
                      else if hits_high64 \<noteq> 0 then of_nat (ctzll hits_high64 + 64) else 128) :: u8;
          hitpat_next3 = push_bit 2 (of_bool (getBit_128b (hit_addr + 1) hits_high64 hits_low64))
            OR push_bit 1 (of_bool (getBit_128b (hit_addr + 2) hits_high64 hits_low64))
            OR of_bool (getBit_128b (hit_addr + 3) hits_high64 hits_low64) :: u8;
          d = fold (\<lambda>i. setBit_128b (hit_addr + of_nat i) False) [0..<4] (hits_high64, hits_low64)
      in if hit_addr = 128 then (0x3ff, fst d, snd d)
         else let hit_addr = hit_addr + (if isSecondRow then 128 else 0)
              in (push_bit 3 (ucast hit_addr) OR ucast hitpat_next3, fst d, snd d))"

text \<open>One row as the set of its hit strips.\<close>

definition row_set :: "u64 \<Rightarrow> u64 \<Rightarrow> nat set" where
  "row_set hi lo = {i. i < 64 \<and> bit lo i \<or> 64 \<le> i \<and> i < 128 \<and> bit hi (i - 64)}"

lemma row_set_finite [simp]: "finite (row_set hi lo)"
  by (rule finite_subset [of _ "{..<128}"]) (auto simp: row_set_def)

lemma row_set_lt: "i \<in> row_set hi lo \<Longrightarrow> i < 128"
  by (auto simp: row_set_def)

lemma ctzll_spec:
  assumes "x \<noteq> 0"
  shows "ctzll x < 64 \<and> bit x (ctzll x) \<and> (\<forall>i < ctzll x. \<not> bit x i)"
proof -
  have "\<exists>k. bit x k"
  proof (rule ccontr)
    assume "\<nexists>k. bit x k"
    then have "x = 0" by (intro bit_word_eqI) simp
    with assms show False by simp
  qed
  then obtain k where k: "bit x k" by blast
  then have "k < 64" by (auto dest: bit_imp_le_length)
  with k have "find (bit x) [0..<64] \<noteq> None" by (auto simp: find_None_iff)
  then obtain i where i: "find (bit x) [0..<64] = Some i" by auto
  then have "i < 64 \<and> bit x i \<and> (\<forall>j < i. \<not> bit x j)" by (auto simp: find_Some_iff)
  moreover have "ctzll x = i" by (simp add: ctzll_def i)
  ultimately show ?thesis by simp
qed

lemma getBit_set:
  assumes "n < 256"
  shows "getBit_128b (of_nat n) hi lo \<longleftrightarrow> n \<in> row_set hi lo"
proof -
  have u: "unat (of_nat n :: u8) = n" using assms by (simp add: unat_of_nat)
  have le: "(of_nat n :: u8) > 127 \<longleftrightarrow> n > 127" "(of_nat n :: u8) < 64 \<longleftrightarrow> n < 64"
    by (simp_all add: word_less_nat_alt u)
  have sub: "unat (of_nat n - 64 :: u8) = n - 64" if "64 \<le> n"
  proof -
    have "(64 :: u8) \<le> of_nat n" using that by (simp add: word_le_nat_alt u)
    then show ?thesis by (simp add: unat_sub u)
  qed
  show ?thesis
    using sub by (auto simp: getBit_128b_def le u row_set_def and_one_eq mod_2_eq_odd bit_iff_odd_drop_bit [symmetric])
qed

lemma bit_and_not_exp: "bit (v AND NOT (2 ^ k) :: 'a::len word) n \<longleftrightarrow> bit v n \<and> n \<noteq> k"
  by (auto simp: bit_simps dest: bit_imp_le_length)

lemma setBit_set:
  assumes "n < 256"
  shows "row_set (fst (setBit_128b (of_nat n) False d)) (snd (setBit_128b (of_nat n) False d)) =
    row_set (fst d) (snd d) - {n}"
proof -
  have u: "unat (of_nat n :: u8) = n" using assms by (simp add: unat_of_nat)
  have le: "(of_nat n :: u8) < 128 \<longleftrightarrow> n < 128" "(of_nat n :: u8) < 64 \<longleftrightarrow> n < 64"
    by (simp_all add: word_less_nat_alt u)
  have sub: "unat (of_nat n - 64 :: u8) = n - 64" if "64 \<le> n"
  proof -
    have "(64 :: u8) \<le> of_nat n" using that by (simp add: word_le_nat_alt u)
    then show ?thesis by (simp add: unat_sub u)
  qed
  obtain hi lo where d: "d = (hi, lo)" by (cases d)
  consider "n < 64" | "64 \<le> n" "n < 128" | "128 \<le> n" by linarith
  then show ?thesis
  proof cases
    case 1
    then have "setBit_128b (of_nat n) False d = (hi, lo AND NOT (push_bit n 1))"
      by (simp add: setBit_128b_def d le u)
    with 1 show ?thesis by (auto simp: d row_set_def bit_and_not_exp)
  next
    case 2
    then have "setBit_128b (of_nat n) False d = (hi AND NOT (push_bit (n - 64) 1), lo)"
      by (simp add: setBit_128b_def d le u sub)
    with 2 show ?thesis by (auto simp: d row_set_def bit_and_not_exp)
  next
    case 3
    then have "setBit_128b (of_nat n) False d = d" by (simp add: setBit_128b_def d le u)
    with 3 show ?thesis by (auto simp: row_set_def)
  qed
qed

lemma hit_addr_Min:
  "(if lo \<noteq> 0 then ctzll lo else if hi \<noteq> 0 then ctzll hi + 64 else 128) =
   (if row_set hi lo = {} then 128 else Min (row_set hi lo))"
proof (cases "lo = 0 \<and> hi = 0")
  case True
  then show ?thesis by (simp add: row_set_def)
next
  case False
  let ?a = "if lo \<noteq> 0 then ctzll lo else ctzll hi + 64"
  have "?a \<in> row_set hi lo"
    using False ctzll_spec [of lo] ctzll_spec [of hi] by (auto simp: row_set_def)
  moreover have "?a \<le> i" if "i \<in> row_set hi lo" for i
    using that False ctzll_spec [of lo] ctzll_spec [of hi]
    by (auto simp: row_set_def not_less [symmetric] split: if_splits)
  ultimately have "Min (row_set hi lo) = ?a" "row_set hi lo \<noteq> {}"
    by (auto intro: Min_eqI)
  with False show ?thesis by auto
qed

section \<open>One cluster\<close>

definition cluster_strips :: "u16 \<Rightarrow> nat set" where
  "cluster_strips c =
     (let a = unat (drop_bit 3 c AND 0xff)
      in {a} \<union> (if bit c 2 then {a + 1} else {}) \<union> (if bit c 1 then {a + 2} else {}) \<union> (if bit c 0 then {a + 3} else {}))"

lemma sub_rest:
  assumes "a \<le> 128"
  shows "row_set (fst (fold (\<lambda>i. setBit_128b (of_nat a + of_nat i) False) [0..<4] (hi, lo)))
      (snd (fold (\<lambda>i. setBit_128b (of_nat a + of_nat i) False) [0..<4] (hi, lo))) = row_set hi lo - {a..<a + 4}"
proof -
  have up: "[0..<4] = [0, 1, 2, 3]" by (simp add: upt_rec)
  have n: "(of_nat a + of_nat i :: u8) = of_nat (a + i)" for i by simp
  have s: "a + 0 < 256" "a + 1 < 256" "a + 2 < 256" "a + 3 < 256" using assms by simp_all
  show ?thesis
    unfolding up fold_simps n setBit_set [OF s(1)] setBit_set [OF s(2)] setBit_set [OF s(3)] setBit_set [OF s(4)] fst_conv snd_conv
    by auto
qed


lemma cluster_bits:
  fixes h :: u8 and p1 p2 p3 :: bool
  defines "c \<equiv> (push_bit 3 (ucast h) OR ucast (push_bit 2 (of_bool p1) OR push_bit 1 (of_bool p2) OR of_bool p3 :: u8) :: u16)"
  shows "drop_bit 3 c AND 0xff = ucast h" "bit c 2 = p1" "bit c 1 = p2" "bit c 0 = p3" "\<not> bit c 11"
proof -
  obtain p where p_def: "p = (push_bit 2 (of_bool p1) OR push_bit 1 (of_bool p2) OR of_bool p3 :: u8)" by blast
  have p: "bit p n \<longleftrightarrow> n = 2 \<and> p1 \<or> n = 1 \<and> p2 \<or> n = 0 \<and> p3" for n
    unfolding p_def bit_or_iff bit_push_bit_iff by (auto simp: bit_simps)
  have c: "bit c n \<longleftrightarrow> 3 \<le> n \<and> n < 16 \<and> bit h (n - 3) \<or> bit p n" for n
    unfolding c_def p_def [symmetric] bit_or_iff bit_push_bit_iff bit_ucast_iff p
    by (auto simp: p dest: bit_imp_le_length)
  show "drop_bit 3 c AND 0xff = ucast h"
    by (rule bit_word_eqI) (auto simp: bits_simps c p dest: bit_imp_le_length)
  show "bit c 2 = p1" "bit c 1 = p2" "bit c 0 = p3" "\<not> bit c 11"
    unfolding c p by (auto dest: bit_imp_le_length)
qed

lemma unat_u8: "n < 256 \<Longrightarrow> unat (of_nat n :: u8) = n"
  by (simp add: unat_of_nat)

definition row_base :: "bool \<Rightarrow> nat" where
  "row_base r = (if r then 128 else 0)"

lemma sub_empty:
  assumes "row_set hi lo = {}"
  shows "\<exists>hi' lo'. clusterFinder_sub hi lo r = (0x3ff, hi', lo') \<and> row_set hi' lo' = {}"
proof -
  have "(if lo \<noteq> 0 then of_nat (ctzll lo) else if hi \<noteq> 0 then of_nat (ctzll hi + 64) else 128) = (of_nat 128 :: u8)"
    using hit_addr_Min [of lo hi] assms by (auto split: if_splits)
  then have "clusterFinder_sub hi lo r = (0x3ff,
      fst (fold (\<lambda>i. setBit_128b (of_nat 128 + of_nat i) False) [0..<4] (hi, lo)),
      snd (fold (\<lambda>i. setBit_128b (of_nat 128 + of_nat i) False) [0..<4] (hi, lo)))"
    by (simp add: clusterFinder_sub_def Let_def)
  then show ?thesis using sub_rest [of 128 hi lo] assms by (intro exI conjI) (assumption, simp)
qed

lemma sub_hit:
  assumes "row_set hi lo \<noteq> {}"
  defines "a \<equiv> Min (row_set hi lo)"
  obtains c hi' lo' where "clusterFinder_sub hi lo r = (c, hi', lo')" "c \<noteq> 0x3ff" "c \<noteq> 0x3fe" "\<not> bit c 11"
    "row_set hi' lo' = row_set hi lo - {a..<a + 4}"
    "cluster_strips c = (\<lambda>i. i + row_base r) ` (row_set hi lo \<inter> {a..<a + 4})"
proof -
  let ?S = "row_set hi lo"
  have a: "a \<in> ?S" unfolding a_def by (rule Min_in) (use assms(1) in simp_all)
  then have "a < 128" by (rule row_set_lt)
  note a = a this
  have addr: "(if lo \<noteq> 0 then of_nat (ctzll lo) else if hi \<noteq> 0 then of_nat (ctzll hi + 64) else 128) = (of_nat a :: u8)" (is "?if = _")
  proof -
    have "?if = of_nat (if lo \<noteq> 0 then ctzll lo else if hi \<noteq> 0 then ctzll hi + 64 else 128)" by simp
    then show ?thesis unfolding hit_addr_Min using assms(1) by (simp only: a_def if_False)
  qed
  have ne: "(of_nat a :: u8) \<noteq> 128"
    using a(2) unat_u8 [of a] by (auto dest: arg_cong [where f = unat])
  let ?h = "of_nat a + (if r then 128 else 0) :: u8"
  let ?c = "push_bit 3 (ucast ?h) OR ucast (push_bit 2 (of_bool (a + 1 \<in> ?S)) OR push_bit 1 (of_bool (a + 2 \<in> ?S))
      OR of_bool (a + 3 \<in> ?S) :: u8) :: u16"
  let ?d = "fold (\<lambda>i. setBit_128b (of_nat a + of_nat i) False) [0..<4] (hi, lo)"
  have g: "getBit_128b (of_nat a + 1) hi lo \<longleftrightarrow> a + 1 \<in> ?S" "getBit_128b (of_nat a + 2) hi lo \<longleftrightarrow> a + 2 \<in> ?S"
    "getBit_128b (of_nat a + 3) hi lo \<longleftrightarrow> a + 3 \<in> ?S"
    using a(2) getBit_set [of "a + 1" hi lo] getBit_set [of "a + 2" hi lo] getBit_set [of "a + 3" hi lo]
    by (simp_all add: add.commute)
  have sub: "clusterFinder_sub hi lo r = (?c, fst ?d, snd ?d)"
    unfolding clusterFinder_sub_def Let_def addr g using ne by simp
  have h: "unat ?h = a + row_base r"
  proof -
    have "?h = of_nat (a + row_base r)" by (simp add: row_base_def)
    then show ?thesis using unat_u8 [of "a + row_base r"] a(2) by (simp only:) (simp add: row_base_def)
  qed
  note bits = cluster_bits [of ?h "a + 1 \<in> ?S" "a + 2 \<in> ?S" "a + 3 \<in> ?S"]
  have addr_c: "unat (drop_bit 3 ?c AND 0xff) = a + row_base r"
    unfolding bits(1) using h unsigned_less [of ?h, where 'a = nat]
    by (simp add: unsigned_ucast_eq take_bit_nat_eq_self)
  have full: "?c \<noteq> c" if "bit c 2" "unat (drop_bit 3 c AND 0xff) = 127" for c
  proof
    assume "?c = c"
    with that addr_c bits(2) have "a + row_base r = 127" "a + 1 \<in> ?S" by auto
    then show False using row_set_lt [of "a + 1" hi lo] by (auto simp: row_base_def split: if_splits)
  qed
  have interval: "{a..<a + 4} = {a, a + 1, a + 2, a + 3}" by auto
  show thesis
  proof (rule that [OF sub])
    show "?c \<noteq> 0x3ff" by (rule full) (simp_all add: bits_simps)
    show "?c \<noteq> 0x3fe" by (rule full) (simp_all add: bit_iff_odd)
    show "\<not> bit ?c 11" by (rule bits(5))
    show "row_set (fst ?d) (snd ?d) = ?S - {a..<a + 4}" by (rule sub_rest) (use a in simp)
    show "cluster_strips ?c = (\<lambda>i. i + row_base r) ` (?S \<inter> {a..<a + 4})"
      unfolding cluster_strips_def Let_def addr_c unfolding bits interval using a(1) by auto
  qed
qed


section \<open>The loop\<close>

lemma sub_card:
  assumes "clusterFinder_sub hi lo r = (c, hi', lo')"
  shows "card (row_set hi' lo') \<le> card (row_set hi lo)"
    and "row_set hi lo \<noteq> {} \<Longrightarrow> card (row_set hi' lo') < card (row_set hi lo)"
proof -
  have lt: "card (row_set hi' lo') < card (row_set hi lo)" if ne: "row_set hi lo \<noteq> {}"
  proof -
    let ?a = "Min (row_set hi lo)"
    obtain c2 hi2 lo2 where "clusterFinder_sub hi lo r = (c2, hi2, lo2)" "row_set hi2 lo2 = row_set hi lo - {?a..<?a + 4}"
      by (rule sub_hit [OF ne, of r]) (rule that)
    with assms have "row_set hi' lo' = row_set hi lo - {?a..<?a + 4}" by simp
    moreover have "?a \<in> row_set hi lo" using ne by (intro Min_in) simp_all
    moreover have "?a \<in> {?a..<?a + 4}" by simp
    ultimately show ?thesis by (intro psubset_card_mono) (simp, blast)
  qed
  then show "row_set hi lo \<noteq> {} \<Longrightarrow> card (row_set hi' lo') < card (row_set hi lo)" .
  show "card (row_set hi' lo') \<le> card (row_set hi lo)"
  proof (cases "row_set hi lo = {}")
    case True
    then have "row_set hi' lo' = {}" using sub_empty [of hi lo r] assms by simp
    then show ?thesis by simp
  qed (use lt in simp)
qed

lemma row_set_empty_iff: "row_set hi lo = {} \<longleftrightarrow> hi = 0 \<and> lo = 0"
proof
  assume e: "row_set hi lo = {}"
  have "\<not> bit lo i" "\<not> bit hi i" if "i < 64" for i
    using e that by (auto simp: row_set_def dest: spec [of _ i] spec [of _ "i + 64"])
  then show "hi = 0 \<and> lo = 0" by (auto intro!: bit_word_eqI)
qed (simp add: row_set_def)

function clusterFinder_loop :: "nat \<Rightarrow> u64 \<times> u64 \<Rightarrow> u64 \<times> u64 \<Rightarrow> u16 list \<Rightarrow> u16 list" where
  "clusterFinder_loop maxCluster (d0h, d0l) (d1h, d1l) clusters =
     (if d0l \<noteq> 0 \<or> d0h \<noteq> 0 \<or> d1l \<noteq> 0 \<or> d1h \<noteq> 0 then
        if length clusters > maxCluster then clusters
        else (case clusterFinder_sub d1h d1l True of (cluster1, d1h', d1l') \<Rightarrow>
          let clusters1 = (if cluster1 \<noteq> 0x3ff then clusters @ [cluster1] else clusters)
          in if length clusters1 > maxCluster then clusters1
             else (case clusterFinder_sub d0h d0l False of (cluster0, d0h', d0l') \<Rightarrow>
               let clusters0 = (if cluster0 \<noteq> 0x3ff then clusters1 @ [cluster0] else clusters1)
               in clusterFinder_loop maxCluster (d0h', d0l') (d1h', d1l') clusters0))
      else clusters)"
  by pat_completeness auto

termination
proof (relation "measure (\<lambda>(m, (d0h, d0l), (d1h, d1l), cs). card (row_set d0h d0l) + card (row_set d1h d1l))",
    simp, clarify)
  fix m d0h d0l d1h d1l d0h' d0l' d1h' d1l' c1 c0 and cs cs' :: "u16 list"
  assume c: "d0l \<noteq> 0 \<or> d0h \<noteq> 0 \<or> d1l \<noteq> 0 \<or> d1h \<noteq> (0 :: u64)"
    and s: "(c1, d1h', d1l') = clusterFinder_sub d1h d1l True" "(c0, d0h', d0l') = clusterFinder_sub d0h d0l False"
  from c have "row_set d0h d0l \<noteq> {} \<or> row_set d1h d1l \<noteq> {}" by (auto simp: row_set_empty_iff)
  then have "card (row_set d0h' d0l') + card (row_set d1h' d1l') < card (row_set d0h d0l) + card (row_set d1h d1l)"
    using sub_card [OF s(1) [symmetric]] sub_card [OF s(2) [symmetric]] by linarith
  then show "((m, (d0h', d0l'), (d1h', d1l'), cs'), (m, (d0h, d0l), (d1h, d1l), cs))
    \<in> measure (\<lambda>(m, (d0h, d0l), (d1h, d1l), cs). card (row_set d0h d0l) + card (row_set d1h d1l))"
    by simp
qed

declare clusterFinder_loop.simps [simp del]

definition clusterFinder :: "StripData \<Rightarrow> u8 \<Rightarrow> u16 list" where
  "clusterFinder inputData maxCluster =
     (let d0l = ucast (inputData AND mask 64); d0h = ucast (drop_bit 64 inputData AND mask 64);
          d1l = ucast (drop_bit 128 inputData AND mask 64); d1h = ucast (drop_bit 192 inputData AND mask 64);
          clusters = clusterFinder_loop (unat maxCluster) (d0h, d0l) (d1h, d1l) []
      in if clusters = [] then [0x3fe]
         else butlast clusters @ [last clusters OR push_bit 11 1])"


section \<open>No hit is lost\<close>

text \<open>One turn for one row, whether or not the row has hits left; \<open>k\<close> clusters were found in the row
  before, so the remaining hits are at addresses from \<open>4 * k\<close>.\<close>

lemma sub_step:
  assumes "clusterFinder_sub hi lo r = (c, hi', lo')" and "row_set hi lo \<subseteq> {4 * k..}"
  defines "new \<equiv> (if c \<noteq> 0x3ff then [c] else [])"
  shows "row_set hi' lo' \<subseteq> {4 * (k + length new)..}"
    and "(\<lambda>i. i + row_base r) ` row_set hi lo =
         \<Union> (cluster_strips ` set new) \<union> (\<lambda>i. i + row_base r) ` row_set hi' lo'"
    and "\<Union> (cluster_strips ` set new) \<inter> (\<lambda>i. i + row_base r) ` row_set hi' lo' = {}"
    and "\<Union> (cluster_strips ` set new) \<subseteq> {row_base r..<row_base r + 128}"
    and "new = [] \<longleftrightarrow> row_set hi lo = {}" and "length new \<le> 1" and "new \<noteq> [] \<Longrightarrow> k < 32"
    and "\<forall>c \<in> set new. \<not> bit c 11 \<and> c \<noteq> 0x3fe"
proof -
  let ?S = "row_set hi lo" and ?S' = "row_set hi' lo'" and ?f = "\<lambda>i. i + row_base r"
  consider (none) "?S = {}" "?S' = {}" "new = []"
    | (one) a where "?S \<noteq> {}" "new = [c]" "a \<in> ?S" "\<And>i. i \<in> ?S \<Longrightarrow> a \<le> i" "?S' = ?S - {a..<a + 4}"
        "cluster_strips c = ?f ` (?S \<inter> {a..<a + 4})" "c \<noteq> 0x3fe" "\<not> bit c 11"
  proof (cases "?S = {}")
    case True
    with sub_empty [of hi lo r] assms(1) have "c = 0x3ff" "?S' = {}" by auto
    with True show thesis by (intro none) (simp_all add: new_def)
  next
    case False
    obtain c2 hi2 lo2 where s: "clusterFinder_sub hi lo r = (c2, hi2, lo2)" "c2 \<noteq> 0x3ff" "c2 \<noteq> 0x3fe" "\<not> bit c2 11"
      "row_set hi2 lo2 = ?S - {Min ?S..<Min ?S + 4}" "cluster_strips c2 = ?f ` (?S \<inter> {Min ?S..<Min ?S + 4})"
      by (rule sub_hit [OF False, of r]) (rule that)
    show thesis
    proof (rule one [OF False])
      show "new = [c]" "c \<noteq> 0x3fe" "\<not> bit c 11" "?S' = ?S - {Min ?S..<Min ?S + 4}"
        "cluster_strips c = ?f ` (?S \<inter> {Min ?S..<Min ?S + 4})"
        using s assms(1) by (simp_all add: new_def)
      show "Min ?S \<in> ?S" by (rule Min_in) (use False in simp_all)
      show "\<And>i. i \<in> ?S \<Longrightarrow> Min ?S \<le> i" by (rule Min_le) simp_all
    qed
  qed
  note cs = this
  show "new = [] \<longleftrightarrow> ?S = {}" "length new \<le> 1" "\<forall>c \<in> set new. \<not> bit c 11 \<and> c \<noteq> 0x3fe"
    by (cases rule: cs; simp)+
  show "?S' \<subseteq> {4 * (k + length new)..}"
  proof (cases rule: cs)
    case (one a)
    from one(3) assms(2) have "4 * k \<le> a" by auto
    moreover have "a + 4 \<le> i" if "i \<in> ?S'" for i using one(4) [of i] that one(5) by auto
    ultimately have "?S' \<subseteq> {4 * (k + 1)..}" by fastforce
    then show ?thesis by (simp add: one(2))
  qed simp
  show "?f ` ?S = \<Union> (cluster_strips ` set new) \<union> ?f ` ?S'"
  proof (cases rule: cs)
    case (one a)
    show ?thesis unfolding one(2) one(5) by (auto simp: one(6))
  qed simp
  show "\<Union> (cluster_strips ` set new) \<inter> ?f ` ?S' = {}"
  proof (cases rule: cs)
    case (one a)
    show ?thesis unfolding one(2) one(5) by (auto simp: one(6))
  qed simp
  show "\<Union> (cluster_strips ` set new) \<subseteq> {row_base r..<row_base r + 128}"
  proof (cases rule: cs)
    case (one a)
    show ?thesis unfolding one(2) using row_set_lt [of _ hi lo] by (auto simp: one(6))
  qed simp
  show "k < 32" if "new \<noteq> []"
  proof (cases rule: cs)
    case (one a)
    from one(3) assms(2) have "4 * k \<le> a" by auto
    with row_set_lt [OF one(3)] show ?thesis by simp
  qed (use that in simp)
qed

text \<open>The strips still to be reported.\<close>

definition pending :: "u64 \<times> u64 \<Rightarrow> u64 \<times> u64 \<Rightarrow> nat set" where
  "pending d0 d1 = row_set (fst d0) (snd d0) \<union> (\<lambda>i. i + 128) ` row_set (fst d1) (snd d1)"


definition strips_of :: "u16 list \<Rightarrow> nat set" where
  "strips_of cs = \<Union> (cluster_strips ` set cs)"

lemma strips_of_simps [simp]:
  "strips_of [] = {}" "strips_of (c # cs) = cluster_strips c \<union> strips_of cs" "strips_of (xs @ ys) = strips_of xs \<union> strips_of ys"
  by (auto simp: strips_of_def)

lemma pending_finite [simp]: "finite (pending d0 d1)"
  by (simp add: pending_def)

definition strip_count :: "u16 list \<Rightarrow> nat" where
  "strip_count cs = sum_list (map (\<lambda>c. card (cluster_strips c)) cs)"

lemma strip_count_simps [simp]: "strip_count [] = 0" "strip_count (xs @ ys) = strip_count xs + strip_count ys"
  by (simp_all add: strip_count_def)

lemma single_count: "length new \<le> 1 \<Longrightarrow> strip_count new = card (strips_of new)"
  by (cases new) (auto simp: strip_count_def)

text \<open>One row of the loop body, seen from the pending strips.\<close>

lemma body_row1:
  assumes "clusterFinder_sub d1h d1l True = (c, d1h', d1l')" and "row_set d1h d1l \<subseteq> {4 * k..}"
  defines "new \<equiv> (if c \<noteq> 0x3ff then [c] else [])"
  shows "pending d0 (d1h, d1l) = strips_of new \<union> pending d0 (d1h', d1l')"
    and "card (pending d0 (d1h, d1l)) = strip_count new + card (pending d0 (d1h', d1l'))"
proof -
  note s = sub_step [OF assms(1,2), folded new_def]
  have u: "pending d0 (d1h, d1l) = strips_of new \<union> pending d0 (d1h', d1l')"
    using s(2) by (auto simp: pending_def strips_of_def row_base_def)
  then show "pending d0 (d1h, d1l) = strips_of new \<union> pending d0 (d1h', d1l')" .
  have "strips_of new \<inter> row_set (fst d0) (snd d0) = {}"
    using s(4) row_set_lt [of _ "fst d0" "snd d0"] by (fastforce simp: strips_of_def row_base_def)
  with s(3) have d: "strips_of new \<inter> pending d0 (d1h', d1l') = {}"
    by (auto simp: pending_def strips_of_def row_base_def)
  have "finite (strips_of new)" using u pending_finite [of d0 "(d1h, d1l)"] by (metis finite_Un)
  with d u show "card (pending d0 (d1h, d1l)) = strip_count new + card (pending d0 (d1h', d1l'))"
    by (simp add: card_Un_disjoint single_count [OF s(6)])
qed

lemma body_row0:
  assumes "clusterFinder_sub d0h d0l False = (c, d0h', d0l')" and "row_set d0h d0l \<subseteq> {4 * k..}"
  defines "new \<equiv> (if c \<noteq> 0x3ff then [c] else [])"
  shows "pending (d0h, d0l) d1 = strips_of new \<union> pending (d0h', d0l') d1"
    and "card (pending (d0h, d0l) d1) = strip_count new + card (pending (d0h', d0l') d1)"
proof -
  note s = sub_step [OF assms(1,2), folded new_def]
  have u: "pending (d0h, d0l) d1 = strips_of new \<union> pending (d0h', d0l') d1"
    using s(2) by (auto simp: pending_def strips_of_def row_base_def)
  then show "pending (d0h, d0l) d1 = strips_of new \<union> pending (d0h', d0l') d1" .
  have "strips_of new \<inter> (\<lambda>i. i + 128) ` row_set (fst d1) (snd d1) = {}"
    using s(4) by (fastforce simp: strips_of_def row_base_def)
  with s(3) have d: "strips_of new \<inter> pending (d0h', d0l') d1 = {}"
    by (auto simp: pending_def strips_of_def row_base_def)
  have "finite (strips_of new)" using u pending_finite [of "(d0h, d0l)" d1] by (metis finite_Un)
  with d u show "card (pending (d0h, d0l) d1) = strip_count new + card (pending (d0h', d0l') d1)"
    by (simp add: card_Un_disjoint single_count [OF s(6)])
qed

lemma full_row: "row_set hi lo \<subseteq> {4 * k..} \<Longrightarrow> 32 \<le> k \<Longrightarrow> row_set hi lo = {}"
  using row_set_lt [of _ hi lo] by fastforce

lemma loop_spec:
  assumes "63 \<le> m" and "row_set (fst d0) (snd d0) \<subseteq> {4 * k0..}" and "row_set (fst d1) (snd d1) \<subseteq> {4 * k1..}"
    and "length cs = k0 + k1" and "k0 \<le> 32" and "k1 \<le> 32"
  shows "\<exists>new. clusterFinder_loop m d0 d1 cs = cs @ new \<and> strips_of new = pending d0 d1 \<and>
    strip_count new = card (pending d0 d1) \<and> (\<forall>c \<in> set new. \<not> bit c 11 \<and> c \<noteq> 0x3fe) \<and> length cs + length new \<le> 64"
  using assms
proof (induction m d0 d1 cs arbitrary: k0 k1 rule: clusterFinder_loop.induct)
  case (1 m d0h d0l d1h d1l cs)
  note IH = 1(1) and m = 1(2) and r0 = 1(3) [unfolded fst_conv snd_conv] and r1 = 1(4) [unfolded fst_conv snd_conv]
    and len = 1(5) and k = 1(6,7)
  show ?case
  proof (cases "d0l \<noteq> 0 \<or> d0h \<noteq> 0 \<or> d1l \<noteq> 0 \<or> d1h \<noteq> 0")
    case False
    then have "pending (d0h, d0l) (d1h, d1l) = {}" by (simp add: pending_def row_set_def)
    with False len k show ?thesis by (simp add: clusterFinder_loop.simps)
  next
    case nz: True
    then have ne: "row_set d0h d0l \<noteq> {} \<or> row_set d1h d1l \<noteq> {}" by (auto simp: row_set_empty_iff)
    then have lt: "k0 + k1 < 64" using full_row [OF r0] full_row [OF r1] k by fastforce
    obtain c1 d1h' d1l' where s1: "clusterFinder_sub d1h d1l True = (c1, d1h', d1l')" by (cases "clusterFinder_sub d1h d1l True") auto
    obtain c0 d0h' d0l' where s0: "clusterFinder_sub d0h d0l False = (c0, d0h', d0l')" by (cases "clusterFinder_sub d0h d0l False") auto
    let ?n1 = "if c1 \<noteq> 0x3ff then [c1] else []" and ?n0 = "if c0 \<noteq> 0x3ff then [c0] else []"
    note t1 = sub_step [OF s1 r1] and t0 = sub_step [OF s0 r0]
    have cs1: "(if c1 \<noteq> 0x3ff then cs @ [c1] else cs) = cs @ ?n1" by simp
    have cs0: "(if c0 \<noteq> 0x3ff then (cs @ ?n1) @ [c0] else cs @ ?n1) = cs @ ?n1 @ ?n0" by simp
    have nobreak: "\<not> m < length cs" using len lt m by simp
    note p1 = body_row1 [OF s1 r1, of "(d0h, d0l)"]
    show ?thesis
    proof (cases "m < length (cs @ ?n1)")
      case True
      have k1': "k1 + length ?n1 \<le> 32" using t1(6,7) k by (cases "?n1 = []") simp_all
      then have "k0 + (k1 + length ?n1) = 64" using True m len k by simp
      then have "k0 = 32" "k1 + length ?n1 = 32" using k k1' by simp_all
      then have "pending (d0h, d0l) (d1h', d1l') = {}"
        using full_row [OF r0] full_row [OF t1(1)] by (simp add: pending_def)
      with p1 have "strips_of ?n1 = pending (d0h, d0l) (d1h, d1l)" "strip_count ?n1 = card (pending (d0h, d0l) (d1h, d1l))"
        by simp_all
      moreover have "clusterFinder_loop m (d0h, d0l) (d1h, d1l) cs = cs @ ?n1"
        using nz nobreak True by (subst clusterFinder_loop.simps) (simp only: s1 Let_def prod.case cs1 if_True if_False)
      ultimately show ?thesis using t1(8) k1' len k by (intro exI [of _ ?n1]) simp
    next
      case False
      have eq: "clusterFinder_loop m (d0h, d0l) (d1h, d1l) cs = clusterFinder_loop m (d0h', d0l') (d1h', d1l') (cs @ ?n1 @ ?n0)"
        using nz nobreak False
        by (subst clusterFinder_loop.simps) (simp only: s1 s0 Let_def prod.case cs1 cs0 if_True if_False)
      have ks: "k1 + length ?n1 \<le> 32" "k0 + length ?n0 \<le> 32" using t1(6,7) t0(6,7) k by (cases "?n1 = []"; cases "?n0 = []"; simp)+
      have "\<exists>new. clusterFinder_loop m (d0h', d0l') (d1h', d1l') (cs @ ?n1 @ ?n0) = (cs @ ?n1 @ ?n0) @ new \<and>
          strips_of new = pending (d0h', d0l') (d1h', d1l') \<and> strip_count new = card (pending (d0h', d0l') (d1h', d1l')) \<and>
          (\<forall>c \<in> set new. \<not> bit c 11 \<and> c \<noteq> 0x3fe) \<and> length (cs @ ?n1 @ ?n0) + length new \<le> 64"
        by (rule IH [OF nz nobreak s1 [symmetric] refl refl _ s0 [symmetric] refl refl, unfolded cs1 cs0,
            of "k0 + length ?n0" "k1 + length ?n1"])
          (use False m ks len t1(1) t0(1) in simp_all)
      then obtain new where new: "clusterFinder_loop m (d0h', d0l') (d1h', d1l') (cs @ ?n1 @ ?n0) = (cs @ ?n1 @ ?n0) @ new"
        "strips_of new = pending (d0h', d0l') (d1h', d1l')" "strip_count new = card (pending (d0h', d0l') (d1h', d1l'))"
        "\<forall>c \<in> set new. \<not> bit c 11 \<and> c \<noteq> 0x3fe" "length (cs @ ?n1 @ ?n0) + length new \<le> 64" by blast
      note p0 = body_row0 [OF s0 r0, of "(d1h', d1l')"]
      show ?thesis
      proof (intro exI [of _ "?n1 @ ?n0 @ new"] conjI)
        show "clusterFinder_loop m (d0h, d0l) (d1h, d1l) cs = cs @ ?n1 @ ?n0 @ new"
          unfolding eq new(1) by (simp only: append_assoc)
        show "strips_of (?n1 @ ?n0 @ new) = pending (d0h, d0l) (d1h, d1l)"
          unfolding p1(1) p0(1) strips_of_simps new(2) by (rule refl)
        show "strip_count (?n1 @ ?n0 @ new) = card (pending (d0h, d0l) (d1h, d1l))"
          unfolding p1(2) p0(2) strip_count_simps new(3) by (rule refl)
        show "\<forall>c \<in> set (?n1 @ ?n0 @ new). \<not> bit c 11 \<and> c \<noteq> 0x3fe"
          using t1(8) t0(8) new(4) by (simp only: set_append ball_Un)
        show "length cs + length (?n1 @ ?n0 @ new) \<le> 64"
          using new(5) by (simp only: length_append)
      qed
    qed
  qed
qed


lemma split_rows:
  fixes w :: StripData
  shows "pending (ucast (drop_bit 64 w AND mask 64), ucast (w AND mask 64))
      (ucast (drop_bit 192 w AND mask 64), ucast (drop_bit 128 w AND mask 64)) = {i. bit w i}"
proof -
  have r: "row_set (ucast (drop_bit (k + 64) w AND mask 64)) (ucast (drop_bit k w AND mask 64)) = {i. i < 128 \<and> bit w (i + k)}" for k
    by (auto simp: row_set_def bits_simps add.commute [of k])
  have "(\<lambda>i. i + 128) ` {i. i < 128 \<and> bit w (i + 128)} = {i. 128 \<le> i \<and> bit w i}"
  proof (intro equalityI subsetI)
    fix i assume "i \<in> {i. 128 \<le> i \<and> bit w i}"
    moreover from this have "i < 256" by (auto dest: bit_imp_le_length)
    ultimately have "i - 128 \<in> {i. i < 128 \<and> bit w (i + 128)}" "i = i - 128 + 128" by auto
    then show "i \<in> (\<lambda>i. i + 128) ` {i. i < 128 \<and> bit w (i + 128)}" by (rule rev_image_eqI)
  qed auto
  then show ?thesis using r [of 0] r [of 128] by (auto simp: pending_def)
qed

lemma loop_bound: "length cs \<le> m + 1 \<Longrightarrow> length (clusterFinder_loop m d0 d1 cs) \<le> m + 1"
proof (induction m d0 d1 cs rule: clusterFinder_loop.induct)
  case (1 m d0h d0l d1h d1l cs)
  show ?case
  proof (cases "d0l \<noteq> 0 \<or> d0h \<noteq> 0 \<or> d1l \<noteq> 0 \<or> d1h \<noteq> 0")
    case False
    with 1(2) show ?thesis by (simp add: clusterFinder_loop.simps)
  next
    case nz: True
    obtain c1 d1h' d1l' where s1: "clusterFinder_sub d1h d1l True = (c1, d1h', d1l')" by (cases "clusterFinder_sub d1h d1l True") auto
    obtain c0 d0h' d0l' where s0: "clusterFinder_sub d0h d0l False = (c0, d0h', d0l')" by (cases "clusterFinder_sub d0h d0l False") auto
    let ?cs1 = "if c1 \<noteq> 0x3ff then cs @ [c1] else cs"
    let ?cs0 = "if c0 \<noteq> 0x3ff then ?cs1 @ [c0] else ?cs1"
    show ?thesis
    proof (cases "m < length cs \<or> m < length ?cs1")
      case True
      then have "clusterFinder_loop m (d0h, d0l) (d1h, d1l) cs = (if m < length cs then cs else ?cs1)"
        using nz by (subst clusterFinder_loop.simps) (auto simp only: s1 Let_def prod.case if_True if_False)
      then show ?thesis using 1(2) by simp
    next
      case False
      then have "clusterFinder_loop m (d0h, d0l) (d1h, d1l) cs = clusterFinder_loop m (d0h', d0l') (d1h', d1l') ?cs0"
        using nz by (subst clusterFinder_loop.simps) (simp only: s1 s0 Let_def prod.case if_True if_False de_Morgan_disj)
      moreover have "length ?cs0 \<le> m + 1" using False by simp
      then have "length (clusterFinder_loop m (d0h', d0l') (d1h', d1l') ?cs0) \<le> m + 1"
        using False by (intro 1(1) [OF nz _ s1 [symmetric] refl refl _ s0 [symmetric] refl refl]) simp_all
      ultimately show ?thesis by (simp only:)
    qed
  qed
qed

text \<open>Every cluster stays in its row of strips.\<close>

definition in_row :: "u16 \<Rightarrow> bool" where
  "in_row c \<longleftrightarrow> (\<exists>r. cluster_strips c \<subseteq> {row_base r..<row_base r + 128})"

lemma sub_in_row:
  assumes "clusterFinder_sub hi lo r = (c, hi', lo')" and "c \<noteq> 0x3ff"
  shows "in_row c"
  using sub_step(4) [OF assms(1), of 0] assms(2) by (auto simp: in_row_def)

lemma loop_in_row:
  "\<forall>c \<in> set cs. in_row c \<Longrightarrow> \<forall>c \<in> set (clusterFinder_loop m d0 d1 cs). in_row c"
proof (induction m d0 d1 cs rule: clusterFinder_loop.induct)
  case (1 m d0h d0l d1h d1l cs)
  show ?case
  proof (cases "d0l \<noteq> 0 \<or> d0h \<noteq> 0 \<or> d1l \<noteq> 0 \<or> d1h \<noteq> 0")
    case False
    with 1(2) show ?thesis by (simp add: clusterFinder_loop.simps)
  next
    case nz: True
    obtain c1 d1h' d1l' where s1: "clusterFinder_sub d1h d1l True = (c1, d1h', d1l')" by (cases "clusterFinder_sub d1h d1l True") auto
    obtain c0 d0h' d0l' where s0: "clusterFinder_sub d0h d0l False = (c0, d0h', d0l')" by (cases "clusterFinder_sub d0h d0l False") auto
    let ?cs1 = "if c1 \<noteq> 0x3ff then cs @ [c1] else cs"
    let ?cs0 = "if c0 \<noteq> 0x3ff then ?cs1 @ [c0] else ?cs1"
    have rows: "\<forall>c \<in> set ?cs1. in_row c" "\<forall>c \<in> set ?cs0. in_row c"
      using 1(2) sub_in_row [OF s1] sub_in_row [OF s0] by auto
    show ?thesis
    proof (cases "m < length cs \<or> m < length ?cs1")
      case True
      then have "clusterFinder_loop m (d0h, d0l) (d1h, d1l) cs = (if m < length cs then cs else ?cs1)"
        using nz by (subst clusterFinder_loop.simps) (auto simp only: s1 Let_def prod.case if_True if_False)
      then show ?thesis using 1(2) rows(1) by (simp only: split: if_split) simp
    next
      case False
      then have "clusterFinder_loop m (d0h, d0l) (d1h, d1l) cs = clusterFinder_loop m (d0h', d0l') (d1h', d1l') ?cs0"
        using nz by (subst clusterFinder_loop.simps) (simp only: s1 s0 Let_def prod.case if_True if_False de_Morgan_disj)
      moreover have "\<forall>c \<in> set (clusterFinder_loop m (d0h', d0l') (d1h', d1l') ?cs0). in_row c"
        using False rows(2) by (intro 1(1) [OF nz _ s1 [symmetric] refl refl _ s0 [symmetric] refl refl]) simp_all
      ultimately show ?thesis by (simp only:)
    qed
  qed
qed

text \<open>The clusters before the last one gets its flag.\<close>

lemma clusterFinder_words:
  assumes "63 \<le> maxCluster"
  obtains new where
    "clusterFinder hits maxCluster = (if new = [] then [0x3fe] else butlast new @ [last new OR push_bit 11 1])"
    "strips_of new = {i. bit hits i}" "strip_count new = card {i. bit hits i}"
    "\<forall>c \<in> set new. \<not> bit c 11 \<and> c \<noteq> 0x3fe" "\<forall>c \<in> set new. in_row c" "length new \<le> 64" "new = [] \<longleftrightarrow> hits = 0"
proof -
  have m: "63 \<le> unat maxCluster" using assms by (simp add: word_le_nat_alt)
  let ?d0 = "(ucast (drop_bit 64 hits AND mask 64), ucast (hits AND mask 64)) :: u64 \<times> u64"
  let ?d1 = "(ucast (drop_bit 192 hits AND mask 64), ucast (drop_bit 128 hits AND mask 64)) :: u64 \<times> u64"
  have z: "row_set a b \<subseteq> {4 * 0..}" for a b by simp
  obtain new where new: "clusterFinder_loop (unat maxCluster) ?d0 ?d1 [] = new" "strips_of new = {i. bit hits i}"
    "strip_count new = card {i. bit hits i}" "\<forall>c \<in> set new. \<not> bit c 11 \<and> c \<noteq> 0x3fe" "length new \<le> 64"
    using loop_spec [OF m z z, of "[]" ?d0 ?d1] unfolding split_rows by auto
  have cf: "clusterFinder hits maxCluster = (if new = [] then [0x3fe] else butlast new @ [last new OR push_bit 11 1])"
    unfolding clusterFinder_def Let_def new(1) ..
  have rows: "\<forall>c \<in> set new. in_row c"
    using loop_in_row [of "[]" "unat maxCluster" ?d0 ?d1] unfolding new(1) by simp
  have empty: "new = [] \<longleftrightarrow> hits = 0"
  proof
    assume "new = []"
    with new(2) show "hits = 0" by (auto intro: bit_word_eqI)
  next
    assume h: "hits = 0"
    show "new = []"
    proof (cases new)
      case (Cons c cs)
      then have "unat (drop_bit 3 c AND 0xff) \<in> strips_of new" by (simp add: cluster_strips_def Let_def)
      with new(2) h show ?thesis by simp
    qed
  qed
  show thesis by (rule that [OF cf new(2,3,4) rows new(5) empty])
qed

lemma flag_strips: "cluster_strips (c OR push_bit 11 1) = cluster_strips c"
proof -
  have "drop_bit 3 (c OR push_bit 11 1) AND 0xff = drop_bit 3 c AND (0xff :: u16)"
    by (rule bit_word_eqI) (auto simp: bits_simps)
  moreover have "bit (c OR push_bit 11 1) n = bit c n" if "n < 11" for n
    unfolding bit_set_clear using that by auto
  ultimately show ?thesis by (simp add: cluster_strips_def Let_def del: push_bit_of_1)
qed

section \<open>Properties\<close>

text \<open>C5: With the default limit (and any larger one) the cluster finder terminates and loses nothing:
  the clusters of a pattern with hits cover exactly the hit strips, each strip in one cluster
  only, there are at most 64 of them, none is the ``no cluster'' word, and the last one, and only
  that one, has the last-cluster flag; an empty pattern gives the ``no cluster'' word alone.\<close>

theorem clusters_lossless:
  assumes "63 \<le> maxCluster"
  shows "if hits = 0 then clusterFinder hits maxCluster = [0x3fe]
    else strips_of (clusterFinder hits maxCluster) = {i. bit hits i} \<and>
      strip_count (clusterFinder hits maxCluster) = card {i. bit hits i} \<and>
      length (clusterFinder hits maxCluster) \<le> 64 \<and>
      map (\<lambda>c. bit c 11) (clusterFinder hits maxCluster) =
        replicate (length (clusterFinder hits maxCluster) - 1) False @ [True]"
proof -
  obtain new where cf: "clusterFinder hits maxCluster = (if new = [] then [0x3fe] else butlast new @ [last new OR push_bit 11 1])"
    and new: "strips_of new = {i. bit hits i}" "strip_count new = card {i. bit hits i}"
    "\<forall>c \<in> set new. \<not> bit c 11 \<and> c \<noteq> 0x3fe" "length new \<le> 64" "new = [] \<longleftrightarrow> hits = 0"
    by (rule clusterFinder_words [OF assms, of hits]) (rule that)
  show ?thesis
  proof (cases "hits = 0")
    case True
    with cf new(5) show ?thesis by simp
  next
    case False
    then obtain xs c where xc: "new = xs @ [c]" using new(5) by (metis append_butlast_last_id)
    have "clusterFinder hits maxCluster = xs @ [c OR push_bit 11 1]" using cf by (simp add: xc)
    moreover have "map (\<lambda>c. bit c 11) xs = replicate (length xs) False"
      using new(3) by (intro nth_equalityI) (simp_all add: xc)
    moreover have "bit (c OR push_bit 11 1) 11" by (simp only: bit_set_clear) simp
    ultimately show ?thesis
      using False new(1,2,4) flag_strips [of c] by (simp add: xc strip_count_def del: push_bit_of_1)
  qed
qed

theorem clusters_lossless_witness:
  "strips_of (clusterFinder 0x1f 63) = {i. bit (0x1f :: StripData) i}"
proof -
  have "(0x1f :: StripData) \<noteq> 0" by simp
  with clusters_lossless [of 63 "0x1f"] show ?thesis by (simp only: order_refl simp_thms if_False)
qed

text \<open>C37: The limit is respected up to one: there are never more than \<open>maxCluster + 1\<close> clusters, and
  never none.\<close>

theorem clusters_bound:
  "0 < length (clusterFinder hits maxCluster) \<and> length (clusterFinder hits maxCluster) \<le> unat maxCluster + 1"
proof -
  let ?d0 = "(ucast (drop_bit 64 hits AND mask 64), ucast (hits AND mask 64)) :: u64 \<times> u64"
  let ?d1 = "(ucast (drop_bit 192 hits AND mask 64), ucast (drop_bit 128 hits AND mask 64)) :: u64 \<times> u64"
  have "length (clusterFinder_loop (unat maxCluster) ?d0 ?d1 []) \<le> unat maxCluster + 1"
    by (rule loop_bound) simp
  then show ?thesis unfolding clusterFinder_def Let_def
    by (cases "clusterFinder_loop (unat maxCluster) ?d0 ?d1 []" rule: rev_cases) simp_all
qed

end
