(* ===== verification/Star_FrontEnd.thy ===== *)
theory Star_FrontEnd
  imports Star_Cfg Star_Clusters Star_Packets
begin

text \<open>
  State of the emulated chipset and its front-end data
  (src/src/libStarEmu/include/StarChipsetEmu.h, src/src/libStarEmu/StarChipsetEmu.cpp): strip
  masks and calibration enables, the hit generators, hit counters, the L0 pipeline and the data
  of the operation modes. A random draw and the analogue model of a strip
  (\<open>StripModel::calculateHit\<close>, floating point with Gaussian noise) are the operations of a
  parameter record; their state is part of the chipset.
\<close>

section \<open>State\<close>

type_synonym L0BufData = "10 word"
type_synonym EvtBufData = "17 word"

definition L0BufDepth :: nat where "L0BufDepth = 512"
definition EvtBufDepth :: nat where "EvtBufDepth = 128"

record ('g, 'o) Analog =
  calculateHit :: "nat \<Rightarrow> u16 \<Rightarrow> u8 \<Rightarrow> u8 \<Rightarrow> u8 \<Rightarrow> 'g \<Rightarrow> bool \<times> 'g"
  draw_below :: "'o \<Rightarrow> 'g \<Rightarrow> bool \<times> 'g"
  occupancy_zero :: 'o

datatype 'o StripGenerator =
  AnalogueModelGenerator | SimpleOccupancyGenerator ABCStarSubRegister "'o list" | SimpleTrimGenerator "'o list"

record ('g, 'o) ChipsetEmu =
  m_rxbuffer :: "u32 list list"
  m_ignoreCmd :: bool
  m_isForABC :: bool
  m_reg_cmd_buffer :: "u8 list"
  m_l0buffer_lite :: "L0BufData list"
  m_ndata_l0buf :: u32
  m_evtbuffers_lite :: "int \<rightharpoonup> EvtBufData list"
  m_bccnt :: u16
  m_startHitCount :: bool
  m_bc_sel :: u8
  hpr_clkcnt :: u32
  hpr_sent :: "bool list"
  HPRPERIOD :: u32
  emu_abc_version :: int
  emu_hcc_version :: int
  m_starCfg :: StarCfg
  m_generator :: "'o StripGenerator option"
  m_random :: 'g

section \<open>Masks and calibration enables\<close>

text \<open>\<open>std::bitset::set\<close> under a condition; every position below is less than 256.\<close>

definition set_strip_if :: "bool \<Rightarrow> nat \<Rightarrow> StripData \<Rightarrow> StripData" where
  "set_strip_if b pos d = (if b then d OR push_bit pos 1 else d)"

fun abc_read_regs :: "AbcCfg \<Rightarrow> nat list \<Rightarrow> u32 list result" where
  "abc_read_regs abc [] = Inr []"
| "abc_read_regs abc (a # as) =
     rbind (abc_getRegisterValue abc a) (\<lambda>v. rbind (abc_read_regs abc as) (\<lambda>vs. Inr (v # vs)))"

definition getMasks :: "AbcCfg \<Rightarrow> StripData result" where
  "getMasks abc =
     rbind (abc_read_regs abc (map MaskInput [0..<8])) (\<lambda>maskinput.
     Inr (fold (\<lambda>j. fold (\<lambda>i masks.
         set_strip_if (drop_bit (2 * j + 1) (maskinput ! i) AND 1 \<noteq> 0) (128 + j + 16 * i)
           (set_strip_if (drop_bit (2 * j) (maskinput ! i) AND 1 \<noteq> 0) (j + 16 * i) masks)) [0..<8])
       [0..<16] 0))"

definition getCalEnables :: "AbcCfg \<Rightarrow> StripData result" where
  "getCalEnables abc =
     rbind (abc_read_regs abc (map CalReg [0..<8])) (\<lambda>calenable.
     Inr (fold (\<lambda>j. fold (\<lambda>i enables.
         set_strip_if (drop_bit (4 * j + 3) (calenable ! i) AND 1 \<noteq> 0) (128 + 2 * j + 1 + 16 * i)
           (set_strip_if (drop_bit (4 * j + 2) (calenable ! i) AND 1 \<noteq> 0) (128 + 2 * j + 16 * i)
           (set_strip_if (drop_bit (4 * j + 1) (calenable ! i) AND 1 \<noteq> 0) (2 * j + 1 + 16 * i)
           (set_strip_if (drop_bit (4 * j) (calenable ! i) AND 1 \<noteq> 0) (2 * j + 16 * i) enables)))) [0..<8])
       [0..<8] 0))"

section \<open>Hit generators\<close>

definition fill_hits_analogue ::
  "('g, 'o) Analog \<Rightarrow> AbcCfg \<Rightarrow> bool \<Rightarrow> 'g \<Rightarrow> (StripData \<times> 'g) result" where
  "fill_hits_analogue an abc cal_pulse g =
     rbind (abc_getSubRegisterValue abc ''CALPULSE_ENABLE'') (\<lambda>CalPulseEnable.
     rbind (if cal_pulse \<and> CalPulseEnable \<noteq> 0
            then rbind (abc_getSubRegisterValue abc ''BCAL'') (\<lambda>v. Inr (ucast v)) else Inr 0) (\<lambda>BCAL.
     rbind (abc_getSubRegisterValue abc ''BVT'') (\<lambda>BVT.
     rbind (abc_getSubRegisterValue abc ''BTRANGE'') (\<lambda>BTRANGE.
     rbind (getCalEnables abc) (\<lambda>enables.
     rbind (rfold (\<lambda>istrip (BCAL, hits, g).
         rbind (getTrimDACRaw abc istrip) (\<lambda>TrimDAC.
         let BCAL = (if \<not> bit enables istrip then 0 else BCAL);
             (aHit, g) = calculateHit an istrip BCAL (ucast BVT) (ucast TrimDAC) (ucast BTRANGE) g
         in Inr (BCAL, set_bit_to istrip aHit hits, g))) [0..<256] (BCAL, 0, g)) (\<lambda>(BCAL, hits, g).
     Inr (hits, g)))))))"

definition fill_hits_occupancy ::
  "('g, 'o) Analog \<Rightarrow> ABCStarSubRegister \<Rightarrow> 'o list \<Rightarrow> AbcCfg \<Rightarrow> 'g \<Rightarrow> (StripData \<times> 'g) result" where
  "fill_hits_occupancy an sub_reg occupancy_map abc g =
     rbind (abc_getSubRegisterValue abc sub_reg) (\<lambda>curr_val.
     let occupancy = (if unat curr_val < length occupancy_map then occupancy_map ! unat curr_val
                      else occupancy_zero an)
     in Inr (fold (\<lambda>istrip (hits, g). let (stripHit, g) = draw_below an occupancy g
                                    in (set_bit_to istrip stripHit hits, g)) [0..<256] (0, g)))"

definition fill_hits_trim ::
  "('g, 'o) Analog \<Rightarrow> 'o list \<Rightarrow> AbcCfg \<Rightarrow> 'g \<Rightarrow> (StripData \<times> 'g) result" where
  "fill_hits_trim an occupancy_map abc g =
     rbind (abc_read_regs abc (map TrimLo [0..<32])) (\<lambda>lo_trim.
     rbind (abc_read_regs abc (map TrimHi [0..<8])) (\<lambda>hi_trim.
     Inr (fold (\<lambda>istrip (hits, g).
       let lo_offset = (istrip * 4) mod 32; hi_offset = istrip mod 32;
           lo_reg_value = lo_trim ! (istrip div 8); hi_reg_value = hi_trim ! (istrip div 32);
           lo_val = drop_bit lo_offset lo_reg_value AND 0xf;
           hi_val = drop_bit hi_offset hi_reg_value AND 1;
           trim_val = push_bit 4 hi_val OR lo_val;
           occupancy = (if unat trim_val < length occupancy_map then occupancy_map ! unat trim_val
                        else occupancy_zero an);
           (stripHit, g) = draw_below an occupancy g
       in (set_bit_to istrip stripHit hits, g)) [0..<256] (0, g))))"

text \<open>A configuration with an unknown generator type leaves the pointer null.\<close>

definition fill_hits ::
  "('g, 'o) Analog \<Rightarrow> 'o StripGenerator option \<Rightarrow> AbcCfg \<Rightarrow> bool \<Rightarrow> 'g \<Rightarrow> (StripData \<times> 'g) result" where
  "fill_hits an gen abc cal_pulse g =
     (case gen of
        None \<Rightarrow> Inl Undefined
      | Some AnalogueModelGenerator \<Rightarrow> fill_hits_analogue an abc cal_pulse g
      | Some (SimpleOccupancyGenerator sub_reg occupancy_map) \<Rightarrow> fill_hits_occupancy an sub_reg occupancy_map abc g
      | Some (SimpleTrimGenerator occupancy_map) \<Rightarrow> fill_hits_trim an occupancy_map abc g)"

section \<open>Hit counters\<close>

definition count_incr :: "u32 \<Rightarrow> StripData \<Rightarrow> nat \<Rightarrow> u32" where
  "count_incr counts hits ireg =
     fold (\<lambda>ich incr. if drop_bit (8 * ich) counts AND 0xff = 0xff then incr
                      else if bit hits (ireg * 4 + ich) then incr + push_bit (8 * ich) 1 else incr)
       [0..<4] 0"

definition countHits :: "bool \<Rightarrow> AbcCfg \<Rightarrow> StripData \<Rightarrow> AbcCfg result" where
  "countHits startHitCount abc hits =
     (if \<not> startHitCount then Inr abc
      else rbind (abc_getSubRegisterValue abc ''ENCOUNT'') (\<lambda>EnCount.
        if EnCount = 0 then Inr abc
        else rfold (\<lambda>ireg abc.
          rbind (abc_getRegisterValue abc (Counter ireg)) (\<lambda>counts.
          abc_setRegisterValue abc (Counter ireg) (counts + count_incr counts hits ireg))) [0..<64] abc))"

section \<open>L0 pipeline\<close>

definition l0_write :: "nat \<Rightarrow> L0BufData \<Rightarrow> ('g, 'o) ChipsetEmu \<Rightarrow> ('g, 'o) ChipsetEmu" where
  "l0_write addr d s = s\<lparr>m_l0buffer_lite := (m_l0buffer_lite s)[addr := d]\<rparr>"

definition ackPulseCmd :: "nat \<Rightarrow> u8 \<Rightarrow> ('g, 'o) ChipsetEmu \<Rightarrow> ('g, 'o) ChipsetEmu" where
  "ackPulseCmd pulseType cmdBC s =
     (let bcid = of_nat ((unat (m_bccnt s) + unat cmdBC) mod 256);
          addr = (unat (m_bccnt s) + unat cmdBC) mod L0BufDepth;
          s = l0_write addr (push_bit 8 (of_nat pulseType) OR bcid) s
      in s\<lparr>m_ndata_l0buf := m_ndata_l0buf s + 1\<rparr>)"

definition clearFEData :: "('g, 'o) ChipsetEmu \<Rightarrow> ('g, 'o) ChipsetEmu" where
  "clearFEData s =
     s\<lparr>m_l0buffer_lite := replicate L0BufDepth 0,
       m_evtbuffers_lite := (\<lambda>k. map_option (\<lambda>_. replicate EvtBufDepth 0) (m_evtbuffers_lite s k))\<rparr>"

definition fillL0Buffer :: "('g, 'o) ChipsetEmu \<Rightarrow> ('g, 'o) ChipsetEmu" where
  "fillL0Buffer s =
     fold (\<lambda>ibc s. l0_write ((unat (m_bccnt s) + ibc) mod L0BufDepth)
                     (of_nat ((unat (m_bccnt s) + ibc) mod 256)) s) [0..<4] s"

definition l0_read :: "('g, 'o) ChipsetEmu \<Rightarrow> nat \<Rightarrow> L0BufData result" where
  "l0_read s addr = vec_read (m_l0buffer_lite s) addr"

definition getL0BufferAddr :: "u16 \<Rightarrow> AbcCfg \<Rightarrow> u8 \<Rightarrow> nat result" where
  "getL0BufferAddr bccnt abc cmdBC =
     rbind (abc_getSubRegisterValue abc ''LATENCY'') (\<lambda>l0_latency.
     Inr (unat ((of_nat L0BufDepth + ucast bccnt - 4 + ucast cmdBC - l0_latency) mod of_nat L0BufDepth :: u32)))"

section \<open>Front-end data\<close>

definition generateFEData_StaticTest :: "AbcCfg \<Rightarrow> nat \<Rightarrow> (u8 \<times> StripData) result" where
  "generateFEData_StaticTest abc l0addr =
     rbind (getMasks abc) (\<lambda>masks. Inr (of_nat l0addr AND 0xff, masks))"

definition pulse_type :: "L0BufData \<Rightarrow> nat" where
  "pulse_type p = unat (drop_bit 8 p AND 3)"

definition pulse_bcid :: "L0BufData \<Rightarrow> u8" where
  "pulse_bcid p = ucast (p AND 0xff)"

text \<open>The loop over the four slots of the test pattern, ended by the first test pulse.\<close>

fun test_pattern ::
  "('g, 'o) ChipsetEmu \<Rightarrow> AbcCfg \<Rightarrow> nat \<Rightarrow> StripData \<Rightarrow> nat list \<Rightarrow> (u8 \<times> StripData) result" where
  "test_pattern s abc l0addr masks [] = Inr (0, 0)"
| "test_pattern s abc l0addr masks (ibit # ibits) =
     rbind (l0_read s (unat ((of_nat L0BufDepth + of_nat l0addr - of_nat ibit) mod of_nat L0BufDepth :: u32))) (\<lambda>pulse.
     if pulse_type pulse = 2 then
       rbind (abc_getSubRegisterValue abc ''TESTPATT1'') (\<lambda>testPatt1.
       rbind (abc_getSubRegisterValue abc ''TESTPATT2'') (\<lambda>testPatt2.
       let patt1_ibit = (if bit (ucast testPatt1 :: u8) ibit then NOT 0 else 0);
           patt2_ibit = (if bit (ucast testPatt2 :: u8) ibit then NOT 0 else 0)
       in Inr (pulse_bcid pulse + of_nat ibit, (NOT masks AND patt1_ibit) OR (masks AND patt2_ibit))))
     else test_pattern s abc l0addr masks ibits)"

definition generateFEData_TestPulse ::
  "('g, 'o) ChipsetEmu \<Rightarrow> AbcCfg \<Rightarrow> nat \<Rightarrow> (u8 \<times> StripData) result" where
  "generateFEData_TestPulse s abc l0addr =
     rbind (abc_getSubRegisterValue abc ''TEST_PULSE_ENABLE'') (\<lambda>TestPulseEnable.
     if TestPulseEnable = 0 then Inr (0, 0)
     else rbind (getMasks abc) (\<lambda>masks.
       rbind (abc_getSubRegisterValue abc ''TESTPATT_ENABLE'') (\<lambda>testPattEnable.
       if testPattEnable \<noteq> 0 then test_pattern s abc l0addr masks [0..<4]
       else rbind (l0_read s l0addr) (\<lambda>pulse.
         if pulse_type pulse = 2 then Inr (pulse_bcid pulse, masks) else Inr (0, 0)))))"

definition generateFEData_CaliPulse ::
  "('g, 'o) Analog \<Rightarrow> AbcCfg \<Rightarrow> nat \<Rightarrow> ('g, 'o) ChipsetEmu \<Rightarrow> ((u8 \<times> StripData) \<times> ('g, 'o) ChipsetEmu) result" where
  "generateFEData_CaliPulse an abc l0addr s =
     rbind (l0_read s l0addr) (\<lambda>pulse.
     let bcid = (if pulse_type pulse = 1 then of_nat l0addr AND 0xff else pulse_bcid pulse)
     in rbind (fill_hits an (m_generator s) abc (pulse_type pulse = 1) (m_random s)) (\<lambda>(hits, g).
        rbind (getMasks abc) (\<lambda>masks.
        Inr ((bcid, hits AND NOT masks), s\<lparr>m_random := g\<rparr>))))"

definition getFEData ::
  "('g, 'o) Analog \<Rightarrow> AbcCfg \<Rightarrow> nat \<Rightarrow> ('g, 'o) ChipsetEmu \<Rightarrow> ((u8 \<times> StripData) \<times> ('g, 'o) ChipsetEmu) result" where
  "getFEData an abc l0addr s =
     rbind (abc_getSubRegisterValue abc ''TM'') (\<lambda>v.
     let TM = (ucast v :: u8)
     in if TM = 0 then generateFEData_CaliPulse an abc l0addr s
        else if TM = 1 then rbind (generateFEData_StaticTest abc l0addr) (\<lambda>r. Inr (r, s))
        else rbind (generateFEData_TestPulse s abc l0addr) (\<lambda>r. Inr (r, s)))"

definition getClusters :: "AbcCfg \<Rightarrow> StripData \<Rightarrow> u16 list result" where
  "getClusters abc hits =
     rbind (abc_getSubRegisterValue abc ''MAX_CLUSTER_ENABLE'') (\<lambda>maxcluster_en.
     rbind (if maxcluster_en \<noteq> 0 then rbind (abc_getSubRegisterValue abc ''MAX_CLUSTER'') (\<lambda>v. Inr (ucast v))
            else Inr 63) (\<lambda>maxcluster.
     Inr (clusterFinder hits maxcluster)))"


section \<open>Reading registers\<close>

context reg_store
begin

text \<open>A loop that reads, changes and writes back each of a list of registers.\<close>

lemma modify_list:
  assumes "inv s" and "distinct as" and "set as \<subseteq> addrs s"
  obtains t where "rfold (\<lambda>a s. rbind (get s a) (\<lambda>v. put s a (f a v))) as s = Inr t" "inv t" "addrs t = addrs s"
    "\<And>a. get t a = (if a \<in> set as then rbind (get s a) (\<lambda>v. Inr (f a v)) else get s a)"
  using assms
proof (induction as arbitrary: s thesis)
  case Nil
  then show ?case by simp
next
  case (Cons a as)
  from Cons.prems have a: "a \<in> addrs s" by simp
  obtain v u where u: "get s a = Inr v" "rbind (get s a) (\<lambda>v. put s a (f a v)) = Inr u" "inv u" "addrs u = addrs s"
    "get u a = Inr (f a v)" "\<And>b. b \<noteq> a \<Longrightarrow> get u b = get s b"
    by (rule modify [OF Cons.prems(2) a, of "f a"]) (rule that)
  have d: "distinct as" "set as \<subseteq> addrs u" using Cons.prems(3,4) u(4) by auto
  obtain t where t: "rfold (\<lambda>a s. rbind (get s a) (\<lambda>v. put s a (f a v))) as u = Inr t" "inv t" "addrs t = addrs u"
    "\<And>b. get t b = (if b \<in> set as then rbind (get u b) (\<lambda>v. Inr (f b v)) else get u b)"
    by (rule Cons.IH [OF _ u(3) d]) (rule that)
  show ?case
  proof (rule Cons.prems(1) [OF _ t(2)])
    show "rfold (\<lambda>a s. rbind (get s a) (\<lambda>v. put s a (f a v))) (a # as) s = Inr t"
      unfolding rfold.simps u(2) rbind_Inr by (rule t(1))
    show "addrs t = addrs s" using t(3) u(4) by simp
    show "get t b = (if b \<in> set (a # as) then rbind (get s b) (\<lambda>v. Inr (f b v)) else get s b)" for b
      using Cons.prems(3) t(4) [of b] u(1,5) u(6) [of b] by (cases "b = a") auto
  qed
qed

end

lemma read_regs:
  assumes "abc_ok abc" and "set as \<subseteq> abc_addrs abc"
  obtains vs where "abc_read_regs abc as = Inr vs" "length vs = length as"
    "\<And>i. i < length as \<Longrightarrow> abc_getRegisterValue abc (as ! i) = Inr (vs ! i)"
  using assms
proof (induction as arbitrary: thesis)
  case Nil
  then show ?case by simp
next
  case (Cons a as)
  from abc_field.get_in [OF Cons.prems(2), of a] Cons.prems(3) obtain v where
    v: "abc_getRegisterValue abc a = Inr v" by auto
  obtain vs where vs: "abc_read_regs abc as = Inr vs" "length vs = length as"
    "\<And>i. i < length as \<Longrightarrow> abc_getRegisterValue abc (as ! i) = Inr (vs ! i)"
    by (rule Cons.IH [OF _ Cons.prems(2)]) (use Cons.prems(3) in auto)
  show ?case
    by (rule Cons.prems(1) [of "v # vs"]) (use v vs in \<open>auto simp: nth_Cons split: nat.split\<close>)
qed

lemma read_regs_map:
  assumes "abc_ok abc" and "\<And>i. i < n \<Longrightarrow> f i \<in> abc_addrs abc"
  obtains vs where "abc_read_regs abc (map f [0..<n]) = Inr vs" "length vs = n"
    "\<And>i. i < n \<Longrightarrow> abc_getRegisterValue abc (f i) = Inr (vs ! i)"
proof -
  have "set (map f [0..<n]) \<subseteq> abc_addrs abc"
    unfolding set_map by (rule image_subsetI) (rule assms(2), simp)
  then obtain vs where vs: "abc_read_regs abc (map f [0..<n]) = Inr vs" "length vs = length (map f [0..<n])"
    "\<And>i. i < length (map f [0..<n]) \<Longrightarrow> abc_getRegisterValue abc (map f [0..<n] ! i) = Inr (vs ! i)"
    by (rule read_regs [OF assms(1)]) (rule that)
  have "abc_getRegisterValue abc (f i) = Inr (vs ! i)" if "i < n" for i
    using vs(3) [of i] that by simp
  with vs(1,2) show thesis by (intro that [of vs]) simp_all
qed

section \<open>Masks\<close>

lemma bit_set_strip_if: "bit (set_strip_if b pos d) n \<longleftrightarrow> bit d n \<or> b \<and> n = pos \<and> n < 256"
  by (auto simp: set_strip_if_def bit_simps dest: bit_imp_le_length)

lemma bit_fold_or:
  assumes "\<And>x d. x \<in> set xs \<Longrightarrow> bit (f x d) n \<longleftrightarrow> bit d n \<or> P x"
  shows "bit (fold f xs d) n \<longleftrightarrow> bit d n \<or> (\<exists>x \<in> set xs. P x)"
  using assms by (induction xs arbitrary: d) auto

lemma and_1_bit: "drop_bit k (v :: 'a::len word) AND 1 \<noteq> 0 \<longleftrightarrow> bit v k"
  by (simp add: and_one_eq mod_2_eq_odd bit_iff_odd_drop_bit)

lemma half_of_256: "ch < 256 \<Longrightarrow> ch div 128 = 0 \<or> ch div 128 = (1 :: nat)"
proof -
  assume "ch < 256"
  then have "ch div 128 < 2" by (intro less_mult_imp_div_less) simp
  then show ?thesis by (simp add: less_2_cases_iff)
qed

lemma maskIndex_nat: "ch < 256 \<Longrightarrow> unat (maskIndex ch) = 2 * (ch mod 128) + ch div 128"
proof -
  assume ch: "ch < 256"
  then have h: "ch div 128 = 0 \<or> ch div 128 = 1" by (rule half_of_256)
  obtain x where x: "x = 2 * (ch mod 128) + ch div 128" by blast
  have "bit x n \<longleftrightarrow> (if n = 0 then bit ch 7 else n < 8 \<and> bit ch (n - 1))" for n
  proof (cases n)
    case 0
    have "bit ch 7 \<longleftrightarrow> odd (ch div 128)" by (simp add: bit_iff_odd)
    then show ?thesis unfolding 0 bit_0 x by simp
  next
    case (Suc k)
    have "(2 * (ch mod 128) + ch div 128) div 2 = ch mod 2 ^ 7" using h by auto
    then have "bit x (Suc k) = bit (take_bit 7 ch) k" unfolding x by (simp only: bit_Suc take_bit_eq_mod)
    then show ?thesis using Suc by (simp add: bit_take_bit_iff)
  qed
  then have "maskIndex ch = word_of_nat x"
    by (intro bit_word_eqI) (auto simp: bit_maskIndex bit_of_nat_iff)
  moreover have "x < 256" using h mod_less_divisor [of 128 ch] unfolding x by linarith
  ultimately show ?thesis unfolding x [symmetric] by (simp add: unat_of_nat)
qed

lemma mask_position: "ch < 256 \<Longrightarrow> mask_reg ch = MaskInput ((ch mod 128) div 16) \<and> mask_bit ch = 2 * (ch mod 16) + ch div 128"
proof -
  assume ch: "ch < 256"
  then have h: "ch div 128 = 0 \<or> ch div 128 = 1" by (rule half_of_256)
  have w: "unat (drop_bit 5 w AND 7) = unat w div 32" "unat (w AND 0x1f) = unat w mod 32" for w :: u8
  proof -
    have "unat w < 256" using unsigned_less [of w, where 'a = nat] by simp
    then have "unat w div 32 mod 8 = unat w div 32" by simp
    then show "unat (drop_bit 5 w AND 7) = unat w div 32" "unat (w AND 0x1f) = unat w mod 32"
      unfolding and_literals unsigned_take_bit_eq unsigned_drop_bit_eq
      using \<open>unat w < 256\<close> by (simp_all add: take_bit_eq_mod drop_bit_eq_div)
  qed
  let ?q = "(ch mod 128) div 16" and ?r = "ch mod 16"
  have "ch mod 128 mod 16 = ?r" by (rule mod_mod_cancel) simp
  then have "2 * (ch mod 128) + ch div 128 = (2 * ?r + ch div 128) + 32 * ?q"
    using div_mult_mod_eq [of "ch mod 128" 16] by linarith
  moreover have "2 * ?r + ch div 128 < 32" using h mod_less_divisor [of 16 ch] by linarith
  ultimately have "(2 * (ch mod 128) + ch div 128) div 32 = ?q"
    "(2 * (ch mod 128) + ch div 128) mod 32 = 2 * ?r + ch div 128"
    by (simp_all only: div_mult_self1 mod_mult_self2 div_less mod_less) simp
  then show ?thesis by (simp add: mask_reg_def mask_bit_def maskIndex_nat [OF ch] w)
qed

lemma getMasks_bits:
  assumes "abc_ok abc"
  obtains m where "getMasks abc = Inr m" "\<And>ch. ch < 256 \<Longrightarrow> isMasked abc ch = Inr (bit m ch)"
proof -
  obtain vs where vs: "abc_read_regs abc (map MaskInput [0..<8]) = Inr vs"
    "\<And>i. i < 8 \<Longrightarrow> abc_getRegisterValue abc (MaskInput i) = Inr (vs ! i)"
    by (rule read_regs_map [OF assms abc_ok_addrs(1) [OF assms]]) (assumption, rule that)
  obtain m where m_def: "m = fold (\<lambda>j. fold (\<lambda>i masks.
         set_strip_if (drop_bit (2 * j + 1) (vs ! i) AND 1 \<noteq> 0) (128 + j + 16 * i)
           (set_strip_if (drop_bit (2 * j) (vs ! i) AND 1 \<noteq> 0) (j + 16 * i) masks)) [0..<8]) [0..<16] 0" by blast
  have m: "bit m n \<longleftrightarrow> bit (0 :: StripData) n \<or> (\<exists>j \<in> set [0..<16]. \<exists>i \<in> set [0..<8].
      n < 256 \<and> (bit (vs ! i) (2 * j) \<and> n = j + 16 * i \<or> bit (vs ! i) (2 * j + 1) \<and> n = 128 + j + 16 * i))" for n
    unfolding m_def and_1_bit
    by (rule bit_fold_or, rule bit_fold_or) (auto simp: bit_set_strip_if simp del: upt_rec_numeral)
  have "isMasked abc ch = Inr (bit m ch)" if ch: "ch < 256" for ch
  proof -
    let ?i = "(ch mod 128) div 16" and ?j = "ch mod 16"
    have i: "?i < 8" by simp
    have h: "ch div 128 = 0 \<or> ch div 128 = 1" using ch by (rule half_of_256)
    have "ch mod 128 mod 16 = ?j" by (rule mod_mod_cancel) simp
    then have split: "ch = 128 * (ch div 128) + 16 * ?i + ?j"
      using div_mult_mod_eq [of ch 128] div_mult_mod_eq [of "ch mod 128" 16] by linarith
    have "bit m ch \<longleftrightarrow> bit (vs ! ?i) (2 * ?j + ch div 128)"
    proof
      assume "bit m ch"
      then obtain j i where ij: "j < 16" "i < 8"
        "bit (vs ! i) (2 * j) \<and> ch = j + 16 * i \<or> bit (vs ! i) (2 * j + 1) \<and> ch = 128 + j + 16 * i"
        unfolding m by (auto simp del: upt_rec_numeral)
      from ij(3) show "bit (vs ! ?i) (2 * ?j + ch div 128)"
      proof (elim disjE conjE)
        assume b: "bit (vs ! i) (2 * j)" and c: "ch = j + 16 * i"
        with ij(1,2) have "?i = i" "?j = j" "ch div 128 = 0" by simp_all
        with b show ?thesis by simp
      next
        assume b: "bit (vs ! i) (2 * j + 1)" and c: "ch = 128 + j + 16 * i"
        have "j + 16 * i < 128" using ij(1,2) by linarith
        then have "ch div 128 = 1" "ch mod 128 = j + 16 * i" unfolding c add.assoc by simp_all
        moreover from this ij(1) have "?i = i" by simp
        moreover have "ch = j + 16 * (i + 8)" unfolding c by simp
        then have "?j = j" using ij(1) by (simp only: mod_mult_self2 mod_less)
        ultimately show ?thesis using b by simp
      qed
    next
      assume b: "bit (vs ! ?i) (2 * ?j + ch div 128)"
      have "bit (vs ! ?i) (2 * ?j) \<and> ch = ?j + 16 * ?i \<or> bit (vs ! ?i) (2 * ?j + 1) \<and> ch = 128 + ?j + 16 * ?i"
        using h
      proof
        assume 0: "ch div 128 = 0"
        with split have "ch = ?j + 16 * ?i" by simp
        with b 0 show ?thesis by simp
      next
        assume 1: "ch div 128 = 1"
        with split have "ch = 128 + ?j + 16 * ?i" by simp
        with b 1 show ?thesis by simp
      qed
      moreover have "?j \<in> set [0..<16]" "?i \<in> set [0..<8]" by (simp_all del: upt_rec_numeral)
      ultimately show "bit m ch" unfolding m using ch by blast
    qed
    then show ?thesis
      using vs(2) [OF i] mask_position [OF ch] by (simp add: isMasked_value)
  qed
  then show thesis
    by (intro that [of m]) (simp_all add: getMasks_def vs(1) m_def del: upt_rec_numeral)
qed


section \<open>Hit counters, byte by byte\<close>

definition byte_of :: "nat \<Rightarrow> u32 \<Rightarrow> nat" where
  "byte_of k v = unat (drop_bit (8 * k) v AND 0xff)"

lemma byte_of_nat: "byte_of k v = unat v div 2 ^ (8 * k) mod 256"
proof -
  have "unat v < 2 ^ 32" using unsigned_less [of v, where 'a = nat] by simp
  then have "take_bit 32 (unat v) = unat v" by (rule take_bit_nat_eq_self)
  then show ?thesis
    unfolding byte_of_def and_literals unsigned_take_bit_eq unsigned_drop_bit_eq
    by (simp add: take_bit_eq_mod drop_bit_eq_div)
qed

lemma byte_of_lt: "byte_of k v < 256"
  unfolding byte_of_nat by simp

definition four_bytes :: "nat \<Rightarrow> nat \<Rightarrow> nat \<Rightarrow> nat \<Rightarrow> nat" where
  "four_bytes a b c d = a + 256 * (b + 256 * (c + 256 * d))"

lemma unat_four_bytes: "unat v = four_bytes (byte_of 0 v) (byte_of 1 v) (byte_of 2 v) (byte_of 3 v)"
proof -
  let ?u = "unat v"
  have "?u < 2 ^ 32" using unsigned_less [of v, where 'a = nat] by simp
  then have "?u div 256 div 256 div 256 < 256" by simp
  moreover have "?u = ?u mod 256 + 256 * (?u div 256 mod 256 + 256 * (?u div 256 div 256 mod 256 + 256 * (?u div 256 div 256 div 256)))"
    by simp
  ultimately show ?thesis by (simp add: four_bytes_def byte_of_nat div_mult2_eq [symmetric])
qed

lemma four_bytes_lt: "a < 256 \<Longrightarrow> b < 256 \<Longrightarrow> c < 256 \<Longrightarrow> d < 256 \<Longrightarrow> four_bytes a b c d < 2 ^ 32"
  by (simp add: four_bytes_def)

lemma byte_of_four:
  assumes "a < 256" "b < 256" "c < 256" "d < 256"
  shows "byte_of 0 (of_nat (four_bytes a b c d)) = a" "byte_of 1 (of_nat (four_bytes a b c d)) = b"
    "byte_of 2 (of_nat (four_bytes a b c d)) = c" "byte_of 3 (of_nat (four_bytes a b c d)) = d"
proof -
  have u: "unat (of_nat (four_bytes a b c d) :: u32) = four_bytes a b c d"
    using four_bytes_lt [OF assms] by (simp add: unat_of_nat)
  have "four_bytes a b c d div 256 = b + 256 * (c + 256 * d)" "(b + 256 * (c + 256 * d)) div 256 = c + 256 * d"
    "(c + 256 * d) div 256 = d" using assms by (simp_all add: four_bytes_def)
  then have d: "four_bytes a b c d div 256 = b + 256 * (c + 256 * d)" "four_bytes a b c d div 65536 = c + 256 * d"
    "four_bytes a b c d div 16777216 = d"
    using div_mult2_eq [of "four_bytes a b c d" 256 256] div_mult2_eq [of "four_bytes a b c d" 65536 256] by simp_all
  have m: "four_bytes a b c d mod 256 = a" "(b + 256 * (c + 256 * d)) mod 256 = b" "(c + 256 * d) mod 256 = c" "d mod 256 = d"
    using assms by (simp_all only: four_bytes_def mod_mult_self2 mod_less)
  have pow: "2 ^ (8 * 0) = (1 :: nat)" "2 ^ (8 * 1) = (256 :: nat)" "2 ^ (8 * 2) = (65536 :: nat)" "2 ^ (8 * 3) = (16777216 :: nat)"
    by simp_all
  show "byte_of 0 (of_nat (four_bytes a b c d)) = a" "byte_of 1 (of_nat (four_bytes a b c d)) = b"
    "byte_of 2 (of_nat (four_bytes a b c d)) = c" "byte_of 3 (of_nat (four_bytes a b c d)) = d"
    by (simp_all only: byte_of_nat u pow d m div_by_1)
qed

definition count_step :: "u32 \<Rightarrow> StripData \<Rightarrow> nat \<Rightarrow> nat \<Rightarrow> nat" where
  "count_step counts hits ireg k = of_bool (byte_of k counts < 255 \<and> bit hits (ireg * 4 + k))"

lemma count_incr_steps:
  "count_incr counts hits ireg = of_nat (four_bytes (count_step counts hits ireg 0) (count_step counts hits ireg 1)
     (count_step counts hits ireg 2) (count_step counts hits ireg 3))"
proof -
  have full: "drop_bit (8 * k) counts AND 0xff = 0xff \<longleftrightarrow> \<not> byte_of k counts < 255" for k
  proof -
    have "drop_bit (8 * k) counts AND 0xff = 0xff \<longleftrightarrow> byte_of k counts = 255"
      unfolding byte_of_def by (simp add: word_unat_eq_iff)
    then show ?thesis using byte_of_lt [of k counts] by auto
  qed
  have step: "(if drop_bit (8 * k) counts AND 0xff = 0xff then x
      else if bit hits (ireg * 4 + k) then x + push_bit (8 * k) 1 else x) = x + of_nat (count_step counts hits ireg k * 2 ^ (8 * k))" for k and x :: u32
    unfolding full count_step_def by (simp add: push_bit_eq_mult)
  have up: "[0..<4] = [0, 1, 2, 3]" by (simp add: upt_rec)
  show ?thesis
    unfolding count_incr_def step up fold_simps four_bytes_def
    by (simp add: algebra_simps)
qed

lemma count_incr_bytes:
  assumes "k < 4"
  shows "byte_of k (c + count_incr c hits r) = byte_of k c + count_step c hits r k"
proof -
  let ?b = "\<lambda>k. byte_of k c" and ?s = "\<lambda>k. count_step c hits r k"
  have lt: "?b k + ?s k < 256" for k using byte_of_lt [of k c] by (simp add: count_step_def)
  have "c = of_nat (unat c)" by simp
  then have "c = of_nat (four_bytes (?b 0) (?b 1) (?b 2) (?b 3))" unfolding unat_four_bytes [symmetric] .
  then have "c + count_incr c hits r = of_nat (four_bytes (?b 0) (?b 1) (?b 2) (?b 3)) +
      of_nat (four_bytes (?s 0) (?s 1) (?s 2) (?s 3))" unfolding count_incr_steps by (rule arg_cong)
  also have "\<dots> = of_nat (four_bytes (?b 0) (?b 1) (?b 2) (?b 3) + four_bytes (?s 0) (?s 1) (?s 2) (?s 3))" by simp
  also have "four_bytes (?b 0) (?b 1) (?b 2) (?b 3) + four_bytes (?s 0) (?s 1) (?s 2) (?s 3) =
      four_bytes (?b 0 + ?s 0) (?b 1 + ?s 1) (?b 2 + ?s 2) (?b 3 + ?s 3)" by (simp add: four_bytes_def algebra_simps)
  finally have sum: "c + count_incr c hits r = of_nat (four_bytes (?b 0 + ?s 0) (?b 1 + ?s 1) (?b 2 + ?s 2) (?b 3 + ?s 3))" .
  from assms consider "k = 0" | "k = 1" | "k = 2" | "k = 3" by linarith
  then show ?thesis unfolding sum by cases (simp_all only: byte_of_four [OF lt lt lt lt])
qed

lemma counter_addrs: "abc_ok abc \<Longrightarrow> ireg < 64 \<Longrightarrow> Counter ireg \<in> abc_addrs abc"
  by (auto simp: abc_ok_def abc_has_reg_def abc_skip_v1_def Counter_def)

lemma countHits_spec:
  assumes ok: "abc_ok abc" and "abc_getSubRegisterValue abc ''ENCOUNT'' = Inr en" and "en \<noteq> 0"
  obtains t where "countHits True abc hits = Inr t" "abc_ok t" "m_abcID t = m_abcID abc" "abc_info t = abc_info abc"
    "\<And>a. abc_getRegisterValue t a = (if a \<in> Counter ` {..<64}
       then rbind (abc_getRegisterValue abc a) (\<lambda>v. Inr (v + count_incr v hits (a - 128))) else abc_getRegisterValue abc a)"
proof -
  let ?as = "map Counter [0..<64]" and ?f = "\<lambda>a v. v + count_incr v hits (a - 128)"
  have sub: "distinct ?as" "set ?as \<subseteq> abc_addrs abc"
    by (simp add: distinct_map inj_on_def Counter_def del: upt_rec_numeral)
      (unfold set_map, rule image_subsetI, rule counter_addrs [OF ok], simp del: upt_rec_numeral)
  obtain t where t: "rfold (\<lambda>a s. rbind (abc_getRegisterValue s a) (\<lambda>v. abc_setRegisterValue s a (?f a v))) ?as abc = Inr t"
    "abc_ok t" "\<And>a. abc_getRegisterValue t a = (if a \<in> set ?as then rbind (abc_getRegisterValue abc a) (\<lambda>v. Inr (?f a v)) else abc_getRegisterValue abc a)"
    by (rule abc_field.modify_list [OF ok sub, of ?f]) (rule that)
  have inv: "m_abcID t = m_abcID abc \<and> abc_info t = abc_info abc"
    by (rule rfold_invariant [OF t(1), of "\<lambda>t. m_abcID t = m_abcID abc \<and> abc_info t = abc_info abc"])
      (auto simp: rbind_eq_Inr_iff abc_set_ID abc_set_info)
  have "countHits True abc hits = Inr t"
    using t(1) assms(2,3) by (simp add: countHits_def rfold_map Counter_def del: upt_rec_numeral)
  then show thesis
    using inv t by (intro that [of t]) (simp_all add: atLeast0LessThan del: upt_rec_numeral)
qed


section \<open>Generators\<close>

text \<open>The loop of a generator whose per-strip draw does not depend on the strips before.\<close>

definition draw_strips :: "(nat \<Rightarrow> 'g \<Rightarrow> (bool \<times> 'g) result) \<Rightarrow> 'g \<Rightarrow> (StripData \<times> 'g) result" where
  "draw_strips f g =
     rfold (\<lambda>istrip (hits, g). rbind (f istrip g) (\<lambda>(b, g). Inr (set_bit_to istrip b hits, g))) [0..<256] (0, g)"

lemma rfold_cong:
  assumes "\<And>x s. x \<in> set xs \<Longrightarrow> f x s = g x s"
  shows "rfold f xs s = rfold g xs s"
  using assms by (induction xs arbitrary: s) (auto intro!: rbind_cong)

lemma fold_rfold: "Inr (fold f xs s) = rfold (\<lambda>x s. Inr (f x s)) xs s"
  by (induction xs arbitrary: s) simp_all

text \<open>The cached registers of the trim generator are those \<open>getTrimDACRaw\<close> reads.\<close>

lemma fill_hits_trim_draws:
  assumes "abc_ok abc"
  shows "fill_hits_trim an occ abc g = draw_strips (\<lambda>i g. rbind (getTrimDACRaw abc i) (\<lambda>t.
    Inr (draw_below an (if unat t < length occ then occ ! unat t else occupancy_zero an) g))) g"
proof -
  obtain los where los: "abc_read_regs abc (map TrimLo [0..<32]) = Inr los"
    "\<And>i. i < 32 \<Longrightarrow> abc_getRegisterValue abc (TrimLo i) = Inr (los ! i)"
    by (rule read_regs_map [OF assms abc_ok_addrs(2) [OF assms]]) (assumption, rule that)
  obtain his where his: "abc_read_regs abc (map TrimHi [0..<8]) = Inr his"
    "\<And>i. i < 8 \<Longrightarrow> abc_getRegisterValue abc (TrimHi i) = Inr (his ! i)"
    by (rule read_regs_map [OF assms abc_ok_addrs(3) [OF assms]]) (assumption, rule that)
  have trim: "getTrimDACRaw abc i = Inr (push_bit 4 (drop_bit (i mod 32) (his ! (i div 32)) AND 1)
      OR (drop_bit ((i * 4) mod 32) (los ! (i div 8)) AND 0xf))" if "i < 256" for i
    using that los(2) [of "i div 8"] his(2) [of "i div 32"]
    by (simp add: getTrimDACRaw_def StripsPerABC_def Let_def)
  show ?thesis
    unfolding fill_hits_trim_def draw_strips_def los(1) his(1) rbind_Inr fold_rfold
    by (rule rfold_cong) (auto simp: trim Let_def split: prod.split simp del: upt_rec_numeral)
qed

text \<open>The charge used for a strip by the analogue generator: once a strip without calibration
  enable has been met, the charge stays zero.\<close>

definition charge_for :: "u16 \<Rightarrow> StripData \<Rightarrow> nat \<Rightarrow> u16" where
  "charge_for BCAL enables i = (if \<forall>j \<le> i. bit enables j then BCAL else 0)"

lemma analogue_loop:
  fixes an :: "('g, 'o) Analog"
  assumes "n \<le> 256"
  shows "rfold (\<lambda>istrip (BCAL, hits, g).
         rbind (getTrimDACRaw abc istrip) (\<lambda>TrimDAC.
         let BCAL = (if \<not> bit enables istrip then 0 else BCAL);
             (aHit, g) = calculateHit an istrip BCAL (ucast BVT) (ucast TrimDAC) (ucast BTRANGE) g
         in Inr (BCAL, set_bit_to istrip aHit hits, g))) [0..<n] (BCAL, 0 :: StripData, g) =
    rbind (rfold (\<lambda>istrip (hits, g). rbind (rbind (getTrimDACRaw abc istrip) (\<lambda>t.
         Inr (calculateHit an istrip (charge_for BCAL enables istrip) (ucast BVT) (ucast t) (ucast BTRANGE) g)))
         (\<lambda>(b, g). Inr (set_bit_to istrip b hits, g))) [0..<n] (0 :: StripData, g))
      (\<lambda>(hits, g). Inr (if \<forall>j < n. bit enables j then BCAL else 0, hits, g))"
  (is "rfold ?f _ _ = rbind (rfold ?h _ _) (?r n)")
proof (induction n)
  case 0
  then show ?case by simp
next
  case (Suc n)
  have "rfold ?f [0..<Suc n] (BCAL, 0, g) = rbind (rfold ?f [0..<n] (BCAL, 0, g)) (?f n)"
    by (simp add: rfold_append) (simp add: rbind_def split: sum.split)
  also have "\<dots> = rbind (rfold ?h [0..<n] (0, g)) (\<lambda>(hits, g). ?f n (if \<forall>j < n. bit enables j then BCAL else 0, hits, g))"
    unfolding Suc rbind_assoc by (rule rbind_cong) (auto split: prod.split)
  also have "\<dots> = rbind (rfold ?h [0..<n] (0, g)) (\<lambda>s. rbind (?h n s) (?r (Suc n)))"
  proof (rule rbind_cong)
    fix s :: "StripData \<times> 'g"
    obtain hits g where s: "s = (hits, g)" by (cases s)
    have c: "(if \<not> bit enables n then 0 else if \<forall>j < n. bit enables j then BCAL else 0) = charge_for BCAL enables n"
      "(if \<forall>j < Suc n. bit enables j then BCAL else 0) = charge_for BCAL enables n"
      by (auto simp: charge_for_def less_Suc_eq_le le_less)
    show "(case s of (hits, g) \<Rightarrow> ?f n (if \<forall>j < n. bit enables j then BCAL else 0, hits, g)) = rbind (?h n s) (?r (Suc n))"
      unfolding s prod.case c Let_def rbind_assoc rbind_Inr
      by (rule rbind_cong) (simp split: prod.split)
  qed
  also have "\<dots> = rbind (rfold ?h [0..<Suc n] (0, g)) (?r (Suc n))"
    by (simp add: rfold_append rbind_assoc)
  finally show ?case .
qed


lemma getCalEnables_ok:
  assumes "abc_ok abc"
  obtains e where "getCalEnables abc = Inr e"
proof -
  obtain vs where "abc_read_regs abc (map CalReg [0..<8]) = Inr vs"
    by (rule read_regs_map [OF assms abc_ok_addrs(4) [OF assms]]) (assumption, rule that)
  then show thesis using that by (simp add: getCalEnables_def)
qed

lemma abc_getSub_ok:
  assumes "abc_ok abc" and "abcSubRegisterMap_all (abc_info abc) r = Some i"
  obtains v where "abc_getSubRegisterValue abc r = Inr v" "take_bit (m_width i) v = v"
proof -
  from abc_field.field_in [OF assms] abc_field.get_in [OF assms(1)] obtain v where
    "abc_getRegisterValue abc (m_regAddress i) = Inr v" by blast
  then have "abc_getSubRegisterValue abc r = Inr (sub_getValue i v)" by (simp add: abc_getSub_store assms(2))
  then show thesis by (rule that) (simp add: sub_getValue_take)
qed

text \<open>Fields of both versions, with their widths.\<close>

lemma common_fields:
  assumes "abc_ok abc" and "r \<in> {''CALPULSE_ENABLE'', ''BCAL'', ''BVT'', ''BTRANGE'', ''ENCOUNT'', ''LATENCY'', ''TM'',
    ''TEST_PULSE_ENABLE'', ''TESTPATT_ENABLE'', ''TESTPATT1'', ''TESTPATT2'', ''MAX_CLUSTER_ENABLE'', ''MAX_CLUSTER'',
    ''LP_ENABLE'', ''PR_ENABLE'', ''TESTHPR'', ''STOPHPR'', ''MASKHPR''}"
  obtains i where "abcSubRegisterMap_all (abc_info abc) r = Some i" "0 < m_width i"
    "r = ''LATENCY'' \<Longrightarrow> m_width i = 9"
proof -
  from assms(1) obtain v where v: "v \<in> {0, 1}" "abcSubRegisterMap_all (abc_info abc) = abc_fields v"
    by (auto simp: abc_ok_def)
  have "\<exists>d \<in> set (abc_subregdefs v). fst d = r \<and> 0 < snd (snd (snd d)) \<and> (r = ''LATENCY'' \<longrightarrow> snd (snd (snd d)) = 9)"
  proof -
    have "list_all (\<lambda>v. list_all (\<lambda>r. list_ex (\<lambda>d. fst d = r \<and> 0 < snd (snd (snd d)) \<and>
        (r = ''LATENCY'' \<longrightarrow> snd (snd (snd d)) = 9)) (abc_subregdefs v))
      [''CALPULSE_ENABLE'', ''BCAL'', ''BVT'', ''BTRANGE'', ''ENCOUNT'', ''LATENCY'', ''TM'',
       ''TEST_PULSE_ENABLE'', ''TESTPATT_ENABLE'', ''TESTPATT1'', ''TESTPATT2'', ''MAX_CLUSTER_ENABLE'', ''MAX_CLUSTER'',
       ''LP_ENABLE'', ''PR_ENABLE'', ''TESTHPR'', ''STOPHPR'', ''MASKHPR'']) [0, 1]"
      by code_simp
    with v(1) assms(2) show ?thesis unfolding list_all_iff list_ex_iff by (simp add: list.set) blast
  qed
  then obtain d where d: "d \<in> set (abc_subregdefs v)" "fst d = r" "0 < snd (snd (snd d))"
    "r = ''LATENCY'' \<Longrightarrow> snd (snd (snd d)) = 9" by blast
  have nv: "abc_norm v = v" using v(1) by auto
  have "distinct (map fst (abc_subregdefs v))" using abc_tables_ok [of v] by (simp add: table_ok_def)
  from table_lookup [OF this, of r "sub_of d"] d(1,2) have "abc_fields v r = Some (sub_of d)"
    unfolding abc_fields_def nv by blast
  then show thesis
    using d(3,4) by (intro that [of "sub_of d"]) (auto simp: v(2) sub_of_def split: prod.splits)
qed

lemma common_get:
  assumes "abc_ok abc" and "r \<in> {''CALPULSE_ENABLE'', ''BCAL'', ''BVT'', ''BTRANGE'', ''ENCOUNT'', ''LATENCY'', ''TM'',
    ''TEST_PULSE_ENABLE'', ''TESTPATT_ENABLE'', ''TESTPATT1'', ''TESTPATT2'', ''MAX_CLUSTER_ENABLE'', ''MAX_CLUSTER'',
    ''LP_ENABLE'', ''PR_ENABLE'', ''TESTHPR'', ''STOPHPR'', ''MASKHPR''}"
  obtains v where "abc_getSubRegisterValue abc r = Inr v" "r = ''LATENCY'' \<Longrightarrow> v < 512"
proof -
  obtain i where i: "abcSubRegisterMap_all (abc_info abc) r = Some i" "r = ''LATENCY'' \<Longrightarrow> m_width i = 9"
    by (rule common_fields [OF assms]) (rule that)
  obtain v where v: "abc_getSubRegisterValue abc r = Inr v" "take_bit (m_width i) v = v"
    by (rule abc_getSub_ok [OF assms(1) i(1)]) (rule that)
  have "v < 512" if "r = ''LATENCY''"
  proof -
    have "unat (take_bit 9 v) < 2 ^ 9" by (rule unat_take_bit_lt)
    with v(2) i(2) [OF that] show ?thesis by (simp add: word_less_nat_alt)
  qed
  with v(1) show thesis by (intro that [of v])
qed

section \<open>Addresses of the pipeline\<close>

lemma mod_512_sub:
  fixes a b :: u32
  shows "unat ((a - b) mod 512) = nat ((uint a - uint b) mod 512)"
proof -
  have "uint ((a - b) mod 512) = ((uint a - uint b) mod 2 ^ 32) mod 512"
    by (simp only: uint_mod uint_word_ariths(2)) simp
  also have "\<dots> = (uint a - uint b) mod 512"
    by (rule mod_mod_cancel) simp
  finally have "uint ((a - b) mod 512) = (uint a - uint b) mod 512" .
  then show ?thesis by (simp only: unat_eq_nat_uint)
qed

lemma getL0BufferAddr_value:
  assumes "abc_ok abc" and "abc_getSubRegisterValue abc ''LATENCY'' = Inr lat"
  shows "getL0BufferAddr bccnt abc cmdBC =
    Inr (nat ((int (unat bccnt) + int (unat cmdBC) - 4 - int (unat lat)) mod 512))"
proof -
  have depth: "(of_nat L0BufDepth :: u32) = 512" by (simp add: L0BufDepth_def)
  let ?a = "512 + ucast bccnt - 4 + ucast cmdBC :: u32"
  have b: "unat bccnt < 65536" "unat cmdBC < 256"
    using unsigned_less [of bccnt, where 'a = nat] unsigned_less [of cmdBC, where 'a = nat] by simp_all
  have "?a = of_nat (508 + unat bccnt + unat cmdBC)"
    by simp
  then have "uint ?a = int (508 + unat bccnt + unat cmdBC)"
    using b by (simp only: uint_nat unat_of_nat) simp
  moreover have "uint lat = int (unat lat)" by (rule uint_nat)
  ultimately have "unat ((?a - lat) mod 512) = nat ((int (508 + unat bccnt + unat cmdBC) - int (unat lat)) mod 512)"
    unfolding mod_512_sub by simp
  also have "(int (508 + unat bccnt + unat cmdBC) - int (unat lat)) mod 512 =
      ((int (unat bccnt) + int (unat cmdBC) - 4 - int (unat lat)) + 512) mod 512"
    by (rule arg_cong [where f = "\<lambda>x. x mod 512"]) simp
  also have "\<dots> = (int (unat bccnt) + int (unat cmdBC) - 4 - int (unat lat)) mod 512" by (rule mod_add_self2)
  finally show ?thesis unfolding getL0BufferAddr_def assms(2) rbind_Inr depth by (rule arg_cong)
qed


section \<open>Entries of the pipeline\<close>

lemma l0_write_simps [simp]:
  "m_l0buffer_lite (l0_write a d s) = (m_l0buffer_lite s)[a := d]" "m_bccnt (l0_write a d s) = m_bccnt s"
  "m_starCfg (l0_write a d s) = m_starCfg s"
  by (simp_all add: l0_write_def)

lemma fill_fold_entry:
  assumes "length (m_l0buffer_lite s) = L0BufDepth" and "a < L0BufDepth" and "m_bccnt s = b"
  shows "m_l0buffer_lite (fold (\<lambda>ibc s. l0_write ((unat (m_bccnt s) + ibc) mod L0BufDepth)
        (of_nat ((unat (m_bccnt s) + ibc) mod 256)) s) is s) ! a =
    (if \<exists>ibc \<in> set is. a = (unat b + ibc) mod L0BufDepth then of_nat (a mod 256) else m_l0buffer_lite s ! a)"
  using assms
proof (induction "is" arbitrary: s)
  case Nil
  then show ?case by simp
next
  case (Cons i "is")
  let ?s = "l0_write ((unat (m_bccnt s) + i) mod L0BufDepth) (of_nat ((unat (m_bccnt s) + i) mod 256)) s"
  have m: "(unat b + i) mod L0BufDepth mod 256 = (unat b + i) mod 256"
    unfolding L0BufDepth_def by (rule mod_mod_cancel) simp
  have "m_l0buffer_lite ?s ! a = (if a = (unat b + i) mod L0BufDepth then of_nat (a mod 256) else m_l0buffer_lite s ! a)"
    using Cons.prems m by auto
  moreover have "length (m_l0buffer_lite ?s) = L0BufDepth" "m_bccnt ?s = b" using Cons.prems by simp_all
  ultimately show ?case using Cons.IH [of ?s] Cons.prems(2) by auto
qed

lemma fillL0Buffer_entry:
  assumes "length (m_l0buffer_lite s) = L0BufDepth" and "a < L0BufDepth"
  shows "m_l0buffer_lite (fillL0Buffer s) ! a =
    (if \<exists>ibc < 4. a = (unat (m_bccnt s) + ibc) mod L0BufDepth
     then of_nat (a mod 256) else m_l0buffer_lite s ! a)"
  unfolding fillL0Buffer_def fill_fold_entry [OF assms refl]
  by (simp add: Bex_def del: upt_rec_numeral)

lemma fillL0Buffer_simps [simp]:
  "length (m_l0buffer_lite (fillL0Buffer s)) = length (m_l0buffer_lite s)" "m_bccnt (fillL0Buffer s) = m_bccnt s"
  "m_starCfg (fillL0Buffer s) = m_starCfg s"
  by (simp_all add: fillL0Buffer_def upt_rec)

lemma ackPulseCmd_entry:
  assumes "length (m_l0buffer_lite s) = L0BufDepth"
  shows "m_l0buffer_lite (ackPulseCmd p k s) ! ((unat (m_bccnt s) + unat k) mod L0BufDepth) =
    push_bit 8 (of_nat p) OR of_nat ((unat (m_bccnt s) + unat k) mod 256)"
  using assms by (simp add: ackPulseCmd_def Let_def L0BufDepth_def)

section \<open>Properties\<close>

text \<open>C38: The strip mask the emulator computes bit by bit from the eight mask registers agrees with
  \<open>AbcCfg::isMasked\<close>, which the scans use, for every strip.\<close>

theorem getMasks_isMasked:
  assumes "abc_ok abc"
  shows "case getMasks abc of Inr m \<Rightarrow> \<forall>ch < 256. isMasked abc ch = Inr (bit m ch) | Inl e \<Rightarrow> False"
proof -
  obtain m where "getMasks abc = Inr m" "\<And>ch. ch < 256 \<Longrightarrow> isMasked abc ch = Inr (bit m ch)"
    by (rule getMasks_bits [OF assms]) (rule that)
  then show ?thesis by simp
qed

theorem getMasks_isMasked_witness:
  "\<exists>abc m. new_AbcCfg 1 = Inr abc \<and> getMasks abc = Inr m \<and> isMasked abc 130 = Inr (bit m 130)"
proof -
  obtain abc where abc: "new_AbcCfg 1 = Inr abc" "abc_ok abc" using new_AbcCfg_abc_ok [of 1] by auto
  from getMasks_isMasked [OF abc(2)] abc(1) show ?thesis by (auto split: sum.splits)
qed

text \<open>The hit count of a strip, as the emulator keeps it.\<close>

definition hit_count :: "AbcCfg \<Rightarrow> nat \<Rightarrow> nat result" where
  "hit_count abc ch = rbind (abc_getRegisterValue abc (Counter (ch div 4))) (\<lambda>v. Inr (byte_of (ch mod 4) v))"

text \<open>C12: Counting hits: when counting is started and enabled, the count of each strip with a hit
  grows by one up to 255 and stays there, without a carry into its neighbours; the other strips
  and all other registers keep their values. Otherwise nothing changes.\<close>

theorem countHits_saturates:
  assumes "abc_ok abc"
  shows "\<exists>en t. abc_getSubRegisterValue abc ''ENCOUNT'' = Inr en \<and> countHits start abc hits = Inr t \<and> abc_ok t \<and>
    (\<forall>ch < 256. hit_count t ch = rbind (hit_count abc ch)
       (\<lambda>n. Inr (if start \<and> en \<noteq> 0 \<and> bit hits ch then min 255 (n + 1) else n))) \<and>
    (\<forall>a. a \<notin> Counter ` {..<64} \<longrightarrow> abc_getRegisterValue t a = abc_getRegisterValue abc a)"
proof -
  obtain en where en: "abc_getSubRegisterValue abc ''ENCOUNT'' = Inr en"
    by (rule common_get [OF assms, of "''ENCOUNT''"]) simp_all
  have id: "rbind r Inr = r" for r :: "nat result" by (cases r) simp_all
  show ?thesis
  proof (cases "start \<and> en \<noteq> 0")
    case False
    then have "countHits start abc hits = Inr abc" using en by (auto simp: countHits_def)
    with en assms False show ?thesis by (auto simp: id)
  next
    case True
    obtain t where t: "countHits True abc hits = Inr t" "abc_ok t"
      "\<And>a. abc_getRegisterValue t a = (if a \<in> Counter ` {..<64}
         then rbind (abc_getRegisterValue abc a) (\<lambda>v. Inr (v + count_incr v hits (a - 128))) else abc_getRegisterValue abc a)"
      using True by (elim conjE) (rule countHits_spec [OF assms en], assumption, rule that)
    have "hit_count t ch = rbind (hit_count abc ch) (\<lambda>n. Inr (if bit hits ch then min 255 (n + 1) else n))"
      if "ch < 256" for ch
    proof -
      have r: "ch div 4 < 64" "ch mod 4 < 4" "ch div 4 * 4 + ch mod 4 = ch" using that by simp_all
      have step: "byte_of (ch mod 4) v + count_step v hits (ch div 4) (ch mod 4) =
          (if bit hits ch then min 255 (byte_of (ch mod 4) v + 1) else byte_of (ch mod 4) v)" for v
        using byte_of_lt [of "ch mod 4" v] unfolding count_step_def r(3) by auto
      have "Counter (ch div 4) \<in> Counter ` {..<64}" using r(1) by simp
      then show ?thesis
        unfolding hit_count_def t(3) rbind_assoc rbind_Inr
        by (simp add: Counter_def rbind_assoc count_incr_bytes [OF r(2)] step)
    qed
    with t en True show ?thesis by auto
  qed
qed

theorem countHits_saturates_witness:
  "\<exists>abc t n m. abc_getSubRegisterValue abc ''ENCOUNT'' = Inr 1 \<and> countHits True abc 3 = Inr t \<and>
     hit_count abc 0 = Inr n \<and> hit_count t 0 = Inr (min 255 (n + 1)) \<and>
     hit_count abc 2 = Inr m \<and> hit_count t 2 = Inr m"
proof -
  obtain c where c: "abc_ok c" "abcSubRegisterMap_all (abc_info c) = abc_fields 1"
    using new_AbcCfg_abc_ok [of 1] by auto
  have f: "abc_fields 1 ''ENCOUNT'' = Some \<lparr>m_regAddress = 32, m_bOffset = 1, m_width = 1, m_subRegName = ''ENCOUNT''\<rparr>"
    by (simp add: abc_fields_def abc_subregdefs_def s_abcsubregdefs_v1_def sub_of_def)
  obtain abc where abc: "abc_ok abc" "abc_getSubRegisterValue abc ''ENCOUNT'' = Inr 1"
    using abc_field.write_law [OF c(1), where e = Out_Of_Range and r = "''ENCOUNT''" and x = 1] c(2) f
    unfolding abc_setSub_store [symmetric] abc_getSub_store [symmetric] by (auto split: sum.splits)
  have "\<exists>n. hit_count abc ch = Inr n" if "ch < 256" for ch
  proof -
    have "ch div 4 < 64" using that by simp
    then show ?thesis using abc_field.get_in [OF abc(1) counter_addrs [OF abc(1), of "ch div 4"]] by (auto simp: hit_count_def)
  qed
  from this [of 0] this [of 2] obtain n m where n: "hit_count abc 0 = Inr n" "hit_count abc 2 = Inr m" by auto
  have b: "bit (3 :: 256 word) 0" "\<not> bit (3 :: 256 word) 2" by simp_all
  obtain t where t: "countHits True abc 3 = Inr t" "\<And>ch. ch < 256 \<Longrightarrow> hit_count t ch = rbind (hit_count abc ch)
       (\<lambda>n. Inr (if bit (3 :: 256 word) ch then min 255 (n + 1) else n))"
    using countHits_saturates [OF abc(1), of True 3] abc(2) by auto
  have "hit_count t 0 = Inr (min 255 (n + 1))" "hit_count t 2 = Inr m" using t(2) [of 0] t(2) [of 2] n b by simp_all
  with abc(2) t(1) n show ?thesis by blast
qed

text \<open>C39: The charge the analogue generator injects into each strip: the calibration DAC as long as
  every strip up to and including this one has its calibration enable, and zero from the first
  strip without it onwards, because the loop clears the variable instead of a copy. (The intent
  of the enables is one decision per strip.)\<close>

theorem analogue_charge:
  assumes "abc_ok abc"
  shows "\<exists>en bcal bvt btrange e.
    abc_getSubRegisterValue abc ''CALPULSE_ENABLE'' = Inr en \<and> abc_getSubRegisterValue abc ''BCAL'' = Inr bcal \<and>
    abc_getSubRegisterValue abc ''BVT'' = Inr bvt \<and> abc_getSubRegisterValue abc ''BTRANGE'' = Inr btrange \<and>
    getCalEnables abc = Inr e \<and>
    fill_hits an (Some AnalogueModelGenerator) abc cal_pulse g =
      draw_strips (\<lambda>i g. rbind (getTrimDACRaw abc i) (\<lambda>t. Inr (calculateHit an i
        (if cal_pulse \<and> en \<noteq> 0 \<and> (\<forall>j \<le> i. bit e j) then ucast bcal else 0) (ucast bvt) (ucast t) (ucast btrange) g))) g"
proof -
  note get = common_get [OF assms]
  obtain en where en: "abc_getSubRegisterValue abc ''CALPULSE_ENABLE'' = Inr en" by (rule get [of "''CALPULSE_ENABLE''"]) simp_all
  obtain bcal where bcal: "abc_getSubRegisterValue abc ''BCAL'' = Inr bcal" by (rule get [of "''BCAL''"]) simp_all
  obtain bvt where bvt: "abc_getSubRegisterValue abc ''BVT'' = Inr bvt" by (rule get [of "''BVT''"]) simp_all
  obtain btr where btr: "abc_getSubRegisterValue abc ''BTRANGE'' = Inr btr" by (rule get [of "''BTRANGE''"]) simp_all
  obtain e where e: "getCalEnables abc = Inr e" by (rule getCalEnables_ok [OF assms]) (rule that)
  let ?B = "if cal_pulse \<and> en \<noteq> 0 then ucast bcal else 0 :: u16"
  have b: "(if cal_pulse \<and> en \<noteq> 0 then rbind (abc_getSubRegisterValue abc ''BCAL'') (\<lambda>v. Inr (ucast v)) else Inr 0) = Inr ?B"
    by (simp add: bcal)
  have c: "charge_for ?B e i = (if cal_pulse \<and> en \<noteq> 0 \<and> (\<forall>j \<le> i. bit e j) then ucast bcal else 0)" for i
    by (cases cal_pulse; cases "en = 0"; simp only: charge_for_def simp_thms if_True if_False if_cancel)
  have "fill_hits an (Some AnalogueModelGenerator) abc cal_pulse g =
      draw_strips (\<lambda>i g. rbind (getTrimDACRaw abc i) (\<lambda>t. Inr (calculateHit an i
        (charge_for ?B e i) (ucast bvt) (ucast t) (ucast btr) g))) g"
    unfolding fill_hits_def option.case StripGenerator.case fill_hits_analogue_def en rbind_Inr b bvt btr e
      analogue_loop [OF order_refl] draw_strips_def rbind_assoc
    by (rule trans [OF rbind_cong [where g = Inr]]) (auto simp: rbind_def split: sum.split)
  with en bcal bvt btr e show ?thesis unfolding c by blast
qed

text \<open>A model of a strip for the examples: it fires when charge is injected.\<close>

definition example_analog :: "(unit, unit) Analog" where
  "example_analog = \<lparr>calculateHit = (\<lambda>i q bvt trim btr g. (q \<noteq> 0, g)), draw_below = (\<lambda>occ g. (False, g)), occupancy_zero = ()\<rparr>"

theorem analogue_charge_witness:
  "\<exists>abc en e. new_AbcCfg 0 = Inr abc \<and> abc_getSubRegisterValue abc ''CALPULSE_ENABLE'' = Inr en \<and>
    getCalEnables abc = Inr e"
proof -
  obtain abc where abc: "new_AbcCfg 0 = Inr abc" "abc_ok abc" using new_AbcCfg_abc_ok [of 0] by auto
  from analogue_charge [OF abc(2), of example_analog True "()"] abc(1) show ?thesis by blast
qed

end
