(* ===== verification/Star_Chipset.thy ===== *)
theory Star_Chipset
  imports Star_FrontEnd Star_Cmd
begin

text \<open>
  Operations of one emulated chipset, an HCC with its ABCs
  (src/src/libStarEmu/StarChipsetEmu.cpp): the register command state machine, fast commands,
  the periodic HPR packets and the two trigger modes. Every operation takes the chipset and
  returns it changed, or the fault that leaves it. A response packet is the list of 32-bit words
  pushed to the receive buffer.
\<close>

type_synonym ('g, 'o) emu_op = "('g, 'o) ChipsetEmu \<Rightarrow> ('g, 'o) ChipsetEmu result"

section \<open>Construction and output\<close>

definition new_ChipsetEmu ::
  "StarCfg \<Rightarrow> 'o StripGenerator option \<Rightarrow> 'g \<Rightarrow> u32 \<Rightarrow> int \<Rightarrow> int \<Rightarrow> ('g, 'o) ChipsetEmu result" where
  "new_ChipsetEmu regCfg gen g hpr_period abc_version hcc_version =
     (let hccID = sc_getHCCchipID regCfg; fuseID = sc_getHCCfuseID regCfg;
          addressing_value = push_bit 28 (hccID AND 0xf) OR (fuseID AND 0xffffff)
      in rbind (setHCCRegister regCfg 17 addressing_value) (\<lambda>c.
         Inr \<lparr>m_rxbuffer = [], m_ignoreCmd = True, m_isForABC = False, m_reg_cmd_buffer = [],
              m_l0buffer_lite = replicate L0BufDepth 0, m_ndata_l0buf = 0,
              m_evtbuffers_lite = Map.empty, m_bccnt = 0, m_startHitCount = False, m_bc_sel = 0,
              hpr_clkcnt = hpr_period div 2, hpr_sent = replicate (numABCs regCfg + 1) False,
              HPRPERIOD = hpr_period, emu_abc_version = abc_version, emu_hcc_version = hcc_version,
              m_starCfg = c, m_generator = gen, m_random = g\<rparr>))"

definition setBC :: "u16 \<Rightarrow> ('g, 'o) ChipsetEmu \<Rightarrow> ('g, 'o) ChipsetEmu" where
  "setBC bc s = s\<lparr>m_bccnt := bc\<rparr>"

definition sendPacket :: "u8 list \<Rightarrow> ('g, 'o) ChipsetEmu \<Rightarrow> ('g, 'o) ChipsetEmu" where
  "sendPacket packet s = s\<lparr>m_rxbuffer := m_rxbuffer s @ [sendPacket_words packet]\<rparr>"

text \<open>Changing the configuration of the chipset.\<close>

definition on_cfg :: "(StarCfg \<Rightarrow> StarCfg result) \<Rightarrow> ('g, 'o) emu_op" where
  "on_cfg f s = rbind (f (m_starCfg s)) (\<lambda>c. Inr (s\<lparr>m_starCfg := c\<rparr>))"

text \<open>Loops over the ABCs of the chipset.\<close>

definition on_eachAbc :: "(AbcCfg \<Rightarrow> AbcCfg result) \<Rightarrow> ('g, 'o) emu_op" where
  "on_eachAbc f = on_cfg (\<lambda>c. eachAbc (\<lambda>ic. withAbc ic f) c c)"

section \<open>Register commands\<close>

text \<open>The handler of \<open>std::out_of_range\<close> around a register access.\<close>

definition or_else :: "'a result \<Rightarrow> 'a \<Rightarrow> 'a result" where
  "or_else r x = (case r of Inl Out_Of_Range \<Rightarrow> Inr x | _ \<Rightarrow> r)"

definition writeRegister :: "u32 \<Rightarrow> u8 \<Rightarrow> bool \<Rightarrow> u32 \<Rightarrow> ('g, 'o) emu_op" where
  "writeRegister data address isABC ABCID s =
     (let reg_e = unat address in
      if isABC then
        if reg_e \<in> {48, 49, 50, 51, 52, 63} \<or> (Counter 0 \<le> reg_e \<and> reg_e \<le> Counter 63) then Inr s
        else or_else (on_cfg (\<lambda>c. setABCRegisterByID c reg_e data ABCID) s) s
      else
        if reg_e \<in> {0, 1, 2, 3, 4, 5, 6, 15} then Inr s
        else if reg_e = 17 then
          rbind (getHCCRegister (m_starCfg s) 17) (\<lambda>hccid_cur.
          if data AND 0xffffff = hccid_cur AND 0xffffff then
            on_cfg (\<lambda>c. rbind (setHCCRegister c reg_e data) (\<lambda>c. Inr (sc_setHCCChipId c (drop_bit 28 data)))) s
          else Inr s)
        else or_else (on_cfg (\<lambda>c. setHCCRegister c reg_e data) s) s)"

definition readRegister :: "u8 \<Rightarrow> bool \<Rightarrow> u32 \<Rightarrow> ('g, 'o) emu_op" where
  "readRegister address isABC ABCID s =
     (if isABC then
        rbind (hccChannelForABCchipID (m_starCfg s) ABCID) (\<lambda>ich.
        if ich \<ge> MaxABCsPerHCC then Inr s
        else rbind (or_else (getABCRegisterByID (m_starCfg s) (unat address) ABCID) 0xffffffff) (\<lambda>data.
             let status = ucast (push_bit 12 (ABCID AND 0xf))
             in Inr (sendPacket (buildABCRegisterPacket PT_ABCRegRd (of_nat ich) address data status) s)))
      else
        rbind (or_else (getHCCRegister (m_starCfg s) (unat address)) 0xffffffff) (\<lambda>data.
        Inr (sendPacket (buildHCCRegisterPacket PT_HCCRegRd address data) s)))"

text \<open>The identifiers a broadcast goes through, one ABC after the other.\<close>

definition for_each_id :: "(u32 \<Rightarrow> ('g, 'o) emu_op) \<Rightarrow> ('g, 'o) emu_op" where
  "for_each_id f s =
     eachAbc (\<lambda>ic s. rbind (readAbc ic (\<lambda>abc. Inr (m_abcID abc)) (m_starCfg s)) (\<lambda>i. f i s)) (m_starCfg s) s"

definition join_data :: "u8 list \<Rightarrow> u32" where
  "join_data bs = fold (\<lambda>(i, b) data. data OR push_bit (7 * i) (ucast (b AND 0x7f))) (zip [4, 3, 2, 1, 0] bs) 0"

definition execute_command_sequence :: "('g, 'o) emu_op" where
  "execute_command_sequence s =
     (case m_reg_cmd_buffer s of
        header1 # header2 # rest \<Rightarrow>
          let s = s\<lparr>m_reg_cmd_buffer := rest\<rparr>;
              isRegRead = bit header1 6;
              cmd_abcID = ucast (drop_bit 2 header1 AND 0xf) :: u32;
              reg_addr = push_bit 6 (header1 AND 3) OR (drop_bit 1 header2 AND 0x3f)
          in if isRegRead then
               if cmd_abcID = 0xf \<and> m_isForABC s then for_each_id (readRegister reg_addr True) s
               else readRegister reg_addr (m_isForABC s) cmd_abcID s
             else if length rest \<noteq> 5 then Inr s
             else
               let data = join_data rest; s = s\<lparr>m_reg_cmd_buffer := []\<rparr>
               in if cmd_abcID = 0xf \<and> m_isForABC s then for_each_id (writeRegister data reg_addr True) s
                  else writeRegister data reg_addr (m_isForABC s) cmd_abcID s
      | _ \<Rightarrow> Inl Undefined)"

definition doRegReadWrite :: "u16 \<Rightarrow> ('g, 'o) emu_op" where
  "doRegReadWrite frame s =
     (let code0 = ucast (drop_bit 8 frame AND 0xff) :: u8; code1 = ucast (frame AND 0xff) :: u8 in
      if code0 = K2 then
        let data6 = decode code1;
            isK2Start = bit data6 4;
            cmd_hccID = ucast (data6 AND 0xf) :: u32;
            s = s\<lparr>m_ignoreCmd := \<not> (cmd_hccID = sc_getHCCchipID (m_starCfg s) AND 0xf \<or> cmd_hccID = 0xf)\<rparr>
        in if m_ignoreCmd s then Inr s
           else if isK2Start then Inr (s\<lparr>m_isForABC := bit data6 5, m_reg_cmd_buffer := []\<rparr>)
           else let bufsize = length (m_reg_cmd_buffer s)
                in if \<not> (bufsize = 2 \<or> bufsize = 7) then Inr s else execute_command_sequence s
      else if m_ignoreCmd s then Inr s
      else
        let data12 = push_bit 6 (ucast (decode code0)) OR ucast (decode code1) :: u16
        in if drop_bit 7 data12 \<noteq> 0 then Inl Aborted
           else Inr (s\<lparr>m_reg_cmd_buffer := m_reg_cmd_buffer s @ [ucast (data12 AND 0x7f)]\<rparr>))"

section \<open>Fast commands\<close>

definition logicReset :: "('g, 'o) emu_op" where
  "logicReset s =
     (let s = s\<lparr>hpr_clkcnt := HPRPERIOD s div 2, hpr_sent := map (\<lambda>_. False) (hpr_sent s)\<rparr> in
      rbind (on_cfg (\<lambda>c. rfold (\<lambda>r c. setHCCSubRegisterValue c r 0) [''TESTHPR'', ''STOPHPR'', ''MASKHPR''] c) s) (\<lambda>s.
      rbind (on_eachAbc (rfold (\<lambda>r abc. abc_setSubRegisterValue abc r 0) [''TESTHPR'', ''STOPHPR'', ''MASKHPR'']) s) (\<lambda>s.
      Inr (clearFEData s))))"

definition resetABCHitCounts :: "('g, 'o) emu_op" where
  "resetABCHitCounts = on_eachAbc (rfold (\<lambda>iReg abc. abc_setRegisterValue abc iReg 0) [Counter 0..<Counter 64])"

definition resetABCRegisters :: "('g, 'o) emu_op" where
  "resetABCRegisters s = rbind (on_eachAbc (abc_setDefaults (emu_abc_version s)) s) resetABCHitCounts"

definition resetABCSEU :: "('g, 'o) emu_op" where
  "resetABCSEU = on_eachAbc (rfold (\<lambda>iReg abc. abc_setRegisterValue abc iReg 0) [48, 49])"

definition resetSlowCommand :: "('g, 'o) ChipsetEmu \<Rightarrow> ('g, 'o) ChipsetEmu" where
  "resetSlowCommand s = s\<lparr>m_ignoreCmd := True, m_isForABC := False, m_reg_cmd_buffer := []\<rparr>"

definition resetHCCRegisters :: "('g, 'o) emu_op" where
  "resetHCCRegisters s =
     on_cfg (\<lambda>c. rbind (hcc_setDefaults (emu_hcc_version s) (m_hcc c)) (\<lambda>h. Inr (c\<lparr>m_hcc := h\<rparr>))) s"

definition resetHCCSEU :: "('g, 'o) emu_op" where
  "resetHCCSEU = on_cfg (rfold (\<lambda>a c. setHCCRegister c a 0) [0, 1, 2])"

definition resetHCCPLL :: "('g, 'o) emu_op" where
  "resetHCCPLL = on_cfg (rfold (\<lambda>a c. setHCCRegister c a 0) [35, 36, 37])"

definition doFastCommand :: "u8 \<Rightarrow> ('g, 'o) emu_op" where
  "doFastCommand data6 s =
     (let bcsel = drop_bit 4 data6 AND 3; s = s\<lparr>m_bc_sel := bcsel\<rparr>; fastcmd = data6 AND 0xf in
      case fast_cmds ! unat fastcmd of
        LOGIC_RESET \<Rightarrow> logicReset s
      | ABC_REG_RESET \<Rightarrow> resetABCRegisters s
      | ABC_SEU_RESET \<Rightarrow> resetABCSEU s
      | ABC_CAL_PULSE \<Rightarrow> Inr (ackPulseCmd 1 bcsel s)
      | ABC_DIGITAL_PULSE \<Rightarrow> Inr (ackPulseCmd 2 bcsel s)
      | ABC_HIT_COUNT_RESET \<Rightarrow> resetABCHitCounts s
      | ABC_HIT_COUNT_START \<Rightarrow> Inr (s\<lparr>m_startHitCount := True\<rparr>)
      | ABC_HIT_COUNT_STOP \<Rightarrow> Inr (s\<lparr>m_startHitCount := False\<rparr>)
      | ABC_SLOW_COMMAND_RESET \<Rightarrow> Inr (resetSlowCommand s)
      | HCC_REG_RESET \<Rightarrow> resetHCCRegisters s
      | HCC_SEU_RESET \<Rightarrow> resetHCCSEU s
      | HCC_PLL_RESET \<Rightarrow> resetHCCPLL s
      | _ \<Rightarrow> Inr s)"

section \<open>HPR packets\<close>

definition hcc_hpr_word :: "u16 \<Rightarrow> u32" where
  "hcc_hpr_word frame = push_bit 16 (ucast frame) OR push_bit 5 1 OR push_bit 3 1 OR push_bit 1 1 OR 1"

definition abc_hpr_word :: "u16 \<Rightarrow> u32" where
  "abc_hpr_word frame = push_bit 16 (ucast frame) OR push_bit 14 1 OR push_bit 12 1 OR 0xfff"

definition setHCCStarHPR :: "u16 \<Rightarrow> ('g, 'o) emu_op" where
  "setHCCStarHPR frame = on_cfg (\<lambda>c. setHCCRegister c 15 (hcc_hpr_word frame))"

definition setABCStarHPR :: "u16 \<Rightarrow> u32 \<Rightarrow> ('g, 'o) emu_op" where
  "setABCStarHPR frame abcID = on_cfg (\<lambda>c. setABCRegisterByID c 63 (abc_hpr_word frame) abcID)"

text \<open>\<open>hpr_clkcnt % HPRPERIOD\<close>, a division by zero when the period is zero.\<close>

definition hpr_phase :: "('g, 'o) ChipsetEmu \<Rightarrow> u32 result" where
  "hpr_phase s = (if HPRPERIOD s = 0 then Inl Undefined else Inr (hpr_clkcnt s mod HPRPERIOD s))"

definition doHPR_HCC :: "u16 \<Rightarrow> ('g, 'o) emu_op" where
  "doHPR_HCC frame s =
     rbind (setHCCStarHPR frame s) (\<lambda>s.
     rbind (getHCCSubRegisterValue (m_starCfg s) ''TESTHPR'') (\<lambda>t. let testHPR = (t \<noteq> 0) in
     rbind (getHCCSubRegisterValue (m_starCfg s) ''STOPHPR'') (\<lambda>t. let stopHPR = (t \<noteq> 0) in
     rbind (getHCCSubRegisterValue (m_starCfg s) ''MASKHPR'') (\<lambda>t. let maskHPR = (t \<noteq> 0) in
     rbind (hpr_phase s) (\<lambda>phase.
     rbind (vec_read (hpr_sent s) 0) (\<lambda>sent.
     let lcb_lock_changed = testHPR \<and> \<not> maskHPR;
         hpr_periodic = (phase = 0 \<and> \<not> stopHPR);
         hpr_initial = (\<not> sent \<and> stopHPR)
     in rbind (if lcb_lock_changed \<or> hpr_periodic \<or> hpr_initial then
                 rbind (getHCCRegister (m_starCfg s) 15) (\<lambda>v.
                 Inr ((sendPacket (buildHCCRegisterPacket PT_HCCHPR 15 v) s)\<lparr>hpr_sent := (hpr_sent s)[0 := True]\<rparr>))
               else Inr s) (\<lambda>s.
        rbind (if stopHPR \<and> lcb_lock_changed then on_cfg (\<lambda>c. setHCCSubRegisterValue c ''STOPHPR'' 0) s else Inr s) (\<lambda>s.
        if testHPR then on_cfg (\<lambda>c. setHCCSubRegisterValue c ''TESTHPR'' 0) s else Inr s))))))))"

definition doHPR_ABC :: "u16 \<Rightarrow> nat \<Rightarrow> ('g, 'o) emu_op" where
  "doHPR_ABC frame ichip s =
     rbind (sc_getABCchipID (m_starCfg s) (int ichip)) (\<lambda>abcID.
     rbind (setABCStarHPR frame abcID s) (\<lambda>s.
     let input_channel = ichip - 1 in
     rbind (getABCSubRegisterValue (m_starCfg s) input_channel ''TESTHPR'') (\<lambda>t. let testHPR = (t \<noteq> 0) in
     rbind (getABCSubRegisterValue (m_starCfg s) input_channel ''STOPHPR'') (\<lambda>t. let stopHPR = (t \<noteq> 0) in
     rbind (getABCSubRegisterValue (m_starCfg s) input_channel ''MASKHPR'') (\<lambda>t. let maskHPR = (t \<noteq> 0) in
     rbind (hpr_phase s) (\<lambda>phase.
     rbind (vec_read (hpr_sent s) ichip) (\<lambda>sent.
     let lcb_lock_changed = testHPR \<and> \<not> maskHPR;
         hpr_periodic = (phase = 0 \<and> \<not> stopHPR);
         hpr_initial = (\<not> sent \<and> stopHPR)
     in rbind (if lcb_lock_changed \<or> hpr_periodic \<or> hpr_initial then
                 rbind (getABCRegisterByID (m_starCfg s) 63 abcID) (\<lambda>v.
                 Inr ((sendPacket (buildABCRegisterPacket PT_ABCHPR (of_nat input_channel) 63 v
                         (ucast (push_bit 12 (abcID AND 0xf)))) s)\<lparr>hpr_sent := (hpr_sent s)[ichip := True]\<rparr>))
               else Inr s) (\<lambda>s.
        rbind (if stopHPR \<and> lcb_lock_changed
               then on_cfg (\<lambda>c. setABCSubRegisterValue c input_channel ''STOPHPR'' 0) s else Inr s) (\<lambda>s.
        if testHPR then on_cfg (\<lambda>c. setABCSubRegisterValue c input_channel ''TESTHPR'' 0) s else Inr s)))))))))"

definition doHPR :: "u16 \<Rightarrow> ('g, 'o) emu_op" where
  "doHPR frame s =
     rbind (doHPR_HCC frame s) (\<lambda>s.
     rbind (rfold (\<lambda>ichip s.
         rbind (isAbcForInputChannel (m_starCfg s) (ichip - 1)) (\<lambda>present.
         if \<not> present then Inr s else doHPR_ABC frame ichip s)) [1..<numABCs (m_starCfg s) + 1] s) (\<lambda>s.
     Inr (s\<lparr>hpr_clkcnt := hpr_clkcnt s + 4\<rparr>)))"

section \<open>Triggers\<close>

text \<open>The clusters by input channel, an array of eleven lists.\<close>

definition put_clusters :: "nat \<Rightarrow> u16 list \<Rightarrow> u16 list list \<Rightarrow> u16 list list result" where
  "put_clusters input_chan cl clusters =
     (if input_chan < MaxABCsPerHCC then Inr (clusters[input_chan := cl]) else Inl Undefined)"

definition no_clusters :: "u16 list list" where
  "no_clusters = replicate MaxABCsPerHCC []"

definition send_physics :: "PacketTypes \<Rightarrow> u8 \<Rightarrow> u8 \<times> u16 list list \<times> ('g, 'o) ChipsetEmu \<Rightarrow> ('g, 'o) ChipsetEmu" where
  "send_physics ptype l0tag r =
     (case r of (bcid, clusters, s) \<Rightarrow>
      let packet = buildPhysicsPacket clusters ptype l0tag bcid
      in if packet \<noteq> [] then sendPacket packet s else s)"

text \<open>\<open>bcid\<close> is not initialised by the code; it keeps the value given here only when no ABC
  contributes, and then there are no clusters and nothing is built from it.\<close>

definition doL0A_single ::
  "('g, 'o) Analog \<Rightarrow> nat \<Rightarrow> nat \<Rightarrow> u8 \<times> u16 list list \<times> ('g, 'o) ChipsetEmu \<Rightarrow>
   (u8 \<times> u16 list list \<times> ('g, 'o) ChipsetEmu) result" where
  "doL0A_single an ibc ic r =
     (case r of (bcid, clusters, s) \<Rightarrow>
      rbind (readAbc ic (\<lambda>abc. Inr abc) (m_starCfg s)) (\<lambda>abc.
      rbind (getL0BufferAddr (m_bccnt s) abc (of_nat ibc)) (\<lambda>l0addr.
      rbind (getFEData an abc l0addr s) (\<lambda>((bcid, hits), s).
      rbind (countHits (m_startHitCount s) abc hits) (\<lambda>abc.
      let s = s\<lparr>m_starCfg := putAbc (m_starCfg s) ic abc\<rparr> in
      rbind (abc_getSubRegisterValue abc ''LP_ENABLE'') (\<lambda>lp.
      if lp \<noteq> 0 then
        rbind (getClusters abc hits) (\<lambda>abc_clusters.
        rbind (hccChannelForABCchipID (m_starCfg s) (m_abcID abc)) (\<lambda>input_chan.
        rbind (put_clusters input_chan abc_clusters clusters) (\<lambda>clusters. Inr (bcid, clusters, s))))
      else Inr (bcid, clusters, s)))))))"

definition evt_buffer :: "('g, 'o) ChipsetEmu \<Rightarrow> int \<Rightarrow> EvtBufData list" where
  "evt_buffer s abcId =
     (case m_evtbuffers_lite s abcId of None \<Rightarrow> replicate EvtBufDepth 0 | Some b \<Rightarrow> b)"

definition doL0A_multi ::
  "('g, 'o) Analog \<Rightarrow> nat \<Rightarrow> u8 \<Rightarrow> nat \<Rightarrow> ('g, 'o) emu_op" where
  "doL0A_multi an ibc l0a_tag ic s =
     rbind (readAbc ic (\<lambda>abc. Inr abc) (m_starCfg s)) (\<lambda>abc.
     rbind (getL0BufferAddr (m_bccnt s) abc (of_nat ibc)) (\<lambda>l0addr.
     let abcId = sint (m_abcID abc);
         evaddr = (unat l0a_tag + ibc) mod EvtBufDepth;
         bcidl0 = of_nat (unat (m_bccnt s) + ibc) AND 0xff :: EvtBufData;
         s = s\<lparr>m_evtbuffers_lite :=
           (m_evtbuffers_lite s)(abcId \<mapsto> (evt_buffer s abcId)[evaddr := push_bit 8 (of_nat l0addr) OR bcidl0])\<rparr>
     in rbind (getFEData an abc l0addr s) (\<lambda>((bcid, hits), s).
        rbind (countHits (m_startHitCount s) abc hits) (\<lambda>abc.
        Inr (s\<lparr>m_starCfg := putAbc (m_starCfg s) ic abc\<rparr>)))))"

definition doL0A :: "('g, 'o) Analog \<Rightarrow> bool \<Rightarrow> u8 \<Rightarrow> u8 \<Rightarrow> ('g, 'o) emu_op" where
  "doL0A an bcr l0a_msk l0a_tag s =
     rbind (getHCCSubRegisterValue (m_starCfg s) ''TRIGMODE'') (\<lambda>trig_mode.
     rfold (\<lambda>ibc s.
       if \<not> bit l0a_msk (3 - ibc) then Inr s
       else if trig_mode \<noteq> 0 then
         rbind (eachAbc (doL0A_single an ibc) (m_starCfg s) (0, no_clusters, s)) (\<lambda>r.
         Inr (send_physics PT_LP (l0a_tag + of_nat ibc) r))
       else eachAbc (doL0A_multi an ibc l0a_tag) (m_starCfg s) s) [0..<4] s)"

definition doPRLP_abc ::
  "('g, 'o) Analog \<Rightarrow> u8 \<Rightarrow> bool \<Rightarrow> nat \<Rightarrow> u8 \<times> u16 list list \<times> ('g, 'o) ChipsetEmu \<Rightarrow>
   (u8 \<times> u16 list list \<times> ('g, 'o) ChipsetEmu) result" where
  "doPRLP_abc an l0tag isPR ic r =
     (case r of (bcid, clusters, s) \<Rightarrow>
      rbind (readAbc ic (\<lambda>abc. Inr abc) (m_starCfg s)) (\<lambda>abc.
      rbind (abc_getSubRegisterValue abc (if isPR then ''PR_ENABLE'' else ''LP_ENABLE'')) (\<lambda>en.
      if en = 0 then Inr (bcid, clusters, s)
      else
        let abcId = sint (m_abcID abc);
            s = s\<lparr>m_evtbuffers_lite := (m_evtbuffers_lite s)(abcId \<mapsto> evt_buffer s abcId)\<rparr> in
        rbind (vec_read (evt_buffer s abcId) (unat l0tag)) (\<lambda>evtdata.
        let l0addr = unat (drop_bit 8 evtdata) in
        rbind (getFEData an abc l0addr s) (\<lambda>((bcid, hits), s).
        rbind (getClusters abc hits) (\<lambda>abc_clusters.
        rbind (hccChannelForABCchipID (m_starCfg s) (m_abcID abc)) (\<lambda>input_chan.
        rbind (put_clusters input_chan abc_clusters clusters) (\<lambda>clusters. Inr (bcid, clusters, s)))))))))"

definition skip_R3 :: "u8 \<Rightarrow> u32 \<Rightarrow> bool" where
  "skip_R3 msk hccID =
     (let module = unat (hccID div 2) in \<not> (1 \<le> module \<and> module \<le> 5 \<and> bit msk (module - 1)))"

definition doPRLP :: "('g, 'o) Analog \<Rightarrow> u8 \<Rightarrow> u8 \<Rightarrow> ('g, 'o) emu_op" where
  "doPRLP an msk l0tag s =
     rbind (getHCCSubRegisterValue (m_starCfg s) ''TRIGMODE'') (\<lambda>trig_mode.
     if trig_mode \<noteq> 0 then Inr s
     else if msk \<noteq> 0 \<and> skip_R3 msk (sc_getHCCchipID (m_starCfg s)) then Inr s
     else
       let isPR = (msk \<noteq> 0)
       in rbind (eachAbc (doPRLP_abc an l0tag isPR) (m_starCfg s) (0, no_clusters, s)) (\<lambda>r.
          Inr (send_physics (if isPR then PT_PR else PT_LP) l0tag r)))"

definition countTriggers :: "u16 \<Rightarrow> nat" where
  "countTriggers frame =
     (let code0 = ucast (drop_bit 8 frame AND 0xff) :: u8; code1 = ucast (frame AND 0xff) :: u8 in
      if code0 \<in> {K0, K1, K2, K3} \<or> code1 \<in> {K0, K1, K2, K3} then 0
      else
        let v = push_bit 6 (ucast (decode code0)) OR ucast (decode code1) :: u16
        in if drop_bit 7 v AND 0x1f = 0 then 0
           else sum_list (map (\<lambda>i. unat (drop_bit (7 + i) v AND 1)) [0..<4]))"

end
