(* ===== verification/Star_Emu.thy ===== *)
theory Star_Emu
  imports Star_Chipset
begin

text \<open>
  The emulator of one LCB channel (src/src/libStarEmu/include/StarEmu.h,
  src/src/libStarEmu/StarEmu.cpp): the decoding of LCB and R3L1 frames for all chipsets of the
  channel, the BC counter, and the loop that takes words from the command buffers
  (src/src/libUtil/include/RingBuffer.h). The thread sleeps while a buffer is empty; the model
  returns there.
\<close>

section \<open>Command buffer\<close>

record RingBuffer =
  rb_buffer :: "u32 list"
  rb_size :: u32

definition new_RingBuffer :: RingBuffer where
  "new_RingBuffer = \<lparr>rb_buffer = [], rb_size = 0\<rparr>"

definition write32 :: "u32 \<Rightarrow> RingBuffer \<Rightarrow> RingBuffer" where
  "write32 word rb = \<lparr>rb_buffer = rb_buffer rb @ [word], rb_size = rb_size rb + 1\<rparr>"

definition write32_all :: "u32 list \<Rightarrow> RingBuffer \<Rightarrow> RingBuffer" where
  "write32_all v rb = \<lparr>rb_buffer = rb_buffer rb @ v, rb_size = rb_size rb + of_nat (length v)\<rparr>"

definition isEmpty :: "RingBuffer \<Rightarrow> bool" where
  "isEmpty rb \<longleftrightarrow> rb_size rb = 0"

definition getCurSize :: "RingBuffer \<Rightarrow> u32" where
  "getCurSize rb = rb_size rb * 4"

text \<open>A read that has to wait is \<open>None\<close>; taking from an empty queue is undefined.\<close>

definition take_front :: "nat \<Rightarrow> RingBuffer \<Rightarrow> (u32 list \<times> RingBuffer) result" where
  "take_front n rb =
     (if n \<le> length (rb_buffer rb)
      then Inr (take n (rb_buffer rb), \<lparr>rb_buffer = drop n (rb_buffer rb), rb_size = rb_size rb - of_nat n\<rparr>)
      else Inl Undefined)"

definition read32 :: "RingBuffer \<Rightarrow> (u32 \<times> RingBuffer) option result" where
  "read32 rb =
     (if rb_size rb > 0 then rbind (take_front 1 rb) (\<lambda>(ws, rb). Inr (Some (hd ws, rb))) else Inr None)"

definition readAll :: "RingBuffer \<Rightarrow> (u32 list \<times> RingBuffer) result" where
  "readAll rb = (if isEmpty rb then Inr ([], rb) else take_front (unat (rb_size rb)) rb)"

definition readBlock32 :: "u32 \<Rightarrow> RingBuffer \<Rightarrow> (u32 list \<times> RingBuffer) option result" where
  "readBlock32 len rb =
     (if rb_size rb \<ge> len then rbind (take_front (unat len) rb) (\<lambda>r. Inr (Some r)) else Inr None)"

definition rb_ok :: "RingBuffer \<Rightarrow> bool" where
  "rb_ok rb \<longleftrightarrow> unat (rb_size rb) = length (rb_buffer rb)"

section \<open>State\<close>

record ('g, 'o) StarEmu =
  m_txRingBuffer :: RingBuffer
  m_txRingBuffer2 :: "RingBuffer option"
  emu_bccnt :: u16
  m_resetbc :: bool
  chipEmus :: "('g, 'o) ChipsetEmu list"

fun rmap :: "('a \<Rightarrow> 'b result) \<Rightarrow> 'a list \<Rightarrow> 'b list result" where
  "rmap f [] = Inr []"
| "rmap f (x # xs) = rbind (f x) (\<lambda>y. rbind (rmap f xs) (\<lambda>ys. Inr (y # ys)))"

text \<open>The constructor. A chip without a configuration file gets an HCC with one ABC; the configuration
  read from a file is the argument, as is the state of its random source.\<close>

definition default_chip_cfg :: "nat \<Rightarrow> int \<Rightarrow> int \<Rightarrow> StarCfg result" where
  "default_chip_cfg i abc_version hcc_version =
     rbind (new_StarCfg abc_version hcc_version) (\<lambda>c. addABCchipID (sc_setHCCChipId c (of_nat i)) 15)"

definition new_chip ::
  "'o StripGenerator option \<Rightarrow> u32 \<Rightarrow> int \<Rightarrow> int \<Rightarrow> nat \<times> StarCfg option \<times> 'g \<Rightarrow> ('g, 'o) ChipsetEmu result" where
  "new_chip gen hpr_period abc_version hcc_version p =
     (case p of (i, regCfg, g) \<Rightarrow>
      rbind (case regCfg of None \<Rightarrow> default_chip_cfg i abc_version hcc_version | Some c \<Rightarrow> Inr c) (\<lambda>c.
      new_ChipsetEmu c gen g hpr_period abc_version hcc_version))"

definition new_StarEmu ::
  "RingBuffer \<Rightarrow> RingBuffer option \<Rightarrow> StarCfg option list \<Rightarrow> 'o StripGenerator option \<Rightarrow> 'g list \<Rightarrow>
   u32 \<Rightarrow> int \<Rightarrow> int \<Rightarrow> ('g, 'o) StarEmu result" where
  "new_StarEmu tx tx2 regCfgs gen gs hpr_period abc_version hcc_version =
     rbind (rmap (new_chip gen hpr_period abc_version hcc_version) (enumerate 0 (zip regCfgs gs))) (\<lambda>cs.
     Inr \<lparr>m_txRingBuffer = tx, m_txRingBuffer2 = tx2, emu_bccnt = 0, m_resetbc = False, chipEmus = cs\<rparr>)"

definition each_chip :: "('g, 'o) emu_op \<Rightarrow> ('g, 'o) StarEmu \<Rightarrow> ('g, 'o) StarEmu result" where
  "each_chip f e = rbind (rmap f (chipEmus e)) (\<lambda>cs. Inr (e\<lparr>chipEmus := cs\<rparr>))"

section \<open>Decoding\<close>

definition updateBC :: "('g, 'o) StarEmu \<Rightarrow> ('g, 'o) StarEmu" where
  "updateBC e =
     (let e = (if m_resetbc e then e\<lparr>emu_bccnt := 0, m_resetbc := False\<rparr>
               else e\<lparr>emu_bccnt := emu_bccnt e + 4\<rparr>)
      in e\<lparr>chipEmus := map (setBC (emu_bccnt e)) (chipEmus e)\<rparr>)"

definition decodeLCB :: "('g, 'o) Analog \<Rightarrow> u16 \<Rightarrow> ('g, 'o) StarEmu \<Rightarrow> ('g, 'o) StarEmu result" where
  "decodeLCB an frame e =
     rbind (each_chip (doHPR frame) e) (\<lambda>e.
     if \<not> is_valid_frame frame then Inr e
     else
       let e = e\<lparr>chipEmus := map fillL0Buffer (chipEmus e)\<rparr>;
           code0 = ucast (drop_bit 8 frame AND 0xff) :: u8; code1 = ucast (frame AND 0xff) :: u8
       in rbind
         (if \<not> (is_kcode code0 \<or> is_kcode code1) then
            let data12 = push_bit 6 (ucast (decode code0)) OR ucast (decode code1) :: u16
            in if drop_bit 7 data12 AND 0x1f \<noteq> 0 then
                 let bcr = bit data12 11;
                     l0a_msk = ucast (drop_bit 7 data12 AND 0xf) :: u8;
                     l0a_tag = ucast (data12 AND 0x7f) :: u8
                 in rbind (each_chip (doL0A an bcr l0a_msk l0a_tag) e) (\<lambda>e.
                    Inr (if bcr then e\<lparr>m_resetbc := True\<rparr> else e))
               else each_chip (doRegReadWrite frame) e
          else if code0 = K3 then each_chip (doFastCommand (decode code1)) e
          else if code0 = K2 then each_chip (doRegReadWrite frame) e
          else Inr e)
         (\<lambda>e. Inr (updateBC e)))"

definition decodeR3L1 :: "('g, 'o) Analog \<Rightarrow> u16 \<Rightarrow> ('g, 'o) StarEmu \<Rightarrow> ('g, 'o) StarEmu result" where
  "decodeR3L1 an frame e =
     (if frame = IDLE then Inr e
      else
        let code0 = ucast (drop_bit 8 frame AND 0xff) :: u8; code1 = ucast (frame AND 0xff) :: u8
        in if \<not> (is_valid code0 \<and> is_valid code1) then Inr e
           else
             let data12 = push_bit 6 (ucast (decode code0)) OR ucast (decode code1) :: u16;
                 msk = ucast (drop_bit 7 data12 AND 0x1f) :: u8;
                 l0tag = ucast (data12 AND 0x7f) :: u8
             in each_chip (doPRLP an msk l0tag) e)"

section \<open>The loop\<close>

definition upper_half :: "u32 \<Rightarrow> u16" where "upper_half d = ucast (drop_bit 16 d AND 0xffff)"
definition lower_half :: "u32 \<Rightarrow> u16" where "lower_half d = ucast (d AND 0xffff)"

text \<open>One turn with the words of both channels.\<close>

definition decode_words ::
  "('g, 'o) Analog \<Rightarrow> u32 option \<Rightarrow> u32 \<Rightarrow> ('g, 'o) StarEmu \<Rightarrow> ('g, 'o) StarEmu result" where
  "decode_words an d_r3l1 d_lcb e =
     (let r3l1 = (\<lambda>half e. case d_r3l1 of None \<Rightarrow> Inr e | Some d \<Rightarrow> decodeR3L1 an (half d) e) in
      rbind (r3l1 upper_half e) (\<lambda>e.
      rbind (decodeLCB an (upper_half d_lcb) e) (\<lambda>e.
      rbind (r3l1 lower_half e) (\<lambda>e.
      decodeLCB an (lower_half d_lcb) e))))"

definition must_wait :: "('g, 'o) StarEmu \<Rightarrow> bool" where
  "must_wait e =
     (case m_txRingBuffer2 e of
        Some rb2 \<Rightarrow> isEmpty (m_txRingBuffer e) \<or> isEmpty rb2
      | None \<Rightarrow> isEmpty (m_txRingBuffer e))"

text \<open>Reading the words of one turn: the R3L1 channel first.\<close>

definition read_words :: "('g, 'o) StarEmu \<Rightarrow> (u32 option \<times> u32 \<times> ('g, 'o) StarEmu) option result" where
  "read_words e =
     rbind (case m_txRingBuffer2 e of
              None \<Rightarrow> Inr (Some (None, e))
            | Some rb2 \<Rightarrow> rbind (read32 rb2) (\<lambda>r. Inr (map_option (\<lambda>(w, rb2). (Some w, e\<lparr>m_txRingBuffer2 := Some rb2\<rparr>)) r)))
       (\<lambda>r2. case r2 of None \<Rightarrow> Inr None
             | Some (d_r3l1, e) \<Rightarrow>
                 rbind (read32 (m_txRingBuffer e)) (\<lambda>r.
                 Inr (map_option (\<lambda>(w, rb). (d_r3l1, w, e\<lparr>m_txRingBuffer := rb\<rparr>)) r)))"

fun executeLoop :: "nat \<Rightarrow> ('g, 'o) Analog \<Rightarrow> ('g, 'o) StarEmu \<Rightarrow> ('g, 'o) StarEmu result" where
  "executeLoop 0 an e = Inr e"
| "executeLoop (Suc turns) an e =
     (if must_wait e then Inr e
      else rbind (read_words e) (\<lambda>r. case r of
             None \<Rightarrow> Inr e
           | Some (d_r3l1, d_lcb, e) \<Rightarrow> rbind (decode_words an d_r3l1 d_lcb e) (executeLoop turns an)))"

end
