(* ===== verification/Star_Emu_Wf.thy ===== *)
theory Star_Emu_Wf
  imports Star_Emu
begin

text \<open>
  Well-formed emulators: what the constructor establishes and every operation keeps. The
  consequence is which commands can stop the emulator with a fault, an uncaught exception or an
  undefined step, and which cannot.
\<close>

abbreviation rok :: "('a \<Rightarrow> bool) \<Rightarrow> 'a result \<Rightarrow> bool" where
  "rok \<equiv> rsat (\<lambda>_. False)"

lemma rok_iff: "rok P r \<longleftrightarrow> (\<exists>x. r = Inr x \<and> P x)"
  by (cases r) simp_all

section \<open>One ABC\<close>

definition abc_inv :: "int \<Rightarrow> AbcCfg \<Rightarrow> bool" where
  "abc_inv a abc \<longleftrightarrow> abc_ok abc \<and> abc_addrs abc = Collect (abc_has_reg a) \<and>
     abcSubRegisterMap_all (abc_info abc) = abc_fields a"

definition abc_kept :: "int \<Rightarrow> AbcCfg \<Rightarrow> AbcCfg \<Rightarrow> bool" where
  "abc_kept a abc t \<longleftrightarrow> abc_inv a t \<and> m_abcID t = m_abcID abc"

lemma abc_kept_refl: "abc_inv a abc \<Longrightarrow> abc_kept a abc abc"
  by (simp add: abc_kept_def)

lemma abc_kept_trans: "abc_kept a x y \<Longrightarrow> abc_kept a y z \<Longrightarrow> abc_kept a x z"
  by (simp add: abc_kept_def)

lemma abc_set_kept:
  assumes "abc_inv a abc" and "abc_has_reg a r"
  shows "rok (abc_kept a abc) (abc_setRegisterValue abc r v)"
proof -
  have ok: "abc_ok abc" and r: "r \<in> abc_addrs abc" using assms by (simp_all add: abc_inv_def)
  from abc_field.put_in [OF ok r, of v] obtain t where
    t: "abc_setRegisterValue abc r v = Inr t" "abc_ok t" "abc_addrs t = abc_addrs abc" by blast
  then show ?thesis using assms(1) abc_set_info [OF t(1)] abc_set_ID [OF t(1)]
    by (simp add: abc_kept_def abc_inv_def)
qed

lemma abc_sets_kept:
  assumes "abc_inv a abc" and "\<And>x. x \<in> set xs \<Longrightarrow> abc_has_reg a (f x)"
  shows "rok (abc_kept a abc) (rfold (\<lambda>x abc. abc_setRegisterValue abc (f x) (g x)) xs abc)"
proof (rule rsat_fold)
  fix x s assume "x \<in> set xs" "abc_kept a abc s"
  then show "rok (abc_kept a abc) (abc_setRegisterValue s (f x) (g x))"
    using abc_set_kept [of a s "f x" "g x"] assms(2) [of x]
    by (auto simp: abc_kept_def elim!: rsat_weaken)
qed (rule abc_kept_refl [OF assms(1)])

lemma abc_setSub_kept:
  assumes "abc_inv a abc" and "abcSubRegisterMap_all (abc_info abc) r = Some i"
  shows "rok (abc_kept a abc) (abc_setSubRegisterValue abc r 0)"
proof -
  have ok: "abc_ok abc" using assms(1) by (simp add: abc_inv_def)
  from abc_field.set_field_ok [OF ok assms(2), of 0] obtain v y t where
    t: "abc_getRegisterValue abc (m_regAddress i) = Inr v" "sub_updateValue i 0 v = Inr y"
      "abc_setRegisterValue abc (m_regAddress i) y = Inr t" by auto
  have "abc_has_reg a (m_regAddress i)"
    using abc_field.field_in [OF ok assms(2)] assms(1) by (simp add: abc_inv_def)
  from abc_set_kept [OF assms(1) this, of y] t show ?thesis
    by (simp add: abc_setSub_store assms(2))
qed

lemma abc_defaults_kept:
  assumes "abc_inv a abc" and "a \<in> {0, 1}"
  shows "rok (abc_kept a abc) (abc_setDefaults a abc)"
proof -
  have "abc_has_reg a (fst av)" if "av \<in> set (abc_default_values a)" for av
  proof -
    have "list_all (\<lambda>a. list_all (\<lambda>av. abc_has_reg a (fst av)) (abc_default_values a)) [0, 1]" by code_simp
    with assms(2) that show ?thesis by (auto simp: list_all_iff)
  qed
  from abc_sets_kept [OF assms(1) this, where g = snd and xs = "abc_default_values a"]
  show ?thesis by (simp add: abc_setDefaults_def case_prod_beta')
qed

lemma abc_inv_common:
  assumes "abc_inv a abc" and "r \<in> {''CALPULSE_ENABLE'', ''BCAL'', ''BVT'', ''BTRANGE'', ''ENCOUNT'', ''LATENCY'', ''TM'',
    ''TEST_PULSE_ENABLE'', ''TESTPATT_ENABLE'', ''TESTPATT1'', ''TESTPATT2'', ''MAX_CLUSTER_ENABLE'', ''MAX_CLUSTER'',
    ''LP_ENABLE'', ''PR_ENABLE'', ''TESTHPR'', ''STOPHPR'', ''MASKHPR''}"
  shows "rok (\<lambda>_. True) (abc_getSubRegisterValue abc r)"
proof -
  have "abc_ok abc" using assms(1) by (simp add: abc_inv_def)
  then obtain v where "abc_getSubRegisterValue abc r = Inr v" by (rule common_get [OF _ assms(2)])
  then show ?thesis by simp
qed

lemma abc_hpr_kept:
  assumes "abc_inv a abc" and "r \<in> {''TESTHPR'', ''STOPHPR'', ''MASKHPR''}"
  shows "rok (abc_kept a abc) (abc_setSubRegisterValue abc r 0)"
proof -
  have "abc_ok abc" using assms(1) by (simp add: abc_inv_def)
  then obtain i where "abcSubRegisterMap_all (abc_info abc) r = Some i"
    by (rule common_fields [of _ r]) (use assms(2) in blast)
  from abc_setSub_kept [OF assms(1) this] show ?thesis .
qed

section \<open>Front-end data of one ABC\<close>

definition generator_ok :: "int \<Rightarrow> 'o StripGenerator option \<Rightarrow> bool" where
  "generator_ok a gen \<longleftrightarrow> (case gen of
     None \<Rightarrow> False | Some (SimpleOccupancyGenerator r occ) \<Rightarrow> abc_fields a r \<noteq> None | Some _ \<Rightarrow> True)"

lemma getTrim_ok:
  assumes "abc_ok abc"
  shows "rok (\<lambda>_. True) (getTrimDACRaw abc i)"
proof (cases "i < 256")
  case True
  then have k: "i div 8 < 32" "i div 32 < 8" by simp_all
  from abc_field.get_in [OF assms abc_ok_addrs(2) [OF assms k(1)]] abc_field.get_in [OF assms abc_ok_addrs(3) [OF assms k(2)]]
  obtain lo hi where "abc_getRegisterValue abc (TrimLo (i div 8)) = Inr lo" "abc_getRegisterValue abc (TrimHi (i div 32)) = Inr hi"
    by blast
  from getTrim_values [OF True this] show ?thesis by simp
qed (simp add: getTrimDACRaw_def StripsPerABC_def)

lemma draw_strips_ok:
  assumes "\<And>i g. rok (\<lambda>_. True) (f i g)"
  shows "rok (\<lambda>_. True) (draw_strips f g)"
  unfolding draw_strips_def
  by (rule rsat_fold) (auto intro!: rsat_bind_any assms split: prod.split)

lemma fill_hits_ok:
  assumes "abc_inv a abc" and "generator_ok a gen"
  shows "rok (\<lambda>_. True) (fill_hits an gen abc cal_pulse g)"
proof -
  have ok: "abc_ok abc" using assms(1) by (simp add: abc_inv_def)
  note common = abc_inv_common [OF assms(1)]
  from assms(2) obtain k where k: "gen = Some k" by (auto simp: generator_ok_def split: option.splits)
  show ?thesis
  proof (cases k)
    case AnalogueModelGenerator
    obtain e where e: "getCalEnables abc = Inr e" by (rule getCalEnables_ok [OF ok]) (rule that)
    have "rok (\<lambda>_. True) (fill_hits_analogue an abc cal_pulse g)"
      unfolding fill_hits_analogue_def e rbind_Inr
      by (intro rsat_bind_any rsat_if common rsat_fold [where I = "\<lambda>_. True"])
        (auto intro!: rsat_bind_any getTrim_ok [OF ok] simp: Let_def split: prod.split)
    then show ?thesis by (simp add: fill_hits_def k AnalogueModelGenerator)
  next
    case (SimpleOccupancyGenerator r occ)
    from assms obtain i where "abcSubRegisterMap_all (abc_info abc) r = Some i"
      by (auto simp: generator_ok_def k SimpleOccupancyGenerator abc_inv_def)
    then obtain v where "abc_getSubRegisterValue abc r = Inr v" by (rule abc_getSub_ok [OF ok])
    then show ?thesis by (simp add: fill_hits_def k SimpleOccupancyGenerator fill_hits_occupancy_def Let_def)
  next
    case (SimpleTrimGenerator occ)
    have "rok (\<lambda>_. True) (fill_hits_trim an occ abc g)"
      unfolding fill_hits_trim_draws [OF ok]
      by (rule draw_strips_ok) (auto intro!: rsat_bind_any getTrim_ok [OF ok])
    then show ?thesis by (simp add: fill_hits_def k SimpleTrimGenerator)
  qed
qed

lemma getMasks_ok: "abc_inv a abc \<Longrightarrow> rok (\<lambda>_. True) (getMasks abc)"
  by (rule getMasks_bits [of abc]) (simp_all add: abc_inv_def)

lemma l0_read_ok: "length (m_l0buffer_lite s) = L0BufDepth \<Longrightarrow> a < L0BufDepth \<Longrightarrow> rok (\<lambda>_. True) (l0_read s a)"
  by (simp add: l0_read_def)

lemma test_pattern_ok:
  assumes "abc_inv a abc" and "length (m_l0buffer_lite s) = L0BufDepth"
  shows "rok (\<lambda>_. True) (test_pattern s abc l0addr masks is)"
proof (induction "is")
  case (Cons i "is")
  have "unat (x mod of_nat L0BufDepth :: u32) < L0BufDepth" for x
    by (simp add: L0BufDepth_def unat_mod)
  with assms Cons show ?case
    by (auto intro!: rsat_bind_any rsat_if l0_read_ok abc_inv_common simp: Let_def)
qed simp

lemma getFEData_ok:
  assumes "abc_inv a abc" and "generator_ok a (m_generator s)" and "length (m_l0buffer_lite s) = L0BufDepth"
    and "l0addr < L0BufDepth"
  shows "rok (\<lambda>r. \<exists>g. snd r = s\<lparr>m_random := g\<rparr>) (getFEData an abc l0addr s)"
proof -
  have s: "\<exists>g. s = s\<lparr>m_random := g\<rparr>" by (rule exI [of _ "m_random s"]) simp
  note common = abc_inv_common [OF assms(1)]
  have "rok (\<lambda>r. \<exists>g. snd r = s\<lparr>m_random := g\<rparr>) (generateFEData_CaliPulse an abc l0addr s)"
    unfolding generateFEData_CaliPulse_def Let_def
    by (intro rsat_bind_any [OF l0_read_ok [OF assms(3,4)]] rsat_bind_any [OF fill_hits_ok [OF assms(1,2)]])
      (auto intro!: rsat_bind_any getMasks_ok [OF assms(1)] split: prod.split)
  moreover have "rok (\<lambda>_. True) (generateFEData_StaticTest abc l0addr)"
    unfolding generateFEData_StaticTest_def by (intro rsat_bind_any getMasks_ok [OF assms(1)]) simp
  moreover have "rok (\<lambda>_. True) (generateFEData_TestPulse s abc l0addr)"
    unfolding generateFEData_TestPulse_def
    by (intro rsat_bind_any rsat_if common getMasks_ok [OF assms(1)] test_pattern_ok [OF assms(1,3)] l0_read_ok [OF assms(3,4)]) simp_all
  ultimately have parts: "rok (\<lambda>r. \<exists>g. snd r = s\<lparr>m_random := g\<rparr>) (generateFEData_CaliPulse an abc l0addr s)"
    "rok (\<lambda>r. \<exists>g. snd r = s\<lparr>m_random := g\<rparr>) (rbind (generateFEData_StaticTest abc l0addr) (\<lambda>r. Inr (r, s)))"
    "rok (\<lambda>r. \<exists>g. snd r = s\<lparr>m_random := g\<rparr>) (rbind (generateFEData_TestPulse s abc l0addr) (\<lambda>r. Inr (r, s)))"
    using s by (auto intro!: rsat_bind_any)
  show ?thesis
    unfolding getFEData_def Let_def by (rule rsat_bind_any [OF common]) (simp_all add: parts)
qed

lemma getClusters_ok: "abc_inv a abc \<Longrightarrow> rok (\<lambda>_. True) (getClusters abc hits)"
  unfolding getClusters_def by (intro rsat_bind_any rsat_if abc_inv_common) simp_all

lemma countHits_ok:
  assumes "abc_inv a abc"
  shows "rok (abc_kept a abc) (countHits start abc hits)"
proof -
  have ok: "abc_ok abc" using assms by (simp add: abc_inv_def)
  obtain en where en: "abc_getSubRegisterValue abc ''ENCOUNT'' = Inr en"
    by (rule common_get [OF ok, of "''ENCOUNT''"]) simp_all
  show ?thesis
  proof (cases "start \<and> en \<noteq> 0")
    case True
    have "rok (abc_kept a abc) (rfold (\<lambda>ireg abc. rbind (abc_getRegisterValue abc (Counter ireg)) (\<lambda>counts.
          abc_setRegisterValue abc (Counter ireg) (counts + count_incr counts hits ireg))) [0..<64] abc)"
    proof (rule rsat_fold)
      fix x s assume "x \<in> set [0..<64 :: nat]" and s: "abc_kept a abc s"
      then have "x < 64" by simp
      from counter_addrs [OF _ this, of s] s have c: "Counter x \<in> abc_addrs s" "abc_inv a s" "abc_ok s"
        by (simp_all add: abc_kept_def abc_inv_def)
      from abc_field.get_in [OF c(3,1)] obtain v where "abc_getRegisterValue s (Counter x) = Inr v" by blast
      moreover have "abc_has_reg a (Counter x)" using c(1,2) by (simp add: abc_inv_def)
      from abc_set_kept [OF c(2) this] have "rok (abc_kept a abc) (abc_setRegisterValue s (Counter x) w)" for w
        by (rule rsat_weaken) (auto intro: abc_kept_trans [OF s])
      ultimately show "rok (abc_kept a abc) (rbind (abc_getRegisterValue s (Counter x)) (\<lambda>counts.
          abc_setRegisterValue s (Counter x) (counts + count_incr counts hits x)))" by simp
    qed (rule abc_kept_refl [OF assms])
    then show ?thesis using True en by (simp add: countHits_def)
  qed (use en abc_kept_refl [OF assms] in \<open>auto simp: countHits_def\<close>)
qed

lemma getL0BufferAddr_ok:
  assumes "abc_inv a abc"
  shows "rok (\<lambda>x. x < L0BufDepth) (getL0BufferAddr b abc k)"
proof -
  have ok: "abc_ok abc" using assms by (simp add: abc_inv_def)
  obtain lat where lat: "abc_getSubRegisterValue abc ''LATENCY'' = Inr lat"
    by (rule common_get [OF ok, of "''LATENCY''"]) simp_all
  have "nat (x mod 512) < 512" for x :: int by (simp add: nat_less_iff)
  with getL0BufferAddr_value [OF ok lat] show ?thesis by (simp add: L0BufDepth_def)
qed


section \<open>The configuration\<close>

definition cfg_inv :: "int \<Rightarrow> int \<Rightarrow> nat list \<Rightarrow> StarCfg \<Rightarrow> bool" where
  "cfg_inv a h K c \<longleftrightarrow> cfg_ok c \<and> a \<in> {0, 1} \<and> h \<in> {0, 1} \<and> map fst (m_ABCchips c) = K \<and>
     (\<forall>ic abc. abc_at c ic = Some abc \<longrightarrow> abc_inv a abc) \<and>
     hcc_addrs (m_hcc c) = Collect (hcc_has_reg h) \<and> hccSubRegisterMap_all (hcc_info (m_hcc c)) = hcc_fields h"

lemma cfg_inv_at:
  assumes "cfg_inv a h K c" and "ic \<in> set K"
  obtains abc where "abc_at c ic = Some abc" "abc_inv a abc" "ic < MaxABCsPerHCC"
proof -
  have "abc_at c ic \<noteq> None" using assms by (auto simp: cfg_inv_def map_of_eq_None_iff)
  then obtain abc where abc: "abc_at c ic = Some abc" by blast
  then have "abc_inv a abc" "ic < MaxABCsPerHCC" using assms cfg_ok_abc(1) by (auto simp: cfg_inv_def)
  with abc show thesis by (rule that)
qed

lemma cfg_inv_key: "cfg_inv a h K c \<Longrightarrow> abc_at c ic = Some abc \<Longrightarrow> ic \<in> set K"
proof -
  assume c: "cfg_inv a h K c" and "abc_at c ic = Some abc"
  then have "abc_at c ic \<noteq> None" by simp
  then have "ic \<in> fst ` set (m_ABCchips c)" unfolding map_of_eq_None_iff by simp
  moreover have "K = map fst (m_ABCchips c)" using c by (simp add: cfg_inv_def)
  ultimately show ?thesis by simp
qed

lemma cfg_inv_putAbc:
  assumes "cfg_inv a h K c" and "abc_at c ic = Some abc" and "abc_kept a abc abc'"
  shows "cfg_inv a h K (putAbc c ic abc')"
proof -
  have ok: "cfg_ok c" "abc_ok abc'" using assms(1,3) by (simp_all add: cfg_inv_def abc_kept_def abc_inv_def)
  have "cfg_ok (putAbc c ic abc')" by (rule putAbc_ok [OF ok(1) cfg_ok_abc(1) [OF ok(1) assms(2)] ok(2)])
  moreover have "map fst (m_ABCchips (putAbc c ic abc')) = K"
    using putAbc_keys [OF ok(1) assms(2)] assms(1) by (simp add: cfg_inv_def)
  ultimately show ?thesis using assms by (auto simp: cfg_inv_def abc_kept_def)
qed

lemma cfg_set_hcc:
  assumes "cfg_inv a h K c" and "hcc_has_reg h r"
  shows "rok (cfg_inv a h K) (setHCCRegister c r v)"
proof -
  have ok: "cfg_ok c" and r: "r \<in> hcc_addrs (m_hcc c)" using assms by (simp_all add: cfg_inv_def)
  from cfg_hcc.put_in [OF ok r, of v] obtain t where
    t: "setHCCRegister c r v = Inr t" "cfg_ok t" "hcc_addrs (m_hcc t) = hcc_addrs (m_hcc c)" by blast
  have "hccSubRegisterMap_all (hcc_info (m_hcc t)) = hccSubRegisterMap_all (hcc_info (m_hcc c))"
    using t(1) by (auto simp: setHCCRegister_def rbind_eq_Inr_iff hcc_set_info)
  with t setHCC_frame [OF t(1)] assms(1) show ?thesis by (simp add: cfg_inv_def)
qed

lemma hcc_common:
  assumes "h \<in> {0, 1}" and "r \<in> {''TESTHPR'', ''STOPHPR'', ''MASKHPR'', ''TRIGMODE''}"
  obtains i where "hcc_fields h r = Some i" "0 < m_width i"
proof -
  have "list_all (\<lambda>v. list_all (\<lambda>r. list_ex (\<lambda>d. fst d = r \<and> 0 < snd (snd (snd d))) (hccSubRegDefs v))
      [''TESTHPR'', ''STOPHPR'', ''MASKHPR'', ''TRIGMODE'']) [0, 1]" by code_simp
  with assms have "\<exists>d \<in> set (hccSubRegDefs h). fst d = r \<and> 0 < snd (snd (snd d))"
    unfolding list_all_iff list_ex_iff by (simp add: list.set) blast
  then obtain d where d: "d \<in> set (hccSubRegDefs h)" "fst d = r" "0 < snd (snd (snd d))" by blast
  have nv: "hcc_norm h = h" using assms(1) by auto
  have "distinct (map fst (hccSubRegDefs h))" using hcc_tables_ok [of h] unfolding nv by (simp add: table_ok_def)
  from table_lookup [OF this, of r "sub_of d"] d(1,2) have "hcc_fields h r = Some (sub_of d)"
    unfolding hcc_fields_def nv by blast
  then show thesis using d(3) by (intro that [of "sub_of d"]) (auto simp: sub_of_def split: prod.splits)
qed

lemma cfg_hcc_sub:
  assumes "cfg_inv a h K c" and "r \<in> {''TESTHPR'', ''STOPHPR'', ''MASKHPR'', ''TRIGMODE''}"
  shows "rok (\<lambda>_. True) (getHCCSubRegisterValue c r)" "rok (cfg_inv a h K) (setHCCSubRegisterValue c r 0)"
proof -
  have ok: "cfg_ok c" and h: "h \<in> {0, 1}" "hccSubRegisterMap_all (hcc_info (m_hcc c)) = hcc_fields h"
    "hcc_addrs (m_hcc c) = Collect (hcc_has_reg h)"
    using assms(1) by (simp_all add: cfg_inv_def)
  obtain i where i: "hcc_fields h r = Some i" by (rule hcc_common [OF h(1) assms(2)]) (rule that)
  have m: "hccSubRegisterMap_all (hcc_info (m_hcc c)) r = Some i" by (simp add: h(2) i)
  from cfg_hcc.field_in [OF ok m] cfg_hcc.get_in [OF ok] obtain v where "getHCCRegister c (m_regAddress i) = Inr v" by blast
  then show "rok (\<lambda>_. True) (getHCCSubRegisterValue c r)" by (simp add: getHCCSub_store m)
  obtain v y t where t: "getHCCRegister c (m_regAddress i) = Inr v" "sub_updateValue i 0 v = Inr y"
      "setHCCRegister c (m_regAddress i) y = Inr t"
    using cfg_hcc.set_field_ok [OF ok m, of 0] by auto
  have "hcc_has_reg h (m_regAddress i)" using cfg_hcc.field_in [OF ok m] h(3) by simp
  from cfg_set_hcc [OF assms(1) this, of y] t show "rok (cfg_inv a h K) (setHCCSubRegisterValue c r 0)"
    by (simp add: setHCCSub_store m)
qed

lemma cfg_getByID:
  assumes "cfg_inv a h K c" and "map_of (chip_ids c) i = Some ic" and "abc_has_reg a r"
  shows "rok (\<lambda>_. True) (getABCRegisterByID c r i)" "rok (cfg_inv a h K) (setABCRegisterByID c r v i)"
proof -
  have ok: "cfg_ok c" using assms(1) by (simp add: cfg_inv_def)
  obtain abc where abc: "abc_at c ic = Some abc" by (rule chip_ids_at [OF ok assms(2)]) (rule that)
  have inv: "abc_inv a abc" using assms(1) abc by (simp add: cfg_inv_def)
  have "abc_ok abc" "r \<in> abc_addrs abc" using inv assms(3) by (simp_all add: abc_inv_def)
  from abc_field.get_in [OF this] show "rok (\<lambda>_. True) (getABCRegisterByID c r i)"
    by (auto simp: getABCRegisterByID_def abcFromChipID_ids assms(2) readAbc_at [OF abc])
  from abc_set_kept [OF inv assms(3), of v] show "rok (cfg_inv a h K) (setABCRegisterByID c r v i)"
    unfolding setABCRegisterByID_def abcFromChipID_ids assms(2) option.case rbind_Inr withAbc_at [OF abc]
    by (rule rsat_bind) (simp add: cfg_inv_putAbc [OF assms(1) abc])
qed

lemma cfg_ids_at:
  assumes "cfg_inv a h K c" and "abc_at c ic = Some abc"
  obtains k where "map_of (chip_ids c) (m_abcID abc) = Some k"
proof -
  have "(m_abcID abc, ic) \<in> set (chip_ids c)"
    using assms(2) by (auto simp: chip_ids_def dest!: map_of_SomeD intro: rev_image_eqI)
  then have "map_of (chip_ids c) (m_abcID abc) \<noteq> None" by (auto simp: map_of_eq_None_iff intro: rev_image_eqI)
  with that show thesis by blast
qed

lemma cfg_channel:
  assumes "cfg_inv a h K c" and "map_of (chip_ids c) i = Some ic"
  shows "hccChannelForABCchipID c i = Inr ic" "ic < MaxABCsPerHCC"
proof -
  have ok: "cfg_ok c" using assms(1) by (simp add: cfg_inv_def)
  obtain abc where "abc_at c ic = Some abc" by (rule chip_ids_at [OF ok assms(2)]) (rule that)
  from cfg_ok_abc(1) [OF ok this] show "ic < MaxABCsPerHCC" .
  show "hccChannelForABCchipID c i = Inr ic" by (simp add: abcFromChipID_ids assms(2))
qed

section \<open>The chipset\<close>

definition emu_inv :: "int \<Rightarrow> int \<Rightarrow> nat list \<Rightarrow> ('g, 'o) ChipsetEmu \<Rightarrow> bool" where
  "emu_inv a h K s \<longleftrightarrow> cfg_inv a h K (m_starCfg s) \<and> emu_abc_version s = a \<and> emu_hcc_version s = h \<and>
     length (m_l0buffer_lite s) = L0BufDepth \<and> (\<forall>k b. m_evtbuffers_lite s k = Some b \<longrightarrow> length b = EvtBufDepth) \<and>
     length (hpr_sent s) = length K + 1 \<and> HPRPERIOD s \<noteq> 0 \<and> generator_ok a (m_generator s)"

text \<open>A well-formed chipset.\<close>

definition emu_ok :: "('g, 'o) ChipsetEmu \<Rightarrow> bool" where
  "emu_ok s \<longleftrightarrow> emu_inv (emu_abc_version s) (emu_hcc_version s) (map fst (m_ABCchips (m_starCfg s))) s"

lemma emu_ok_iff: "emu_ok s \<longleftrightarrow> (\<exists>a h K. emu_inv a h K s)"
  by (auto simp: emu_ok_def) (auto simp: emu_inv_def cfg_inv_def)

lemma emu_inv_cfg: "emu_inv a h K s \<Longrightarrow> cfg_inv a h K (m_starCfg s)"
  by (simp add: emu_inv_def)

lemma emu_inv_with_cfg: "emu_inv a h K s \<Longrightarrow> cfg_inv a h K c \<Longrightarrow> emu_inv a h K (s\<lparr>m_starCfg := c\<rparr>)"
  by (simp add: emu_inv_def)

lemma on_cfg_ok:
  assumes "emu_inv a h K s" and "rsat E (cfg_inv a h K) (f (m_starCfg s))"
  shows "rsat E (emu_inv a h K) (on_cfg f s)"
  unfolding on_cfg_def by (rule rsat_bind [OF assms(2)]) (simp add: emu_inv_with_cfg [OF assms(1)])

lemma on_eachAbc_ok:
  assumes "emu_inv a h K s" and "\<And>abc. abc_inv a abc \<Longrightarrow> rok (abc_kept a abc) (f abc)"
  shows "rok (emu_inv a h K) (on_eachAbc f s)"
  unfolding on_eachAbc_def
proof (rule on_cfg_ok [OF assms(1)])
  let ?c = "m_starCfg s"
  have inv: "cfg_inv a h K ?c" by (rule emu_inv_cfg [OF assms(1)])
  have ks: "map fst (m_ABCchips ?c) = K" using inv by (simp add: cfg_inv_def)
  show "rok (cfg_inv a h K) (eachAbc (\<lambda>ic. withAbc ic f) ?c ?c)"
    unfolding eachAbc_def ks
  proof (rule rsat_fold)
    show "cfg_inv a h K ?c" by (rule inv)
  next
    fix ic c assume k: "ic \<in> set K" and c: "cfg_inv a h K c"
    obtain abc where abc: "abc_at c ic = Some abc" "abc_inv a abc" by (rule cfg_inv_at [OF c k]) (rule that)
    show "rok (cfg_inv a h K) (withAbc ic f c)"
      unfolding withAbc_at [OF abc(1)]
      by (rule rsat_bind [OF assms(2) [OF abc(2)]]) (simp add: cfg_inv_putAbc [OF c abc(1)])
  qed
qed

lemma emu_inv_updates [simp]:
  "emu_inv a h K (s\<lparr>m_rxbuffer := x\<rparr>) = emu_inv a h K s" "emu_inv a h K (s\<lparr>m_ignoreCmd := b\<rparr>) = emu_inv a h K s"
  "emu_inv a h K (s\<lparr>m_isForABC := b\<rparr>) = emu_inv a h K s" "emu_inv a h K (s\<lparr>m_reg_cmd_buffer := q\<rparr>) = emu_inv a h K s"
  "emu_inv a h K (s\<lparr>m_startHitCount := b\<rparr>) = emu_inv a h K s" "emu_inv a h K (s\<lparr>m_bc_sel := y\<rparr>) = emu_inv a h K s"
  "emu_inv a h K (s\<lparr>hpr_clkcnt := z\<rparr>) = emu_inv a h K s" "emu_inv a h K (s\<lparr>m_random := g\<rparr>) = emu_inv a h K s"
  "emu_inv a h K (s\<lparr>m_ndata_l0buf := z\<rparr>) = emu_inv a h K s" "emu_inv a h K (setBC bc s) = emu_inv a h K s"
  "emu_inv a h K (sendPacket p s) = emu_inv a h K s"
  by (simp_all add: emu_inv_def setBC_def sendPacket_def)

lemma emu_inv_hpr_sent: "emu_inv a h K s \<Longrightarrow> length hs = length (hpr_sent s) \<Longrightarrow> emu_inv a h K (s\<lparr>hpr_sent := hs\<rparr>)"
  by (simp add: emu_inv_def)

lemma emu_inv_l0_write: "emu_inv a h K s \<Longrightarrow> emu_inv a h K (l0_write k d s)"
  by (simp add: emu_inv_def l0_write_def)

lemma emu_inv_fillL0Buffer: "emu_inv a h K s \<Longrightarrow> emu_inv a h K (fillL0Buffer s)"
  unfolding fillL0Buffer_def by (rule fold_invariant [where Q = "\<lambda>_. True"]) (auto intro: emu_inv_l0_write)

lemma emu_inv_ackPulseCmd: "emu_inv a h K s \<Longrightarrow> emu_inv a h K (ackPulseCmd p k s)"
  by (simp add: ackPulseCmd_def Let_def emu_inv_l0_write)

lemma emu_inv_clearFEData: "emu_inv a h K s \<Longrightarrow> emu_inv a h K (clearFEData s)"
  by (auto simp: emu_inv_def clearFEData_def)


section \<open>Construction\<close>

text \<open>A configuration with no ABC yet, and one more ABC.\<close>

lemma new_cfg_inv:
  assumes "a \<in> {0, 1}" and "h \<in> {0, 1}"
  obtains c where "new_StarCfg a h = Inr c" "cfg_inv a h [] c" "m_abc_version c = a" "m_ABCchips c = []"
proof -
  have le: "a \<le> 1" "h \<le> 1" using assms by auto
  obtain c where c: "new_StarCfg a h = Inr c" "cfg_ok c" "m_ABCchips c = []" "m_abc_version c = a"
    "hccSubRegisterMap_all (hcc_info (m_hcc c)) = hcc_fields h" "new_HccCfg h = Inr (m_hcc c)"
    by (rule new_StarCfg_ok [OF le]) (rule that)
  obtain hc where hc: "new_HccCfg h = Inr hc" "hcc_addrs hc = Collect (hcc_has_reg (hcc_norm h))"
    by (rule new_HccCfg_ok [OF le(2)]) (rule that)
  have "hcc_norm h = h" using assms(2) by auto
  with c hc assms show thesis by (intro that [of c]) (simp_all add: cfg_inv_def)
qed

lemma hcc_regs: "h \<in> {0, 1} \<Longrightarrow> hcc_has_reg h 15 \<and> hcc_has_reg h 17 \<and> hcc_has_reg h 0 \<and> hcc_has_reg h 1 \<and> hcc_has_reg h 2"
  by (auto simp: hcc_has_reg_def hcc_skip_v1_def)

lemma new_ChipsetEmu_ok:
  fixes g :: 'g and gen :: "'o StripGenerator option"
  assumes "cfg_inv a h K c" and "period \<noteq> 0" and "generator_ok a gen"
  obtains s :: "('g, 'o) ChipsetEmu" and d where "new_ChipsetEmu c gen g period a h = Inr s" "emu_inv a h K s"
    "setHCCRegister c 17 (push_bit 28 (sc_getHCCchipID c AND 0xf) OR (sc_getHCCfuseID c AND 0xffffff)) = Inr d"
    "m_starCfg s = d" "m_ABCchips d = m_ABCchips c" "m_rxbuffer s = []" "HPRPERIOD s = period"
    "hpr_clkcnt s = period div 2" "m_bccnt s = 0"
proof -
  have h: "hcc_has_reg h 17" using hcc_regs [of h] assms(1) by (simp add: cfg_inv_def)
  have k: "length K = numABCs c" using assms(1) by (auto simp: cfg_inv_def numABCs_def)
  let ?w = "push_bit 28 (sc_getHCCchipID c AND 0xf) OR (sc_getHCCfuseID c AND 0xffffff)"
  obtain d where d: "setHCCRegister c 17 ?w = Inr d" "cfg_inv a h K d"
    using cfg_set_hcc [OF assms(1) h, of ?w] unfolding rok_iff by blast
  from setHCC_frame [OF d(1)] have m: "m_ABCchips d = m_ABCchips c" by simp
  show thesis
  proof (rule that [OF _ _ d(1)])
    show "new_ChipsetEmu c gen g period a h = Inr \<lparr>m_rxbuffer = [], m_ignoreCmd = True, m_isForABC = False,
      m_reg_cmd_buffer = [], m_l0buffer_lite = replicate L0BufDepth 0, m_ndata_l0buf = 0,
      m_evtbuffers_lite = Map.empty, m_bccnt = 0, m_startHitCount = False, m_bc_sel = 0,
      hpr_clkcnt = period div 2, hpr_sent = replicate (numABCs c + 1) False,
      HPRPERIOD = period, emu_abc_version = a, emu_hcc_version = h, m_starCfg = d, m_generator = gen, m_random = g\<rparr>"
      unfolding new_ChipsetEmu_def Let_def d(1) rbind_Inr by (rule refl)
  qed (use d m assms(2,3) k in \<open>simp_all add: emu_inv_def\<close>)
qed

section \<open>HPR packets and fast commands\<close>

lemma setHCCStarHPR_ok: "emu_inv a h K s \<Longrightarrow> rok (emu_inv a h K) (setHCCStarHPR frame s)"
  unfolding setHCCStarHPR_def
  by (rule on_cfg_ok, assumption, rule cfg_set_hcc [OF emu_inv_cfg], assumption)
    (use hcc_regs in \<open>simp add: emu_inv_def cfg_inv_def\<close>)

lemma hpr_phase_ok: "emu_inv a h K s \<Longrightarrow> rok (\<lambda>_. True) (hpr_phase s)"
  by (simp add: hpr_phase_def emu_inv_def)

lemma hcc_hpr_read: "emu_inv a h K s \<Longrightarrow> rok (\<lambda>_. True) (getHCCRegister (m_starCfg s) 15)"
proof -
  assume s: "emu_inv a h K s"
  have "15 \<in> hcc_addrs (m_hcc (m_starCfg s))" "cfg_ok (m_starCfg s)"
    using s hcc_regs [of h] by (simp_all add: emu_inv_def cfg_inv_def)
  from cfg_hcc.get_in [OF this(2,1)] show ?thesis by (auto simp: rok_iff)
qed

lemma emu_inv_sent:
  "emu_inv a h K s \<Longrightarrow> emu_inv a h K ((sendPacket p s)\<lparr>hpr_sent := (hpr_sent s)[k := True]\<rparr>)"
  by (rule emu_inv_hpr_sent) (simp_all add: sendPacket_def)

lemma hcc_sub_cleared:
  "emu_inv a h K s \<Longrightarrow> r \<in> {''TESTHPR'', ''STOPHPR'', ''MASKHPR'', ''TRIGMODE''} \<Longrightarrow>
   rok (emu_inv a h K) (if b then on_cfg (\<lambda>c. setHCCSubRegisterValue c r 0) s else Inr s)"
  by (auto intro!: on_cfg_ok cfg_hcc_sub(2) emu_inv_cfg)

lemma doHPR_HCC_ok:
  assumes "emu_inv a h K s"
  shows "rok (emu_inv a h K) (doHPR_HCC frame s)"
  unfolding doHPR_HCC_def Let_def
  apply (rule rsat_bind [OF setHCCStarHPR_ok [OF assms]])
  apply (rule rsat_bind_any [OF cfg_hcc_sub(1) [OF emu_inv_cfg]], assumption, simp)+
  apply (rule rsat_bind_any [OF hpr_phase_ok], assumption)
  apply (rule rsat_bind_any, simp add: vec_read_def emu_inv_def)
  apply (rule rsat_bind [where Q = "emu_inv a h K"])
   apply (rule rsat_if)
    apply (rule rsat_bind_any [OF hcc_hpr_read], assumption)
    apply (simp add: emu_inv_sent)
   apply simp
  apply (rule rsat_bind [OF hcc_sub_cleared], assumption, simp)
  apply (rule hcc_sub_cleared, assumption, simp)
  done

text \<open>The ABC of a channel.\<close>

lemma abc_channel:
  assumes "emu_inv a h K s" and "ic \<in> set K"
  obtains abc k where "abc_at (m_starCfg s) ic = Some abc" "abc_inv a abc" "ic < MaxABCsPerHCC"
    "sc_getABCchipID (m_starCfg s) (int (ic + 1)) = Inr (m_abcID abc)"
    "map_of (chip_ids (m_starCfg s)) (m_abcID abc) = Some k"
proof -
  note c = emu_inv_cfg [OF assms(1)]
  obtain abc where abc: "abc_at (m_starCfg s) ic = Some abc" "abc_inv a abc" "ic < MaxABCsPerHCC"
    by (rule cfg_inv_at [OF c assms(2)]) (rule that)
  have ok: "cfg_ok (m_starCfg s)" using c by (simp add: cfg_inv_def)
  have "sc_getABCchipID (m_starCfg s) (int (ic + 1)) = Inr (m_abcID abc)"
    using abcForInputChannel_at [OF ok abc(1)] by (simp add: sc_getABCchipID_def abcForInputChannel_def add.commute)
  moreover obtain k where "map_of (chip_ids (m_starCfg s)) (m_abcID abc) = Some k"
    by (rule cfg_ids_at [OF c abc(1)]) (rule that)
  ultimately show thesis using abc by (intro that)
qed

lemma abc_hpr_reg: "emu_inv a h K s \<Longrightarrow> abc_has_reg a 63"
  by (auto simp: emu_inv_def cfg_inv_def abc_has_reg_def abc_skip_v1_def)

lemma chan_sub:
  assumes "emu_inv a h K s" and "ic \<in> set K" and "r \<in> {''TESTHPR'', ''STOPHPR'', ''MASKHPR''}"
  shows "rok (\<lambda>_. True) (getABCSubRegisterValue (m_starCfg s) ic r)"
    "rok (emu_inv a h K) (if b then on_cfg (\<lambda>c. setABCSubRegisterValue c ic r 0) s else Inr s)"
proof -
  note c = emu_inv_cfg [OF assms(1)]
  obtain abc where abc: "abc_at (m_starCfg s) ic = Some abc" "abc_inv a abc" "ic < MaxABCsPerHCC"
    by (rule cfg_inv_at [OF c assms(2)]) (rule that)
  have ok: "cfg_ok (m_starCfg s)" using c by (simp add: cfg_inv_def)
  have p: "isAbcForInputChannel (m_starCfg s) ic = Inr True" using isAbc_iff [OF ok abc(3)] abc(1) by simp
  show "rok (\<lambda>_. True) (getABCSubRegisterValue (m_starCfg s) ic r)"
    unfolding getABCSubRegisterValue_def p rbind_Inr abcForInputChannel_at [OF ok abc(1)]
    using abc_inv_common [OF abc(2), of r] assms(3) by auto
  have "rok (cfg_inv a h K) (setABCSubRegisterValue (m_starCfg s) ic r 0)"
    unfolding setABCSubRegisterValue_def p rbind_Inr abcForInputChannel_at [OF ok abc(1)] not_True_eq_False if_False
    by (rule rsat_bind [OF abc_hpr_kept [OF abc(2) assms(3)]]) (simp add: cfg_inv_putAbc [OF c abc(1)])
  from on_cfg_ok [OF assms(1), where f = "\<lambda>c. setABCSubRegisterValue c ic r 0", OF this]
  show "rok (emu_inv a h K) (if b then on_cfg (\<lambda>c. setABCSubRegisterValue c ic r 0) s else Inr s)"
    using assms(1) by simp
qed

lemma chip_ids_cfg: "setABCRegisterByID c r v i = Inr t \<Longrightarrow> cfg_inv a h K c \<Longrightarrow> chip_ids t = chip_ids c"
  by (rule setByID_laws(2)) (simp_all add: cfg_inv_def)

lemma doHPR_ABC_ok:
  assumes "emu_inv a h K s" and "ic \<in> set K" and "ic < length K"
  shows "rok (emu_inv a h K) (doHPR_ABC frame (ic + 1) s)"
proof -
  obtain abc k where "abc_at (m_starCfg s) ic = Some abc" "abc_inv a abc" "ic < MaxABCsPerHCC"
    and abc: "sc_getABCchipID (m_starCfg s) (int (ic + 1)) = Inr (m_abcID abc)"
    "map_of (chip_ids (m_starCfg s)) (m_abcID abc) = Some k"
    by (rule abc_channel [OF assms(1,2)]) (rule that)
  note c = emu_inv_cfg [OF assms(1)]
  have set: "rok (\<lambda>t. emu_inv a h K t \<and> map_of (chip_ids (m_starCfg t)) (m_abcID abc) = Some k) (setABCStarHPR frame (m_abcID abc) s)"
    using cfg_getByID(2) [OF c abc(2) abc_hpr_reg [OF assms(1)], of "abc_hpr_word frame"] abc(2)
    by (auto simp: rok_iff setABCStarHPR_def on_cfg_def emu_inv_with_cfg [OF assms(1)] chip_ids_cfg [OF _ c])
  show ?thesis
    unfolding doHPR_ABC_def abc(1) rbind_Inr Let_def add_diff_cancel_right'
    apply (rule rsat_bind [OF set], elim conjE)
    apply (rule rsat_bind_any [OF chan_sub(1)], assumption, rule assms(2), simp)+
    apply (rule rsat_bind_any [OF hpr_phase_ok], assumption)
    apply (rule rsat_bind_any, use assms(3) in \<open>simp add: vec_read_def emu_inv_def\<close>)
    apply (rule rsat_bind [where Q = "emu_inv a h K"])
     apply (rule rsat_if)
      apply (rule rsat_bind_any [OF cfg_getByID(1) [OF emu_inv_cfg _ abc_hpr_reg]], assumption, assumption, assumption)
      apply (simp add: emu_inv_sent)
     apply simp
    apply (rule rsat_bind [OF chan_sub(2)], assumption, rule assms(2), simp)
    apply (rule chan_sub(2), assumption, rule assms(2), simp)
    done
qed

lemma doHPR_ok:
  assumes "emu_inv a h K s"
  shows "rok (emu_inv a h K) (doHPR frame s)"
  unfolding doHPR_def
proof (rule rsat_bind [OF doHPR_HCC_ok [OF assms]])
  fix s :: "('a, 'b) ChipsetEmu"
  assume s: "emu_inv a h K s"
  have n: "numABCs (m_starCfg s) = length K" and small: "length K \<le> MaxABCsPerHCC"
  proof -
    have K: "map fst (m_ABCchips (m_starCfg s)) = K" "cfg_ok (m_starCfg s)" using s by (simp_all add: emu_inv_def cfg_inv_def)
    then show "numABCs (m_starCfg s) = length K" by (auto simp: numABCs_def)
    have "distinct K" using omap_ok_distinct [of "m_ABCchips (m_starCfg s)"] K by (simp add: cfg_ok_def)
    moreover have "set K \<subseteq> {..<MaxABCsPerHCC}"
      by (rule subsetI) (rule cfg_inv_at [OF emu_inv_cfg [OF s]], assumption, simp)
    ultimately show "length K \<le> MaxABCsPerHCC"
      using card_mono [of "{..<MaxABCsPerHCC}" "set K"] by (simp add: distinct_card)
  qed
  show "rok (emu_inv a h K) (rbind (rfold (\<lambda>ichip s.
         rbind (isAbcForInputChannel (m_starCfg s) (ichip - 1)) (\<lambda>present.
         if \<not> present then Inr s else doHPR_ABC frame ichip s)) [1..<numABCs (m_starCfg s) + 1] s) (\<lambda>s.
     Inr (s\<lparr>hpr_clkcnt := hpr_clkcnt s + 4\<rparr>)))"
  proof (rule rsat_bind [where Q = "emu_inv a h K"], rule rsat_fold)
    fix ichip and t :: "('a, 'b) ChipsetEmu"
    assume "ichip \<in> set [1..<numABCs (m_starCfg s) + 1]" and t: "emu_inv a h K t"
    then have "1 \<le> ichip" "ichip \<le> length K" by (auto simp: n)
    then obtain ic where ic: "ichip = ic + 1" "ic < length K" by (metis Suc_eq_plus1 Suc_le_eq le_add_diff_inverse2)
    have p: "isAbcForInputChannel (m_starCfg t) ic = Inr (abc_at (m_starCfg t) ic \<noteq> None)"
      by (rule isAbc_iff) (use t ic small in \<open>simp_all add: emu_inv_def cfg_inv_def\<close>)
    show "rok (emu_inv a h K) (rbind (isAbcForInputChannel (m_starCfg t) (ichip - 1)) (\<lambda>present.
         if \<not> present then Inr t else doHPR_ABC frame ichip t))"
    proof (cases "abc_at (m_starCfg t) ic")
      case None
      with p t show ?thesis by (simp add: ic(1))
    next
      case (Some abc)
      from cfg_inv_key [OF emu_inv_cfg [OF t] this] have "ic \<in> set K" .
      from doHPR_ABC_ok [OF t this ic(2), of frame] p Some show ?thesis by (simp add: ic(1))
    qed
  qed (use s in simp_all)
qed


lemma logicReset_ok:
  assumes "emu_inv a h K s"
  shows "rok (emu_inv a h K) (logicReset s)"
proof -
  let ?s = "s\<lparr>hpr_clkcnt := HPRPERIOD s div 2, hpr_sent := map (\<lambda>_. False) (hpr_sent s)\<rparr>"
  have s: "emu_inv a h K ?s" using assms by (simp add: emu_inv_def)
  have "rok (cfg_inv a h K) (rfold (\<lambda>r c. setHCCSubRegisterValue c r 0) [''TESTHPR'', ''STOPHPR'', ''MASKHPR''] (m_starCfg ?s))"
    by (rule rsat_fold, rule emu_inv_cfg [OF s], rule cfg_hcc_sub(2)) auto
  note hcc = on_cfg_ok [OF s, where f = "rfold (\<lambda>r c. setHCCSubRegisterValue c r 0) [''TESTHPR'', ''STOPHPR'', ''MASKHPR'']", OF this]
  have "rok (abc_kept a abc) (rfold (\<lambda>r abc. abc_setSubRegisterValue abc r 0) [''TESTHPR'', ''STOPHPR'', ''MASKHPR''] abc)"
    if "abc_inv a abc" for abc
  proof (rule rsat_fold [where I = "abc_kept a abc"])
    show "abc_kept a abc abc" by (rule abc_kept_refl [OF that])
    fix r t assume r: "r \<in> set [''TESTHPR'', ''STOPHPR'', ''MASKHPR'']" and t: "abc_kept a abc t"
    then have "abc_inv a t" by (simp add: abc_kept_def)
    then show "rok (abc_kept a abc) (abc_setSubRegisterValue t r 0)"
      by (rule rsat_weaken [OF abc_hpr_kept]) (use r in \<open>auto intro: abc_kept_trans [OF t]\<close>)
  qed
  note abc = on_eachAbc_ok [OF _ this]
  show ?thesis
    unfolding logicReset_def Let_def
    apply (rule rsat_bind [OF hcc])
    apply (rule rsat_bind [OF abc], assumption, assumption)
    apply (simp only: rsat_simps)
    apply (erule emu_inv_clearFEData)
    done
qed

lemma abc_counter_regs: "a \<in> {0, 1} \<Longrightarrow> 128 \<le> r \<Longrightarrow> r < 192 \<Longrightarrow> abc_has_reg a r"
  by (auto simp: abc_has_reg_def abc_skip_v1_def)

lemma resetABCHitCounts_ok: "emu_inv a h K s \<Longrightarrow> rok (emu_inv a h K) (resetABCHitCounts s)"
  unfolding resetABCHitCounts_def
  by (rule on_eachAbc_ok, assumption, rule abc_sets_kept, assumption, rule abc_counter_regs)
    (auto simp: Counter_def emu_inv_def cfg_inv_def simp del: upt_rec_numeral)

lemma resetABCRegisters_ok:
  assumes "emu_inv a h K s"
  shows "rok (emu_inv a h K) (resetABCRegisters s)"
proof -
  have v: "emu_abc_version s = a" "a \<in> {0, 1}" using assms by (simp_all add: emu_inv_def cfg_inv_def)
  show ?thesis
    unfolding resetABCRegisters_def v(1)
    by (rule rsat_bind [OF on_eachAbc_ok [OF assms abc_defaults_kept [OF _ v(2)]]], assumption)
      (rule resetABCHitCounts_ok)
qed

lemma resetABCSEU_ok: "emu_inv a h K s \<Longrightarrow> rok (emu_inv a h K) (resetABCSEU s)"
  unfolding resetABCSEU_def
  by (rule on_eachAbc_ok, assumption, rule abc_sets_kept, assumption)
    (auto simp: emu_inv_def cfg_inv_def abc_has_reg_def abc_skip_v1_def)

lemma hcc_defaults_ok:
  assumes "cfg_inv a h K c"
  shows "rok (cfg_inv a h K) (rbind (hcc_setDefaults h (m_hcc c)) (\<lambda>x. Inr (c\<lparr>m_hcc := x\<rparr>)))"
proof -
  have h: "h \<in> {0, 1}" "hcc_norm h = h" "h \<le> 1" using assms by (auto simp: cfg_inv_def)
  define P where "P x \<longleftrightarrow> cfg_inv a h K (c\<lparr>m_hcc := x\<rparr>)" for x
  have "rok P (hcc_setDefaults h (m_hcc c))"
    unfolding hcc_setDefaults_def
  proof (rule rsat_fold)
    show "P (m_hcc c)" using assms by (simp add: P_def)
    fix av x assume av: "av \<in> set (hcc_default_values h)" and x: "P x"
    have reg: "hcc_has_reg h (fst av)" using hcc_default_regs [of "fst av" "snd av" h] av h by simp
    then have "hcc_poke av x = hcc_setRegisterValue x (fst av) (snd av)"
      using x by (auto simp: hcc_poke_def P_def cfg_inv_def split: option.split)
    moreover have "rok (cfg_inv a h K) (setHCCRegister (c\<lparr>m_hcc := x\<rparr>) (fst av) (snd av))"
      by (rule cfg_set_hcc) (use x reg in \<open>simp_all add: P_def\<close>)
    ultimately show "rok P (hcc_poke av x)"
      by (auto simp: setHCCRegister_def rok_iff P_def rbind_eq_Inr_iff)
  qed
  then show ?thesis by (auto simp: rok_iff P_def)
qed

lemma resetHCCRegisters_ok: "emu_inv a h K s \<Longrightarrow> rok (emu_inv a h K) (resetHCCRegisters s)"
  unfolding resetHCCRegisters_def
  by (rule on_cfg_ok, assumption) (simp add: emu_inv_def hcc_defaults_ok)

lemma resetHCCSEU_ok:
  assumes "emu_inv a h K s"
  shows "rok (emu_inv a h K) (resetHCCSEU s)"
  unfolding resetHCCSEU_def
  by (rule on_cfg_ok [OF assms], rule rsat_fold [where I = "cfg_inv a h K"], rule emu_inv_cfg [OF assms], rule cfg_set_hcc)
    (use hcc_regs [of h] assms in \<open>auto simp: emu_inv_def cfg_inv_def\<close>)

lemma resetHCCPLL_ok:
  assumes "emu_inv a h K s"
  shows "rsat (\<lambda>e. e = Out_Of_Range \<and> h = 1) (emu_inv a h K) (resetHCCPLL s)"
  unfolding resetHCCPLL_def
proof (rule on_cfg_ok [OF assms], rule rsat_fold [where I = "cfg_inv a h K"], rule emu_inv_cfg [OF assms])
  fix r c assume r: "r \<in> set [35, 36, 37 :: nat]" and c: "cfg_inv a h K c"
  have h: "h \<in> {0, 1}" using c by (simp add: cfg_inv_def)
  show "rsat (\<lambda>e. e = Out_Of_Range \<and> h = 1) (cfg_inv a h K) (setHCCRegister c r 0)"
  proof (cases "hcc_has_reg h r")
    case True
    from cfg_set_hcc [OF c True, of 0] show ?thesis by (rule rsat_weaken) simp_all
  next
    case False
    have "r \<notin> hcc_addrs (m_hcc c)" "cfg_ok c" using c False by (simp_all add: cfg_inv_def)
    from cfg_hcc.put_out [OF this(2,1), of 0] have "setHCCRegister c r 0 = Inl Out_Of_Range" .
    moreover have "h = 1" using False r h by (auto simp: hcc_has_reg_def hcc_skip_v1_def)
    ultimately show ?thesis by simp
  qed
qed

lemma doFastCommand_ok:
  assumes "emu_inv a h K s"
  shows "rsat (\<lambda>e. e = Out_Of_Range \<and> h = 1 \<and> fast_cmds ! unat (data6 AND 0xf) = HCC_PLL_RESET) (emu_inv a h K) (doFastCommand data6 s)"
proof -
  let ?s = "s\<lparr>m_bc_sel := drop_bit 4 data6 AND 3\<rparr>"
  have s: "emu_inv a h K ?s" using assms by simp
  note total = rsat_weaken [where E = "\<lambda>_. False"]
  note ops = logicReset_ok [OF s] resetABCRegisters_ok [OF s] resetABCSEU_ok [OF s] resetABCHitCounts_ok [OF s]
    resetHCCRegisters_ok [OF s] resetHCCSEU_ok [OF s]
  show ?thesis
  proof (cases "fast_cmds ! unat (data6 AND 0xf)")
    case HCC_PLL_RESET
    then show ?thesis using resetHCCPLL_ok [OF s] by (simp add: doFastCommand_def Let_def)
  qed (use ops in \<open>auto simp: doFastCommand_def Let_def rsat_def emu_inv_ackPulseCmd resetSlowCommand_def assms split: sum.splits\<close>)
qed


section \<open>Register commands\<close>

lemma or_else_ok: "rsat (\<lambda>e. e = Out_Of_Range \<or> E e) P r \<Longrightarrow> P x \<Longrightarrow> rsat E P (or_else r x)"
  by (auto simp: or_else_def rsat_def split: sum.splits fault.splits)

text \<open>Reading and writing by an identifier that a chip may not have.\<close>

lemma cfg_byID_any:
  assumes "cfg_inv a h K c"
  shows "rsat (\<lambda>e. e = Out_Of_Range \<or> e = Undefined \<and> i \<notin> fst ` set (chip_ids c)) (cfg_inv a h K) (setABCRegisterByID c r v i)"
    and "rsat (\<lambda>e. e = Out_Of_Range \<or> e = Undefined \<and> i \<notin> fst ` set (chip_ids c)) (\<lambda>_. True) (getABCRegisterByID c r i)"
proof -
  have ok: "cfg_ok c" using assms by (simp add: cfg_inv_def)
  have keep: "cfg_inv a h K t" if set: "setABCRegisterByID c r v i = Inr t" for t
  proof -
    obtain ic where ic: "abcFromChipID c i = Inr ic" "chan_put ic c r v = Inr t" "chan_ok ic c"
      by (rule setByID_Inr [OF ok set]) (rule that)
    from ic(3) obtain abc where abc: "abc_at c ic = Some abc" by (auto simp: chan_ok_def)
    have inv: "abc_inv a abc" using assms abc by (simp add: cfg_inv_def)
    from ic(2) obtain abc' where t: "abc_setRegisterValue abc r v = Inr abc'" "t = putAbc c ic abc'"
      by (auto simp: chan_put_def withAbc_at [OF abc] rbind_eq_Inr_iff)
    have "abc_ok abc" using inv by (simp add: abc_inv_def)
    then have "r \<in> abc_addrs abc" by (rule abc_field.put_Inr(1) [OF _ t(1)])
    then have "abc_has_reg a r" using inv by (simp add: abc_inv_def)
    from abc_set_kept [OF inv this, of v] t(1) have "abc_kept a abc abc'" by simp
    then show ?thesis unfolding t(2) by (rule cfg_inv_putAbc [OF assms abc])
  qed
  show "rsat (\<lambda>e. e = Out_Of_Range \<or> e = Undefined \<and> i \<notin> fst ` set (chip_ids c)) (cfg_inv a h K) (setABCRegisterByID c r v i)"
  proof (cases "setABCRegisterByID c r v i")
    case (Inl e)
    from setByID_faults(1) [OF ok Inl] Inl show ?thesis by (simp split: if_splits)
  qed (use keep in simp)
  show "rsat (\<lambda>e. e = Out_Of_Range \<or> e = Undefined \<and> i \<notin> fst ` set (chip_ids c)) (\<lambda>_. True) (getABCRegisterByID c r i)"
  proof (cases "map_of (chip_ids c) i")
    case None
    then have "i \<notin> fst ` set (chip_ids c)" by (simp add: map_of_eq_None_iff)
    with None show ?thesis by (simp add: by_ID abcFromChipID_ids)
  next
    case (Some ic)
    from chip_ids_at [OF ok Some] ok have "chan_ok ic c" by (auto simp: chan_ok_def)
    then show ?thesis
      using chan.get_in [of ic c r] chan.get_out [of ic c r]
      by (cases "r \<in> chan_addrs ic c") (auto simp: by_ID abcFromChipID_ids Some)
  qed
qed

lemma cfg_hcc_any:
  assumes "cfg_inv a h K c"
  shows "rsat (\<lambda>e. e = Out_Of_Range) (cfg_inv a h K) (setHCCRegister c r v)"
    and "rsat (\<lambda>e. e = Out_Of_Range) (\<lambda>_. True) (getHCCRegister c r)"
proof -
  have c: "cfg_ok c" "hcc_addrs (m_hcc c) = Collect (hcc_has_reg h)" using assms by (simp_all add: cfg_inv_def)
  show "rsat (\<lambda>e. e = Out_Of_Range) (cfg_inv a h K) (setHCCRegister c r v)"
  proof (cases "hcc_has_reg h r")
    case True
    from cfg_set_hcc [OF assms True, of v] show ?thesis by (rule rsat_weaken) simp_all
  qed (use cfg_hcc.put_out [OF c(1)] c(2) in simp)
  show "rsat (\<lambda>e. e = Out_Of_Range) (\<lambda>_. True) (getHCCRegister c r)"
    using cfg_hcc.get_in [OF c(1), of r] cfg_hcc.get_out [OF c(1), of r] by (cases "r \<in> hcc_addrs (m_hcc c)") auto
qed

definition unknown_id :: "bool \<Rightarrow> u32 \<Rightarrow> ('g, 'o) ChipsetEmu \<Rightarrow> bool" where
  "unknown_id isABC i s \<longleftrightarrow> isABC \<and> i \<notin> fst ` set (chip_ids (m_starCfg s))"

lemma hcc_ok_ID: "hcc_ok (h\<lparr>m_hccID := i\<rparr>) = hcc_ok h"
  by (simp add: hcc_ok_def hcc_vec.vwf_def)

lemma on_cfg_or_else:
  assumes "emu_inv a h K s" and "rsat (\<lambda>e. e = Out_Of_Range \<or> E e) (cfg_inv a h K) (f (m_starCfg s))"
  shows "rsat E (emu_inv a h K) (or_else (on_cfg f s) s)"
  by (rule or_else_ok) (rule on_cfg_ok [OF assms(1), where f = f, OF assms(2)], rule assms(1))

lemma writeRegister_ok:
  assumes "emu_inv a h K s"
  shows "rsat (\<lambda>e. e = Undefined \<and> unknown_id isABC i s) (emu_inv a h K) (writeRegister v addr isABC i s)"
proof -
  note c = emu_inv_cfg [OF assms]
  show ?thesis
  proof (cases isABC)
    case True
    have "rsat (\<lambda>e. e = Undefined \<and> unknown_id isABC i s) (emu_inv a h K)
        (or_else (on_cfg (\<lambda>c. setABCRegisterByID c (unat addr) v i) s) s)"
      by (rule on_cfg_or_else [OF assms], rule rsat_weaken [OF cfg_byID_any(1) [OF c]])
        (auto simp: unknown_id_def True)
    with assms show ?thesis by (simp add: writeRegister_def Let_def True)
  next
    case False
    have h17: "rok (\<lambda>_. True) (getHCCRegister (m_starCfg s) 17)"
    proof -
      have "17 \<in> hcc_addrs (m_hcc (m_starCfg s))" "cfg_ok (m_starCfg s)" using c hcc_regs [of h] by (simp_all add: cfg_inv_def)
      from cfg_hcc.get_in [OF this(2,1)] show ?thesis by (auto simp: rok_iff)
    qed
    have id: "cfg_inv a h K (sc_setHCCChipId t x)" if "cfg_inv a h K t" for t x
    proof -
      from that show ?thesis by (simp add: cfg_inv_def sc_setHCCChipId_def cfg_ok_def hcc_ok_ID)
    qed
    have r17: "hcc_has_reg h 17" using c hcc_regs [of h] by (simp add: cfg_inv_def)
    have w17: "rok (emu_inv a h K) (on_cfg (\<lambda>c. rbind (setHCCRegister c 17 v) (\<lambda>c. Inr (sc_setHCCChipId c (drop_bit 28 v)))) s)"
      by (rule on_cfg_ok [OF assms], rule rsat_bind [OF cfg_set_hcc [OF c r17]]) (simp add: id)
    have "rok (emu_inv a h K) (or_else (on_cfg (\<lambda>c. setHCCRegister c (unat addr) v) s) s)"
      by (rule on_cfg_or_else [OF assms], rule rsat_weaken [OF cfg_hcc_any(1) [OF c]]) simp_all
    with assms h17 w17 show ?thesis
      by (auto simp: writeRegister_def Let_def False rok_iff)
  qed
qed

lemma readRegister_ok:
  assumes "emu_inv a h K s"
  shows "rsat (\<lambda>e. e = Undefined \<and> unknown_id isABC i s) (emu_inv a h K) (readRegister addr isABC i s)"
proof -
  note c = emu_inv_cfg [OF assms]
  show ?thesis
  proof (cases isABC)
    case True
    show ?thesis
    proof (cases "map_of (chip_ids (m_starCfg s)) i")
      case None
      then have "unknown_id isABC i s" by (simp add: unknown_id_def True map_of_eq_None_iff)
      moreover have "hccChannelForABCchipID (m_starCfg s) i = Inl Undefined" by (simp add: abcFromChipID_ids None)
      ultimately show ?thesis by (simp add: readRegister_def True)
    next
      case (Some ic)
      from Some have "i \<in> fst ` set (chip_ids (m_starCfg s))" by (auto dest!: map_of_SomeD intro: rev_image_eqI)
      then have "rok (\<lambda>_. True) (or_else (getABCRegisterByID (m_starCfg s) (unat addr) i) 0xffffffff)"
        by (intro or_else_ok rsat_weaken [OF cfg_byID_any(2) [OF c]]) simp_all
      with assms show ?thesis
        unfolding readRegister_def cfg_channel(1) [OF c Some] by (auto simp: True Let_def rok_iff)
    qed
  next
    case False
    have "rok (\<lambda>_. True) (or_else (getHCCRegister (m_starCfg s) (unat addr)) 0xffffffff)"
      by (intro or_else_ok rsat_weaken [OF cfg_hcc_any(2) [OF c]]) simp_all
    with assms show ?thesis by (auto simp: readRegister_def False rok_iff)
  qed
qed

end
