(* ===== verification/Star_Emu_Safe.thy ===== *)
theory Star_Emu_Safe
  imports Star_Emu_Wf
begin

text \<open>
  Which frames can stop the emulator: the register command state machine, the triggers, and the
  decoders of both channels on well-formed chipsets.
\<close>

section \<open>Register command frames\<close>

lemma for_each_id_ok:
  assumes "emu_inv a h K s"
    and "\<And>i t. emu_inv a h K t \<Longrightarrow> rsat (\<lambda>e. e = Undefined \<and> unknown_id True i t) (emu_inv a h K) (f i t)"
  shows "rok (emu_inv a h K) (for_each_id f s)"
proof -
  have K: "map fst (m_ABCchips (m_starCfg s)) = K" using assms(1) by (simp add: emu_inv_def cfg_inv_def)
  show ?thesis
    unfolding for_each_id_def eachAbc_def K
  proof (rule rsat_fold)
    fix ic and t :: "('a, 'b) ChipsetEmu"
    assume ic: "ic \<in> set K" and t: "emu_inv a h K t"
    obtain abc k where abc: "abc_at (m_starCfg t) ic = Some abc" "abc_inv a abc" "ic < MaxABCsPerHCC"
      "sc_getABCchipID (m_starCfg t) (int (ic + 1)) = Inr (m_abcID abc)" "map_of (chip_ids (m_starCfg t)) (m_abcID abc) = Some k"
      by (rule abc_channel [OF t ic]) (rule that)
    from abc(5) have "\<not> unknown_id True (m_abcID abc) t"
      by (auto simp: unknown_id_def dest!: map_of_SomeD intro: rev_image_eqI)
    with assms(2) [OF t, of "m_abcID abc"] have "rok (emu_inv a h K) (f (m_abcID abc) t)" by simp
    then show "rok (emu_inv a h K) (rbind (readAbc ic (\<lambda>abc. Inr (m_abcID abc)) (m_starCfg t)) (\<lambda>i. f i t))"
      by (simp add: readAbc_at [OF abc(1)])
  qed (rule assms(1))
qed

text \<open>The identifier in the header of a command.\<close>

definition cmd_target :: "('g, 'o) ChipsetEmu \<Rightarrow> u32" where
  "cmd_target s = ucast (drop_bit 2 (hd (m_reg_cmd_buffer s)) AND 0xf)"

definition bad_target :: "('g, 'o) ChipsetEmu \<Rightarrow> bool" where
  "bad_target s \<longleftrightarrow> m_isForABC s \<and> cmd_target s \<noteq> 0xf \<and> cmd_target s \<notin> fst ` set (chip_ids (m_starCfg s))"

lemma one_or_all:
  assumes "emu_inv a h K s"
    and "\<And>b i t. emu_inv a h K t \<Longrightarrow> rsat (\<lambda>e. e = Undefined \<and> unknown_id b i t) (emu_inv a h K) (f b i t)"
  shows "rsat (\<lambda>e. e = Undefined \<and> b \<and> i \<noteq> 0xf \<and> unknown_id b i s) (emu_inv a h K)
    (if i = 0xf \<and> b then for_each_id (f True) s else f b i s)"
proof (cases "i = 0xf \<and> b")
  case True
  from for_each_id_ok [OF assms(1), where f = "f True", OF assms(2)] have "rok (emu_inv a h K) (for_each_id (f True) s)" .
  then show ?thesis unfolding if_P [OF True] by (rule rsat_weaken) simp_all
next
  case False
  from assms(2) [OF assms(1), of b i] show ?thesis
    unfolding if_not_P [OF False] by (rule rsat_weaken) (use False in \<open>auto simp: unknown_id_def\<close>)
qed

lemma execute_command_sequence_ok:
  assumes "emu_inv a h K s" and "2 \<le> length (m_reg_cmd_buffer s)"
  shows "rsat (\<lambda>e. e = Undefined \<and> bad_target s) (emu_inv a h K) (execute_command_sequence s)"
proof -
  from assms(2) obtain h1 h2 rest where b: "m_reg_cmd_buffer s = h1 # h2 # rest"
    by (metis One_nat_def Suc_1 Suc_le_length_iff)
  let ?id = "ucast (drop_bit 2 h1 AND 0xf) :: u32" and ?addr = "push_bit 6 (h1 AND 3) OR (drop_bit 1 h2 AND 0x3f)"
  have E: "bad_target s = (m_isForABC s \<and> ?id \<noteq> 0xf \<and> unknown_id (m_isForABC s) ?id (s\<lparr>m_reg_cmd_buffer := r\<rparr>))" for r
    by (auto simp: bad_target_def unknown_id_def cmd_target_def b)
  have rd: "rsat (\<lambda>e. e = Undefined \<and> bad_target s) (emu_inv a h K)
     (if ?id = 0xf \<and> m_isForABC s then for_each_id (readRegister ?addr True) (s\<lparr>m_reg_cmd_buffer := rest\<rparr>)
      else readRegister ?addr (m_isForABC s) ?id (s\<lparr>m_reg_cmd_buffer := rest\<rparr>))"
    unfolding E [of rest]
    by (rule one_or_all [where f = "readRegister ?addr"]) (use assms in \<open>simp_all add: readRegister_ok\<close>)
  have wr: "rsat (\<lambda>e. e = Undefined \<and> bad_target s) (emu_inv a h K)
     (if ?id = 0xf \<and> m_isForABC s then for_each_id (writeRegister v ?addr True) (s\<lparr>m_reg_cmd_buffer := []\<rparr>)
      else writeRegister v ?addr (m_isForABC s) ?id (s\<lparr>m_reg_cmd_buffer := []\<rparr>))" for v
    unfolding E [of "[]"]
    by (rule one_or_all [where f = "writeRegister v ?addr"]) (use assms in \<open>simp_all add: writeRegister_ok\<close>)
  have abc: "m_isForABC (s\<lparr>m_reg_cmd_buffer := r\<rparr>) = m_isForABC s"
    "s\<lparr>m_reg_cmd_buffer := q, m_reg_cmd_buffer := r\<rparr> = s\<lparr>m_reg_cmd_buffer := r\<rparr>" for q r by simp_all
  show ?thesis
    unfolding execute_command_sequence_def b list.case Let_def abc
    using rd wr [of "join_data rest"] assms(1)
    by (cases "bit h1 6"; cases "length rest = 5") (simp_all split del: if_split)
qed

lemma doRegReadWrite_ok:
  assumes "emu_inv a h K s"
  shows "rsat (\<lambda>e. if ucast (drop_bit 8 frame AND 0xff) = K2
      then e = Undefined \<and> \<not> bit (decode (ucast (frame AND 0xff))) 4 \<and> length (m_reg_cmd_buffer s) \<in> {2, 7} \<and> bad_target s
      else e = Aborted \<and> drop_bit 7 (push_bit 6 (ucast (decode (ucast (drop_bit 8 frame AND 0xff)))) OR
             ucast (decode (ucast (frame AND 0xff))) :: u16) \<noteq> 0)
    (emu_inv a h K) (doRegReadWrite frame s)"
proof -
  have ex: "rsat (\<lambda>e. e = Undefined \<and> bad_target s) (emu_inv a h K) (execute_command_sequence (s\<lparr>m_ignoreCmd := b\<rparr>))"
    if "length (m_reg_cmd_buffer s) \<in> {2, 7}" for b
  proof -
    from that have "2 \<le> length (m_reg_cmd_buffer (s\<lparr>m_ignoreCmd := b\<rparr>))" by auto
    from execute_command_sequence_ok [OF _ this] assms show ?thesis by (simp add: bad_target_def cmd_target_def)
  qed
  show ?thesis
  proof (cases "ucast (drop_bit 8 frame AND 0xff) = K2")
    case True
    have cond: "rsat (\<lambda>e. e = Undefined \<and> \<not> bt \<and> n \<in> {2, 7} \<and> B) P
        (if ig then Inr t else if bt then Inr u else if \<not> (n = 2 \<or> n = 7) then Inr t else r)"
      if "P t" "P u" "n \<in> {2, 7} \<Longrightarrow> rsat (\<lambda>e. e = Undefined \<and> B) P r" for bt ig :: bool and n :: nat and B P t u r
      using that by (auto elim!: rsat_weaken)
    have buf: "m_reg_cmd_buffer (s\<lparr>m_ignoreCmd := b\<rparr>) = m_reg_cmd_buffer s" for b by simp
    show ?thesis
      unfolding doRegReadWrite_def Let_def if_P [OF True] buf
      by (rule cond) (use assms ex in simp_all)
  qed (use assms in \<open>simp add: doRegReadWrite_def Let_def\<close>)
qed

section \<open>Triggers\<close>

lemma channel_of_chip:
  assumes "cfg_inv a h K c" and "abc_at c ic = Some abc"
  shows "rok (\<lambda>k. k < MaxABCsPerHCC) (hccChannelForABCchipID c (m_abcID abc))"
proof -
  obtain k where "map_of (chip_ids c) (m_abcID abc) = Some k" by (rule cfg_ids_at [OF assms]) (rule that)
  from cfg_channel [OF assms(1) this] show ?thesis by simp
qed

lemma put_clusters_ok: "k < MaxABCsPerHCC \<Longrightarrow> rok (\<lambda>_. True) (put_clusters k cl cls)"
  by (simp add: put_clusters_def)

lemma send_physics_inv: "emu_inv a h K (snd (snd r)) \<Longrightarrow> emu_inv a h K (send_physics t l r)"
  by (auto simp: send_physics_def Let_def split: prod.split)

lemma abc_at_putAbc [simp]: "abc_at (putAbc c ic abc) ic = Some abc"
  by (simp add: putAbc_def)

lemma evt_buffer_length: "emu_inv a h K s \<Longrightarrow> length (evt_buffer s i) = EvtBufDepth"
  by (auto simp: evt_buffer_def emu_inv_def split: option.split)

lemma emu_inv_evt:
  "emu_inv a h K s \<Longrightarrow> length b = EvtBufDepth \<Longrightarrow> emu_inv a h K (s\<lparr>m_evtbuffers_lite := (m_evtbuffers_lite s)(i \<mapsto> b)\<rparr>)"
  by (simp add: emu_inv_def)

text \<open>The data of one ABC for one trigger: reading the front end keeps the chipset well-formed and
  its configuration, and counting the hits changes only that ABC.\<close>

lemma readout_ok:
  assumes "emu_inv a h K s" and abc: "abc_at (m_starCfg s) ic = Some abc" and "l0addr < L0BufDepth"
    and "\<And>b hits g abc'. abc_kept a abc abc' \<Longrightarrow> cfg_inv a h K (putAbc (m_starCfg s) ic abc') \<Longrightarrow>
      rok P (f b hits (s\<lparr>m_random := g\<rparr>) abc')"
  shows "rok P (rbind (getFEData an abc l0addr s) (\<lambda>((b, hits), s).
    rbind (countHits (m_startHitCount s) abc hits) (\<lambda>abc'. f b hits s abc')))"
proof -
  have c: "cfg_inv a h K (m_starCfg s)" using assms(1) by (simp add: emu_inv_def)
  then have inv: "abc_inv a abc" using abc by (simp add: cfg_inv_def)
  have "rok (\<lambda>r. \<exists>g. snd r = s\<lparr>m_random := g\<rparr>) (getFEData an abc l0addr s)"
    by (rule getFEData_ok [OF inv]) (use assms(1,3) in \<open>simp_all add: emu_inv_def\<close>)
  then show ?thesis
  proof (rule rsat_bind)
    fix r :: "(u8 \<times> StripData) \<times> ('a, 'b) ChipsetEmu" assume "\<exists>g. snd r = s\<lparr>m_random := g\<rparr>"
    then obtain b hits g where r: "r = ((b, hits), s\<lparr>m_random := g\<rparr>)" by (metis prod.collapse)
    show "rok P ((\<lambda>((b, hits), s). rbind (countHits (m_startHitCount s) abc hits) (\<lambda>abc'. f b hits s abc')) r)"
      unfolding r prod.case
      by (rule rsat_bind [OF countHits_ok [OF inv]], rule assms(4), assumption) (rule cfg_inv_putAbc [OF c abc])
  qed
qed

lemma doL0A_multi_ok:
  assumes "emu_inv a h K s" and "ic \<in> set K"
  shows "rok (emu_inv a h K) (doL0A_multi an ibc l0a_tag ic s)"
proof -
  note c = emu_inv_cfg [OF assms(1)]
  obtain abc where abc: "abc_at (m_starCfg s) ic = Some abc" "abc_inv a abc" by (rule cfg_inv_at [OF c assms(2)]) (rule that)
  show ?thesis
    unfolding doL0A_multi_def readAbc_at [OF abc(1)] rbind_Inr Let_def
    apply (rule rsat_bind [OF getL0BufferAddr_ok [OF abc(2)]])
    apply (rule readout_ok [where a = a and h = h and K = K and ic = ic])
       apply (rule emu_inv_evt [OF assms(1)])
       apply (simp add: evt_buffer_length [OF assms(1)])
      apply (simp add: abc(1))
     apply assumption
    apply (simp only: rsat_simps ChipsetEmu.simps)
    apply (rule emu_inv_with_cfg)
     apply (simp add: emu_inv_evt assms(1) evt_buffer_length [OF assms(1)])
    apply simp
    done
qed

text \<open>The state of the loop over the ABCs in the single-level mode.\<close>

definition trip_ok :: "int \<Rightarrow> int \<Rightarrow> nat list \<Rightarrow> u8 \<times> u16 list list \<times> ('g, 'o) ChipsetEmu \<Rightarrow> bool" where
  "trip_ok a h K r \<longleftrightarrow> emu_inv a h K (snd (snd r))"

lemma trip_ok_simp [simp]: "trip_ok a h K (b, cl, s) = emu_inv a h K s"
  by (simp add: trip_ok_def)

lemma clusters_step_ok:
  assumes "emu_inv a h K s" and "abc_at (m_starCfg s) ic = Some abc" and "abc_inv a abc"
  shows "rok (trip_ok a h K) (rbind (getClusters abc hits) (\<lambda>cl.
    rbind (hccChannelForABCchipID (m_starCfg s) (m_abcID abc)) (\<lambda>chan.
    rbind (put_clusters chan cl clusters) (\<lambda>clusters. Inr (b, clusters, s)))))"
  apply (rule rsat_bind_any [OF getClusters_ok [OF assms(3)]])
  apply (rule rsat_bind [OF channel_of_chip [OF emu_inv_cfg [OF assms(1)] assms(2)]])
  apply (rule rsat_bind_any [OF put_clusters_ok], assumption)
  apply (simp add: assms(1))
  done

lemma doL0A_single_ok:
  assumes "trip_ok a h K r" and "ic \<in> set K"
  shows "rok (trip_ok a h K) (doL0A_single an ibc ic r)"
proof -
  obtain b cl s where r: "r = (b, cl, s)" by (cases r)
  with assms(1) have s: "emu_inv a h K s" by simp
  note c = emu_inv_cfg [OF s]
  obtain abc where abc: "abc_at (m_starCfg s) ic = Some abc" "abc_inv a abc" by (rule cfg_inv_at [OF c assms(2)]) (rule that)
  show ?thesis
    unfolding doL0A_single_def r prod.case readAbc_at [OF abc(1)] rbind_Inr Let_def
    apply (rule rsat_bind [OF getL0BufferAddr_ok [OF abc(2)]])
    apply (rule readout_ok [where a = a and h = h and K = K and ic = ic, OF s abc(1)], assumption)
    apply (rule rsat_bind_any [OF abc_inv_common [where a = a]], simp add: abc_kept_def, simp)
    apply (rule rsat_if)
     apply (rule clusters_step_ok [where ic = ic])
       apply (simp add: s emu_inv_with_cfg)
      apply simp
     apply (simp add: abc_kept_def)
    apply (simp add: s emu_inv_with_cfg)
    done
qed

lemma doL0A_ok:
  assumes "emu_inv a h K s"
  shows "rok (emu_inv a h K) (doL0A an bcr msk tag s)"
proof -
  have K: "map fst (m_ABCchips (m_starCfg t)) = K" if "emu_inv a h K t" for t :: "('a, 'b) ChipsetEmu"
    using that by (simp add: emu_inv_def cfg_inv_def)
  show ?thesis
    unfolding doL0A_def
    apply (rule rsat_bind_any [OF cfg_hcc_sub(1) [OF emu_inv_cfg [OF assms]]], simp)
    apply (rule rsat_fold [where I = "emu_inv a h K"], rule assms)
    apply (intro rsat_if)
      apply simp
     apply (rule rsat_bind [where Q = "trip_ok a h K"])
      apply (simp only: eachAbc_def K)
      apply (rule rsat_fold [where I = "trip_ok a h K"], simp)
      apply (rule doL0A_single_ok, assumption, assumption)
     apply (simp add: trip_ok_def send_physics_inv)
    apply (simp only: eachAbc_def K)
    apply (rule rsat_fold [where I = "emu_inv a h K"], assumption)
    apply (rule doL0A_multi_ok, assumption, assumption)
    done
qed

lemma event_addr: "unat (drop_bit 8 (e :: EvtBufData)) < L0BufDepth"
proof -
  have "unat (drop_bit 8 e) = unat e div 256" by (simp add: drop_bit_eq_div unat_div_distrib)
  moreover have "unat e < 2 ^ 17" using unsigned_less [of e] by simp
  ultimately show ?thesis by (simp add: L0BufDepth_def less_mult_imp_div_less)
qed

lemma doPRLP_abc_ok:
  assumes "trip_ok a h K r" and "ic \<in> set K" and "unat l0tag < EvtBufDepth"
  shows "rok (trip_ok a h K) (doPRLP_abc an l0tag isPR ic r)"
proof -
  obtain b cl s where r: "r = (b, cl, s)" by (cases r)
  with assms(1) have s: "emu_inv a h K s" by simp
  obtain abc where abc: "abc_at (m_starCfg s) ic = Some abc" "abc_inv a abc"
    by (rule cfg_inv_at [OF emu_inv_cfg [OF s] assms(2)]) (rule that)
  let ?id = "sint (m_abcID abc)"
  let ?s = "s\<lparr>m_evtbuffers_lite := (m_evtbuffers_lite s)(?id \<mapsto> evt_buffer s ?id)\<rparr>"
  have t: "emu_inv a h K ?s" by (rule emu_inv_evt [OF s evt_buffer_length [OF s]])
  have read: "rok (\<lambda>r. \<exists>g. snd r = ?s\<lparr>m_random := g\<rparr>) (getFEData an abc (unat (drop_bit 8 evtdata)) ?s)" for evtdata :: EvtBufData
    by (rule getFEData_ok [OF abc(2)]) (use t event_addr [of evtdata] in \<open>simp_all add: emu_inv_def\<close>)
  show ?thesis
    unfolding doPRLP_abc_def r prod.case readAbc_at [OF abc(1)] rbind_Inr Let_def
    apply (rule rsat_bind_any [OF abc_inv_common [OF abc(2)]], simp)
    apply (rule rsat_if)
     apply (simp add: s)
    apply (rule rsat_bind_any)
     apply (simp add: vec_read_def evt_buffer_length [OF t] assms(3))
    apply (rule rsat_bind [OF read], erule exE)
    apply (simp only: case_prod_beta)
    apply (rule clusters_step_ok [where ic = ic, OF _ _ abc(2)])
     apply (simp add: t)
    apply (simp add: abc(1))
    done
qed

lemma doPRLP_ok:
  assumes "emu_inv a h K s" and "unat l0tag < EvtBufDepth"
  shows "rok (emu_inv a h K) (doPRLP an msk l0tag s)"
proof -
  have K: "map fst (m_ABCchips (m_starCfg s)) = K"
    using assms(1) by (simp add: emu_inv_def cfg_inv_def)
  show ?thesis
    unfolding doPRLP_def Let_def
    apply (rule rsat_bind_any [OF cfg_hcc_sub(1) [OF emu_inv_cfg [OF assms(1)]]], simp)
    apply (intro rsat_if)
      apply (simp add: assms(1))
     apply (simp add: assms(1))
    apply (rule rsat_bind [where Q = "trip_ok a h K"])
     apply (simp only: eachAbc_def K)
     apply (rule rsat_fold [where I = "trip_ok a h K"], simp add: assms(1))
     apply (rule doPRLP_abc_ok [OF _ _ assms(2)], assumption, assumption)
    apply (simp add: trip_ok_def send_physics_inv)
    done
qed

section \<open>Frames\<close>

lemma decode_six:
  assumes "\<not> is_kcode x"
  shows "take_bit 6 (decode x) = decode x"
proof -
  have "list_all (\<lambda>(y, v). is_kcode y \<or> take_bit 6 v = v) decode_table" by code_simp
  then have "take_bit 6 v = v" if "map_of decode_table x = Some v" for v
    using that assms by (auto simp: list_all_iff dest!: map_of_SomeD)
  then show ?thesis by (simp add: decode_def and_literals split: option.split)
qed

lemma small_data12:
  fixes c d :: u8
  defines "x \<equiv> push_bit 6 (ucast (decode c)) OR ucast (decode d) :: u16"
  assumes k: "\<not> is_kcode c" "\<not> is_kcode d"
  shows "drop_bit 7 x AND 0x1f = 0 \<longleftrightarrow> drop_bit 7 x = 0" "drop_bit 7 x AND 0x1f = drop_bit 7 x"
proof -
  have six: "\<not> bit (decode c) n" "\<not> bit (decode d) n" if "6 \<le> n" for n
    using that k decode_six by (metis bit_take_bit_iff not_le)+
  show "drop_bit 7 x AND 0x1f = drop_bit 7 x"
    unfolding x_def and_literals by (rule bit_word_eqI) (auto simp: bits_simps six intro: ccontr)
  then show "drop_bit 7 x AND 0x1f = 0 \<longleftrightarrow> drop_bit 7 x = 0" by simp
qed

text \<open>All chipsets of an emulator, each with its versions and its input channels.\<close>

definition emus_inv :: "(int \<times> int \<times> nat list) list \<Rightarrow> ('g, 'o) StarEmu \<Rightarrow> bool" where
  "emus_inv ps e \<longleftrightarrow> list_all2 (\<lambda>s (a, h, K). emu_inv a h K s) (chipEmus e) ps"

definition emulator_ok :: "('g, 'o) StarEmu \<Rightarrow> bool" where
  "emulator_ok e \<longleftrightarrow> (\<forall>s \<in> set (chipEmus e). emu_ok s)"

definition emulator_shape :: "('g, 'o) StarEmu \<Rightarrow> (int \<times> int \<times> nat list) list" where
  "emulator_shape e =
     map (\<lambda>s. (emu_abc_version s, emu_hcc_version s, map fst (m_ABCchips (m_starCfg s)))) (chipEmus e)"

lemma emus_inv_iff: "emus_inv ps e \<longleftrightarrow> emulator_ok e \<and> emulator_shape e = ps"
proof -
  have "list_all2 (\<lambda>s (a, h, K). emu_inv a h K s) ss ps \<longleftrightarrow> (\<forall>s \<in> set ss. emu_ok s) \<and>
      map (\<lambda>s. (emu_abc_version s, emu_hcc_version s, map fst (m_ABCchips (m_starCfg s)))) ss = ps"
    for ss :: "('a, 'b) ChipsetEmu list"
  proof (induction ss arbitrary: ps)
    case (Cons s ss)
    have "(case p of (a, h, K) \<Rightarrow> emu_inv a h K s) \<longleftrightarrow> emu_ok s \<and>
        (emu_abc_version s, emu_hcc_version s, map fst (m_ABCchips (m_starCfg s))) = p" for p
      by (cases p) (auto simp: emu_ok_def emu_inv_def cfg_inv_def)
    with Cons show ?case by (cases ps) auto
  qed auto
  then show ?thesis by (simp add: emus_inv_def emulator_ok_def emulator_shape_def)
qed

lemma rmap_all2:
  assumes "list_all2 I xs ps" and "\<And>x p. p \<in> set ps \<Longrightarrow> I x p \<Longrightarrow> rsat E (\<lambda>y. I y p) (f x)"
  shows "rsat E (\<lambda>ys. list_all2 I ys ps) (rmap f xs)"
  using assms
proof (induction rule: list_all2_induct)
  case (Cons x xs p ps)
  have "rsat E (\<lambda>ys. list_all2 I ys ps) (rmap f xs)" by (rule Cons.IH) (simp add: Cons.prems)
  moreover have "rsat E (\<lambda>y. I y p) (f x)" by (rule Cons.prems) (simp_all add: Cons.hyps)
  ultimately show ?case
    by (auto simp: intro!: rsat_bind [where Q = "\<lambda>y. I y p"] rsat_bind [where Q = "\<lambda>ys. list_all2 I ys ps"])
qed simp

lemma each_chip_ok:
  assumes "emus_inv ps e" and "\<And>a h K s. (a, h, K) \<in> set ps \<Longrightarrow> emu_inv a h K s \<Longrightarrow> rsat E (emu_inv a h K) (f s)"
  shows "rsat E (emus_inv ps) (each_chip f e)"
  unfolding each_chip_def
  by (rule rsat_bind [OF rmap_all2 [OF assms(1) [unfolded emus_inv_def]]])
    (auto simp: emus_inv_def intro: assms(2))

lemma map_chips_ok:
  assumes "emus_inv ps e" and "\<And>a h K s. emu_inv a h K s \<Longrightarrow> emu_inv a h K (f s)"
  shows "emus_inv ps (e\<lparr>chipEmus := map f (chipEmus e)\<rparr>)"
  using assms(1) by (auto simp: emus_inv_def list_all2_map1 elim!: list_all2_mono intro: assms(2))

lemma emus_inv_fields [simp]:
  "emus_inv ps (e\<lparr>emu_bccnt := b\<rparr>) = emus_inv ps e" "emus_inv ps (e\<lparr>m_resetbc := r\<rparr>) = emus_inv ps e"
  "emus_inv ps (e\<lparr>m_txRingBuffer := rb\<rparr>) = emus_inv ps e" "emus_inv ps (e\<lparr>m_txRingBuffer2 := rb2\<rparr>) = emus_inv ps e"
  by (simp_all add: emus_inv_def)

lemma updateBC_ok: "emus_inv ps e \<Longrightarrow> emus_inv ps (updateBC e)"
  unfolding updateBC_def Let_def by (rule map_chips_ok) simp_all

text \<open>The faults an LCB frame can raise on an emulator with chipsets of the given versions.\<close>

definition lcb_fault :: "u16 \<Rightarrow> (int \<times> int \<times> nat list) list \<Rightarrow> fault \<Rightarrow> bool" where
  "lcb_fault frame ps f \<longleftrightarrow>
     (let code0 = ucast (drop_bit 8 frame AND 0xff) :: u8; v = decode (ucast (frame AND 0xff)) in
      is_valid_frame frame \<and>
      (f = Undefined \<and> code0 = K2 \<and> \<not> bit v 4 \<or>
       f = Out_Of_Range \<and> code0 = K3 \<and> fast_cmds ! unat (v AND 0xf) = HCC_PLL_RESET \<and> (\<exists>p \<in> set ps. fst (snd p) = 1)))"

lemma decodeLCB_inv:
  assumes "emus_inv ps e"
  shows "rsat (lcb_fault frame ps) (emus_inv ps) (decodeLCB an frame e)"
proof -
  let ?c0 = "ucast (drop_bit 8 frame AND 0xff) :: u8" and ?c1 = "ucast (frame AND 0xff) :: u8"
  have weak: "rsat E P r" if "rok P r" for E :: "fault \<Rightarrow> bool" and P and r :: "('a, 'b) StarEmu result"
    using that by (auto elim: rsat_weaken)
  have weak': "rsat E P r" if "rok P r" for E :: "fault \<Rightarrow> bool" and P and r :: "('a, 'b) ChipsetEmu result"
    using that by (auto elim: rsat_weaken)
  have trig: "rsat (lcb_fault frame ps) (emus_inv ps)
     (rbind (each_chip (doL0A an bcr m t) e) (\<lambda>e. Inr (if bcr then e\<lparr>m_resetbc := True\<rparr> else e)))"
    if "emus_inv ps e" for e :: "('a, 'b) StarEmu" and bcr m t
    by (rule rsat_bind [OF each_chip_ok [OF that weak' [OF doL0A_ok]]]) simp_all
  have reg: "rsat (lcb_fault frame ps) (emus_inv ps) (each_chip (doRegReadWrite frame) e)"
    if "emus_inv ps e" "is_valid_frame frame"
      "?c0 = K2 \<or> drop_bit 7 (push_bit 6 (ucast (decode ?c0)) OR ucast (decode ?c1) :: u16) = 0" for e :: "('a, 'b) StarEmu"
    by (rule each_chip_ok [OF that(1)], rule rsat_weaken [OF doRegReadWrite_ok], assumption)
      (use that(2,3) in \<open>auto simp: lcb_fault_def Let_def split: if_splits\<close>)
  have fast: "rsat (lcb_fault frame ps) (emus_inv ps) (each_chip (doFastCommand (decode ?c1)) e)"
    if "emus_inv ps e" "is_valid_frame frame" "?c0 = K3" for e :: "('a, 'b) StarEmu"
    by (rule each_chip_ok [OF that(1)], rule rsat_weaken [OF doFastCommand_ok], assumption)
      (use that(2,3) in \<open>force simp: lcb_fault_def Let_def\<close>)+
  show ?thesis
    unfolding decodeLCB_def Let_def
    apply (rule rsat_bind [OF each_chip_ok [OF assms weak' [OF doHPR_ok]]], assumption)
    apply (rule rsat_if, simp)
    apply (rule rsat_bind [where Q = "emus_inv ps"])
     apply (drule map_chips_ok [where f = fillL0Buffer], erule emu_inv_fillL0Buffer)
     apply (intro rsat_if)
         apply (erule trig)
        apply (rule reg, assumption, simp, use small_data12 in blast)
       apply (rule fast, assumption, simp, assumption)
      apply (rule reg, assumption, simp, simp)
     apply simp
    apply (simp add: updateBC_ok)
    done
qed

lemma decodeR3L1_inv:
  assumes "emus_inv ps e"
  shows "rsat (\<lambda>_. False) (emus_inv ps) (decodeR3L1 an frame e)"
proof -
  have "unat (ucast (x AND 0x7f :: u16) :: u8) < EvtBufDepth" for x :: u16
  proof -
    have "(ucast (x AND 0x7f :: u16) :: u8) = take_bit 7 (ucast x)"
      unfolding and_literals by (rule bit_word_eqI) (auto simp: bits_simps)
    then show ?thesis by (simp add: EvtBufDepth_def unsigned_take_bit_eq take_bit_nat_less_eq_self)
      (simp add: take_bit_nat_def)
  qed
  then show ?thesis
    unfolding decodeR3L1_def Let_def
    by (intro rsat_if each_chip_ok [OF assms] doPRLP_ok) (simp_all add: assms)
qed

section \<open>The loop\<close>

lemma each_chip_buffers:
  "each_chip f e = Inr t \<Longrightarrow> m_txRingBuffer t = m_txRingBuffer e \<and> m_txRingBuffer2 t = m_txRingBuffer2 e"
  by (auto simp: each_chip_def rbind_eq_Inr_iff)

definition same_buffers :: "('g, 'o) StarEmu \<Rightarrow> ('g, 'o) StarEmu \<Rightarrow> bool" where
  "same_buffers e t \<longleftrightarrow> m_txRingBuffer t = m_txRingBuffer e \<and> m_txRingBuffer2 t = m_txRingBuffer2 e"

lemma each_chip_same: "same_buffers e e' \<Longrightarrow> rsat (\<lambda>_. True) (same_buffers e) (each_chip f e')"
  by (auto simp: same_buffers_def rsat_def dest: each_chip_buffers split: sum.splits)

lemma same_buffers_refl: "same_buffers e e"
  by (simp add: same_buffers_def)

lemma same_buffers_updates [simp]:
  "same_buffers e (t\<lparr>chipEmus := cs\<rparr>) = same_buffers e t" "same_buffers e (t\<lparr>m_resetbc := b\<rparr>) = same_buffers e t"
  "same_buffers e (updateBC t) = same_buffers e t"
  by (simp_all add: same_buffers_def updateBC_def Let_def)

lemma decode_same_buffers:
  assumes "same_buffers e t"
  shows "rsat (\<lambda>_. True) (same_buffers e) (decodeLCB an frame t)" "rsat (\<lambda>_. True) (same_buffers e) (decodeR3L1 an frame t)"
proof -
  show "rsat (\<lambda>_. True) (same_buffers e) (decodeLCB an frame t)"
    unfolding decodeLCB_def Let_def
    apply (rule rsat_bind [OF each_chip_same [OF assms]])
    apply (rule rsat_if, simp)
    apply (rule rsat_bind [where Q = "same_buffers e"])
     apply (intro rsat_if each_chip_same rsat_bind [where Q = "same_buffers e"])
         apply simp_all
    done
  show "rsat (\<lambda>_. True) (same_buffers e) (decodeR3L1 an frame t)"
    unfolding decodeR3L1_def Let_def by (intro rsat_if each_chip_same assms) (simp_all add: assms)
qed

lemma decode_words_same:
  assumes "decode_words an d2 d e = Inr t"
  shows "same_buffers e t"
proof -
  have r: "rsat (\<lambda>_. True) (same_buffers e) (case d2 of None \<Rightarrow> Inr t | Some w \<Rightarrow> decodeR3L1 an (half w) t)"
    if "same_buffers e t" for t half
    using that by (cases d2) (simp_all add: decode_same_buffers)
  have "rsat (\<lambda>_. True) (same_buffers e) (decode_words an d2 d e)"
    unfolding decode_words_def Let_def
    by (rule rsat_bind [OF r], rule same_buffers_refl)
      (rule rsat_bind [OF decode_same_buffers(1)], assumption, rule rsat_bind [OF r], assumption, rule decode_same_buffers(1))
  with assms show ?thesis by simp
qed

text \<open>The words waiting in the buffers, in pairs when the emulator has both channels, and the buffers
  without the first of them.\<close>

definition waiting :: "('g, 'o) StarEmu \<Rightarrow> (u32 option \<times> u32) list" where
  "waiting e =
     (let ws = rb_buffer (m_txRingBuffer e) in
      case m_txRingBuffer2 e of
        None \<Rightarrow> map (\<lambda>w. (None, w)) ws
      | Some rb2 \<Rightarrow> zip (map Some (rb_buffer rb2)) ws)"

definition pop :: "RingBuffer \<Rightarrow> RingBuffer" where
  "pop rb = \<lparr>rb_buffer = tl (rb_buffer rb), rb_size = rb_size rb - 1\<rparr>"

definition pop_words :: "('g, 'o) StarEmu \<Rightarrow> ('g, 'o) StarEmu" where
  "pop_words e = e\<lparr>m_txRingBuffer := pop (m_txRingBuffer e), m_txRingBuffer2 := map_option pop (m_txRingBuffer2 e)\<rparr>"

definition buffers_ok :: "('g, 'o) StarEmu \<Rightarrow> bool" where
  "buffers_ok e \<longleftrightarrow> rb_ok (m_txRingBuffer e) \<and> (\<forall>rb2. m_txRingBuffer2 e = Some rb2 \<longrightarrow> rb_ok rb2)"

lemma rb_empty_iff: "rb_ok rb \<Longrightarrow> isEmpty rb \<longleftrightarrow> rb_buffer rb = []"
  by (auto simp: rb_ok_def isEmpty_def unat_eq_zero)

lemma rb_pop:
  assumes "rb_ok rb" and "\<not> isEmpty rb"
  shows "read32 rb = Inr (Some (hd (rb_buffer rb), pop rb))" "rb_ok (pop rb)"
proof -
  from assms(2) have s: "rb_size rb \<noteq> 0" by (simp add: isEmpty_def)
  from assms have n: "rb_buffer rb \<noteq> []" "rb_size rb \<noteq> 0" by (simp_all add: rb_empty_iff s)
  then show "read32 rb = Inr (Some (hd (rb_buffer rb), pop rb))"
    by (cases "rb_buffer rb") (simp_all add: read32_def take_front_def pop_def word_gt_0)
  have "unat (rb_size rb - 1) = unat (rb_size rb) - 1" using n(2) by (simp add: unat_minus_one)
  with assms show "rb_ok (pop rb)" by (simp add: rb_ok_def pop_def)
qed

lemma must_wait_iff: "buffers_ok e \<Longrightarrow> must_wait e \<longleftrightarrow> waiting e = []"
  by (auto simp: must_wait_def waiting_def Let_def buffers_ok_def rb_empty_iff zip_eq_Nil_iff split: option.splits)

lemma read_words_pop:
  assumes "buffers_ok e" and "\<not> must_wait e"
  shows "\<exists>d2 d. read_words e = Inr (Some (d2, d, pop_words e)) \<and> waiting e = (d2, d) # waiting (pop_words e)"
    "buffers_ok (pop_words e)"
proof -
  have rb: "rb_ok (m_txRingBuffer e)" "\<not> isEmpty (m_txRingBuffer e)"
    using assms by (auto simp: buffers_ok_def must_wait_def split: option.splits)
  then obtain w ws where ws: "rb_buffer (m_txRingBuffer e) = w # ws" by (auto simp: rb_empty_iff neq_Nil_conv)
  show "buffers_ok (pop_words e)"
    using assms by (auto simp: buffers_ok_def pop_words_def must_wait_def rb_pop(2) split: option.splits)
  show "\<exists>d2 d. read_words e = Inr (Some (d2, d, pop_words e)) \<and> waiting e = (d2, d) # waiting (pop_words e)"
  proof (cases "m_txRingBuffer2 e")
    case None
    then show ?thesis by (simp add: read_words_def rb_pop(1) [OF rb] pop_words_def waiting_def Let_def ws pop_def)
  next
    case (Some rb2)
    have rb2: "rb_ok rb2" "\<not> isEmpty rb2" using assms Some by (auto simp: buffers_ok_def must_wait_def)
    then obtain v vs where "rb_buffer rb2 = v # vs" by (auto simp: rb_empty_iff neq_Nil_conv)
    then show ?thesis
      by (simp add: read_words_def Some rb_pop(1) [OF rb] rb_pop(1) [OF rb2] pop_words_def waiting_def Let_def ws pop_def)
  qed
qed

lemma waiting_same: "same_buffers e t \<Longrightarrow> waiting t = waiting e \<and> buffers_ok t = buffers_ok e"
  by (simp add: same_buffers_def waiting_def buffers_ok_def)

text \<open>What the loop does: the waiting words in order, each taken from its buffer and decoded.\<close>

definition decode_waiting :: "('g, 'o) Analog \<Rightarrow> ('g, 'o) StarEmu \<Rightarrow> ('g, 'o) StarEmu result" where
  "decode_waiting an e = rfold (\<lambda>(d2, d) e. decode_words an d2 d (pop_words e)) (waiting e) e"

lemma executeLoop_fold:
  assumes "buffers_ok e" and "length (waiting e) \<le> turns"
  shows "executeLoop turns an e = decode_waiting an e" "rsat (\<lambda>_. True) must_wait (executeLoop turns an e)"
proof -
  have "executeLoop turns an e = decode_waiting an e \<and> rsat (\<lambda>_. True) must_wait (executeLoop turns an e)"
    using assms
  proof (induction turns arbitrary: e)
    case (Suc turns)
    show ?case
    proof (cases "must_wait e")
      case True
      then show ?thesis using must_wait_iff [OF Suc.prems(1)] by (simp add: decode_waiting_def)
    next
      case False
      from read_words_pop [OF Suc.prems(1) False] obtain d2 d where
        r: "read_words e = Inr (Some (d2, d, pop_words e))" "waiting e = (d2, d) # waiting (pop_words e)" "buffers_ok (pop_words e)"
        by blast
      show ?thesis
      proof (cases "decode_words an d2 d (pop_words e)")
        case (Inl f)
        then show ?thesis by (simp add: False r decode_waiting_def)
      next
        case (Inr t)
        from waiting_same [OF decode_words_same [OF Inr]] have t: "waiting t = waiting (pop_words e)" "buffers_ok t"
          using r(3) by simp_all
        have "executeLoop (Suc turns) an e = executeLoop turns an t" by (simp add: False r(1) Inr)
        moreover have "decode_waiting an e = decode_waiting an t" by (simp add: r(2) decode_waiting_def t(1) Inr)
        moreover have "length (waiting t) \<le> turns" using Suc.prems(2) by (simp add: r(2) t(1))
        ultimately show ?thesis using Suc.IH [OF t(2)] by metis
      qed
    qed
  qed (simp add: decode_waiting_def must_wait_iff)
  then show "executeLoop turns an e = decode_waiting an e" "rsat (\<lambda>_. True) must_wait (executeLoop turns an e)" by blast+
qed

lemma decode_words_inv:
  assumes "emus_inv ps e"
  shows "rsat (\<lambda>f. f \<noteq> Aborted) (emus_inv ps) (decode_words an d2 d e)"
proof -
  have r: "rsat (\<lambda>f. f \<noteq> Aborted) (emus_inv ps) (case d2 of None \<Rightarrow> Inr t | Some w \<Rightarrow> decodeR3L1 an (half w) t)"
    if t: "emus_inv ps t" for t half
    using t rsat_weaken [OF decodeR3L1_inv [OF t]] by (cases d2) simp_all
  have l: "rsat (\<lambda>f. f \<noteq> Aborted) (emus_inv ps) (decodeLCB an (half d) t)" if t: "emus_inv ps t" for t half
    by (rule rsat_weaken [OF decodeLCB_inv [OF t]]) (auto simp: lcb_fault_def Let_def)
  show ?thesis
    unfolding decode_words_def Let_def
    by (rule rsat_bind [OF r [OF assms]], rule rsat_bind [OF l], assumption, rule rsat_bind [OF r], assumption, rule l)
qed

lemma decode_waiting_inv:
  assumes "emus_inv ps e"
  shows "rsat (\<lambda>f. f \<noteq> Aborted) (emus_inv ps) (decode_waiting an e)"
  unfolding decode_waiting_def
  by (rule rsat_fold) (auto intro!: decode_words_inv simp: pop_words_def assms)

section \<open>Construction\<close>

lemma new_AbcCfg_inv:
  assumes "a \<in> {0, 1}" and "new_AbcCfg a = Inr abc"
  shows "abc_inv a abc"
proof -
  have le: "a \<le> 1" "abc_norm a = a" using assms(1) by auto
  obtain c where c: "new_AbcCfg a = Inr c" "abc_addrs c = Collect (abc_has_reg (abc_norm a))"
      "abcSubRegisterMap_all (abc_info c) = abc_fields a"
    by (rule new_AbcCfg_ok [OF le(1)]) (rule that)
  from new_AbcCfg_abc_ok [OF le(1)] assms(2) have "abc_ok abc" by auto
  with c assms(2) le(2) show ?thesis by (simp add: abc_inv_def)
qed

lemma addABC_inv:
  assumes "cfg_inv a h K c" and "m_abc_version c = a" and "ic < MaxABCsPerHCC" and "ic \<notin> set K"
  obtains t new where "addABCchipID_at c i ic = Inr t" "cfg_inv a h (map fst (m_ABCchips t)) t"
    "abc_at t = (abc_at c)(ic \<mapsto> new\<lparr>m_abcID := i\<rparr>)" "m_abc_version t = a" "abc_inv a (new\<lparr>m_abcID := i\<rparr>)"
proof -
  have c: "cfg_ok c" "a \<in> {0, 1}" "map fst (m_ABCchips c) = K" using assms(1) by (simp_all add: cfg_inv_def)
  have no: "abc_at c ic = None" using assms(4) unfolding map_of_eq_None_iff c(3) [symmetric] by simp
  obtain t new where t: "new_AbcCfg (m_abc_version c) = Inr new" "addABCchipID_at c i ic = Inr t" "cfg_ok t"
    "abc_at t = (abc_at c)(ic \<mapsto> (case abc_at c ic of None \<Rightarrow> new | Some old \<Rightarrow> old)\<lparr>m_abcID := i\<rparr>)" "m_hcc t = m_hcc c"
    by (rule addABC_spec [OF c(1) assms(3)]) (rule that)
  have at: "abc_at t = (abc_at c)(ic \<mapsto> new\<lparr>m_abcID := i\<rparr>)" using t(4) unfolding no option.case .
  have v: "m_abc_version t = a"
    using t(2) assms(2) by (auto simp: addABCchipID_at_def rbind_eq_Inr_iff Let_def split: option.splits)
  have new: "abc_inv a (new\<lparr>m_abcID := i\<rparr>)"
    using new_AbcCfg_inv [OF c(2)] t(1) assms(2) by (simp add: abc_inv_def)
  have "abc_inv a abc" if "abc_at t k = Some abc" for k abc
    using that assms(1) new by (auto simp: at cfg_inv_def split: if_splits)
  with t(3,5) assms(1) have "cfg_inv a h (map fst (m_ABCchips t)) t" by (simp add: cfg_inv_def)
  with t(2) at v new show thesis by (intro that)
qed

lemma default_chip_cfg_ok:
  assumes "a \<in> {0, 1}" and "h \<in> {0, 1}"
  obtains c where "default_chip_cfg i a h = Inr c" "cfg_inv a h (map fst (m_ABCchips c)) c"
proof -
  obtain c where c: "new_StarCfg a h = Inr c" "cfg_inv a h [] c" "m_abc_version c = a" "m_ABCchips c = []"
    by (rule new_cfg_inv [OF assms]) (rule that)
  let ?c = "sc_setHCCChipId c (of_nat i)"
  have inv: "cfg_inv a h [] ?c" using c(2) by (simp add: cfg_inv_def sc_setHCCChipId_def cfg_ok_def hcc_ok_ID)
  have v: "m_abc_version ?c = a" "m_ABCchips ?c = []" using c(3,4) by (simp_all add: sc_setHCCChipId_def)
  obtain t where "addABCchipID_at ?c 15 0 = Inr t" "cfg_inv a h (map fst (m_ABCchips t)) t"
    by (rule addABC_inv [OF inv v(1), of 0 15]) (simp_all add: MaxABCsPerHCC_def that)
  then show thesis by (intro that [of t]) (simp_all add: default_chip_cfg_def c(1) addABCchipID_def v(2))
qed

lemma rmap_total:
  assumes "\<And>x. x \<in> set xs \<Longrightarrow> rok P (f x)"
  shows "rok (\<lambda>ys. \<forall>y \<in> set ys. P y) (rmap f xs)"
  using assms
proof (induction xs)
  case (Cons x xs)
  then have "rok P (f x)" "rok (\<lambda>ys. \<forall>y \<in> set ys. P y) (rmap f xs)" by simp_all
  then show ?case by (auto simp: rok_iff)
qed simp

lemma new_StarEmu_ok:
  fixes gs :: "'g list" and gen :: "'o StripGenerator option"
  assumes "a \<in> {0, 1}" and "h \<in> {0, 1}" and "period \<noteq> 0" and "generator_ok a gen"
    and "\<And>c. Some c \<in> set cfgs \<Longrightarrow> cfg_inv a h (map fst (m_ABCchips c)) c"
  obtains e where "new_StarEmu rb rb2 cfgs gen gs period a h = Inr e" "emulator_ok e"
    "m_txRingBuffer e = rb" "m_txRingBuffer2 e = rb2"
proof -
  have one: "rok emu_ok (rbind (case cfg of None \<Rightarrow> default_chip_cfg i a h | Some c \<Rightarrow> Inr c)
      (\<lambda>c. new_ChipsetEmu c gen g period a h))" if "cfg \<in> set cfgs" for cfg i and g :: 'g
  proof -
    obtain c where c: "(case cfg of None \<Rightarrow> default_chip_cfg i a h | Some c \<Rightarrow> Inr c) = Inr c"
      "cfg_inv a h (map fst (m_ABCchips c)) c"
    proof (cases cfg)
      case None
      then show ?thesis using default_chip_cfg_ok [OF assms(1,2), of i] that by auto
    qed (use assms(5) \<open>cfg \<in> set cfgs\<close> that in auto)
    obtain s :: "('g, 'o) ChipsetEmu" where "new_ChipsetEmu c gen g period a h = Inr s" "emu_inv a h (map fst (m_ABCchips c)) s"
      by (rule new_ChipsetEmu_ok [OF c(2) assms(3,4)]) (rule that)
    then show ?thesis using c(1) by (auto simp: emu_ok_iff)
  qed
  have "rok (\<lambda>ss. \<forall>s \<in> set ss. emu_ok s) (rmap (new_chip gen period a h) (enumerate 0 (zip cfgs gs)))"
  proof (rule rmap_total)
    fix x assume "x \<in> set (enumerate 0 (zip cfgs gs))"
    then have "fst (snd x) \<in> set cfgs" by (metis in_set_zipE map_snd_enumerate image_eqI list.set_map prod.collapse)
    from one [OF this, of "fst x" "snd (snd x)"] show "rok emu_ok (new_chip gen period a h x)"
      by (simp add: new_chip_def case_prod_beta)
  qed
  then show thesis by (auto simp: rok_iff new_StarEmu_def emulator_ok_def intro: that)
qed

section \<open>Properties\<close>

text \<open>C4: Type safety of the emulator. On well-formed chipsets an LCB frame is decoded to the end and
  leaves the chipsets well-formed, with the same versions and the same input channels, unless it is
  the end of a register command (the only frame that can reach the use of an unknown ABC
  identifier), or the PLL reset of a version 1 HCC, whose registers 35 to 37 do not exist and
  whose exception nobody catches. In particular the branch that aborts the program is never
  reached.\<close>

theorem decodeLCB_safe:
  assumes "emulator_ok e"
  shows "rsat (lcb_fault frame (emulator_shape e)) (\<lambda>t. emulator_ok t \<and> emulator_shape t = emulator_shape e)
    (decodeLCB an frame e)"
  using decodeLCB_inv [of "emulator_shape e" e frame an] assms by (simp add: emus_inv_iff [abs_def])

theorem decodeLCB_safe_witness:
  "\<exists>e t. new_StarEmu new_RingBuffer None [None, None] (Some AnalogueModelGenerator) [(), ()] 40000 1 1 = Inr e \<and>
     decodeLCB example_analog IDLE e = Inr t \<and> emulator_ok t"
proof -
  obtain e :: "(unit, unit) StarEmu" where
    e: "new_StarEmu new_RingBuffer None [None, None] (Some AnalogueModelGenerator) [(), ()] 40000 1 1 = Inr e" "emulator_ok e"
    by (rule new_StarEmu_ok [of 1 1 40000 "Some AnalogueModelGenerator" "[None, None]"]) (auto simp: generator_ok_def)
  have "ucast (drop_bit 8 IDLE AND 0xff) \<noteq> K2 \<and> ucast (drop_bit 8 IDLE AND 0xff) \<noteq> K3" by code_simp
  then have "\<not> lcb_fault IDLE ps f" for ps f by (simp add: lcb_fault_def Let_def)
  with decodeLCB_safe [OF e(2), of IDLE example_analog] e(1) show ?thesis by (auto simp: rsat_def split: sum.splits)
qed

text \<open>C7: The loop of the emulator returns after as many turns as there are words to read, and it has
  decoded exactly the waiting words, in order (pairs of words when both channels are connected,
  until one of the buffers is empty), each taken from its buffer before it is decoded. On
  well-formed chipsets it never aborts and the chipsets stay well-formed.\<close>

theorem executeLoop_decodes:
  assumes "emulator_ok e" and "buffers_ok e" and "length (waiting e) \<le> turns"
  shows "executeLoop turns an e = decode_waiting an e \<and>
    rsat (\<lambda>f. f \<noteq> Aborted) (\<lambda>t. must_wait t \<and> emulator_ok t \<and> emulator_shape t = emulator_shape e) (executeLoop turns an e)"
  using executeLoop_fold [OF assms(2,3), of an] decode_waiting_inv [of "emulator_shape e" e an] assms(1)
  by (auto simp: emus_inv_iff rsat_def split: sum.splits)

theorem executeLoop_decodes_witness:
  "\<exists>e t. new_StarEmu (write32 0x78557855 new_RingBuffer) None [None] (Some AnalogueModelGenerator) [()] 40000 0 0 = Inr e \<and>
     length (waiting e) = 1 \<and> executeLoop 1 example_analog e = decode_waiting example_analog e"
proof -
  obtain e :: "(unit, unit) StarEmu" where
    e: "new_StarEmu (write32 0x78557855 new_RingBuffer) None [None] (Some AnalogueModelGenerator) [()] 40000 0 0 = Inr e"
      "emulator_ok e" "m_txRingBuffer e = write32 0x78557855 new_RingBuffer" "m_txRingBuffer2 e = None"
    by (rule new_StarEmu_ok [of 0 0 40000 "Some AnalogueModelGenerator" "[None]"]) (auto simp: generator_ok_def)
  have w: "length (waiting e) = 1" "buffers_ok e"
    by (simp_all add: waiting_def e(3,4) write32_def new_RingBuffer_def buffers_ok_def rb_ok_def)
  with executeLoop_decodes [OF e(2) w(2), of 1 example_analog] e(1) show ?thesis by auto
qed

end
