(* ===== verification/Star_Hpr.thy ===== *)
theory Star_Hpr
  imports Star_Emu_Safe
begin

text \<open>
  When the emulator sends HPR packets (\<open>doHPR\<close> in src/src/libStarEmu/StarChipsetEmu.cpp): the
  schedule of the periodic packets while \<open>STOPHPR\<close> and \<open>TESTHPR\<close> are off, exactly, with the wrap of
  the 32-bit counter, and what it means for the period.
\<close>

section \<open>The fields that control HPR packets\<close>

abbreviation hpr_names :: "string set" where
  "hpr_names \<equiv> {''TESTHPR'', ''STOPHPR'', ''MASKHPR''}"

lemma hcc_hpr_field:
  assumes "h \<in> {0, 1}" and "r \<in> hpr_names"
  obtains i where "hcc_fields h r = Some i" "m_regAddress i \<in> {16, 43}" "hcc_default h (m_regAddress i) = 0"
proof -
  have "list_all (\<lambda>v. list_all (\<lambda>r. list_ex (\<lambda>d. fst d = r \<and> fst (snd d) \<in> {16, 43}) (hccSubRegDefs v))
      [''TESTHPR'', ''STOPHPR'', ''MASKHPR'']) [0, 1]" by code_simp
  with assms have "\<exists>d \<in> set (hccSubRegDefs h). fst d = r \<and> fst (snd d) \<in> {16, 43}"
    unfolding list_all_iff list_ex_iff by (simp add: list.set) blast
  then obtain d where d: "d \<in> set (hccSubRegDefs h)" "fst d = r" "fst (snd d) \<in> {16, 43}" by blast
  have nv: "hcc_norm h = h" using assms(1) by auto
  have "distinct (map fst (hccSubRegDefs h))" using hcc_tables_ok [of h] unfolding nv by (simp add: table_ok_def)
  from table_lookup [OF this, of r "sub_of d"] d(1,2) have "hcc_fields h r = Some (sub_of d)"
    unfolding hcc_fields_def nv by blast
  then show thesis using d(3)
    by (intro that [of "sub_of d"]) (auto simp: sub_of_def hcc_default_def hcc_default_values_def split: prod.splits)
qed

lemma abc_hpr_field:
  assumes "abc_inv a abc" and "a \<in> {0, 1}" and "r \<in> hpr_names"
  obtains i where "abcSubRegisterMap_all (abc_info abc) r = Some i" "m_regAddress i \<noteq> 63" "abc_default (m_regAddress i) = 0"
proof -
  have "list_all (\<lambda>v. list_all (\<lambda>r. list_ex (\<lambda>d. fst d = r \<and> fst (snd d) \<in> {0, 32}) (abc_subregdefs v))
      [''TESTHPR'', ''STOPHPR'', ''MASKHPR'']) [0, 1]" by code_simp
  with assms have "\<exists>d \<in> set (abc_subregdefs a). fst d = r \<and> fst (snd d) \<in> {0, 32}"
    unfolding list_all_iff list_ex_iff by (simp add: list.set) blast
  then obtain d where d: "d \<in> set (abc_subregdefs a)" "fst d = r" "fst (snd d) \<in> {0, 32}" by blast
  have nv: "abc_norm a = a" using assms(2) by auto
  have "distinct (map fst (abc_subregdefs a))" using abc_tables_ok [of a] by (simp add: table_ok_def)
  from table_lookup [OF this, of r "sub_of d"] d(1,2) have "abc_fields a r = Some (sub_of d)"
    unfolding abc_fields_def nv by blast
  then show thesis
    using d(3) assms(1) by (intro that [of "sub_of d"]) (auto simp: abc_inv_def sub_of_def abc_default_def split: prod.splits)
qed

text \<open>Two configurations with the same control fields and identifiers.\<close>

definition hpr_same :: "nat list \<Rightarrow> StarCfg \<Rightarrow> StarCfg \<Rightarrow> bool" where
  "hpr_same K c d \<longleftrightarrow> chip_ids d = chip_ids c \<and> (\<forall>r \<in> hpr_names.
     getHCCSubRegisterValue d r = getHCCSubRegisterValue c r \<and>
     (\<forall>ic \<in> set K. getABCSubRegisterValue d ic r = getABCSubRegisterValue c ic r))"

lemma hpr_same_hcc:
  assumes "cfg_inv a h K c" and "setHCCRegister c r v = Inr d" and "r \<notin> {16, 43}"
  shows "hpr_same K c d"
proof -
  have ok: "cfg_ok c" and h: "h \<in> {0, 1}" "hccSubRegisterMap_all (hcc_info (m_hcc c)) = hcc_fields h"
    using assms(1) by (simp_all add: cfg_inv_def)
  have f: "hccSubRegisterMap_all (hcc_info (m_hcc d)) = hcc_fields h"
    using assms(2) h(2) by (auto simp: setHCCRegister_def rbind_eq_Inr_iff hcc_set_info)
  have m: "m_ABCchips d = m_ABCchips c" using setHCC_frame [OF assms(2)] by simp
  have "getHCCSubRegisterValue d n = getHCCSubRegisterValue c n" if n: "n \<in> hpr_names" for n
  proof -
    obtain i where "hcc_fields h n = Some i" "m_regAddress i \<noteq> r"
      by (rule hcc_hpr_field [OF h(1) n]) (use assms(3) that in auto)
    with cfg_hcc.put_Inr(5) [OF ok assms(2), of "m_regAddress i"] show ?thesis
      by (simp add: getHCCSub_store f h(2))
  qed
  moreover have "isAbcForInputChannel d ic = isAbcForInputChannel c ic" for ic
    by (simp add: isAbcForInputChannel_def m)
  moreover from this have "abcForInputChannel d i = abcForInputChannel c i" for i
    by (simp add: abcForInputChannel_def abcFromIndex_def m cong: if_cong)
  ultimately have "\<forall>r \<in> hpr_names. getHCCSubRegisterValue d r = getHCCSubRegisterValue c r"
    "getABCSubRegisterValue d ic r = getABCSubRegisterValue c ic r" for ic r
    by (simp_all add: getABCSubRegisterValue_def cong: if_cong)
  then show ?thesis by (simp add: hpr_same_def chip_ids_def m)
qed

lemma getABCSub_at:
  assumes "cfg_ok c" and "abc_at c ic = Some abc"
  shows "getABCSubRegisterValue c ic r = abc_getSubRegisterValue abc r"
  using isAbc_iff [OF assms(1) cfg_ok_abc(1) [OF assms]] assms(2)
  by (simp add: getABCSubRegisterValue_def abcForInputChannel_at [OF assms])

lemma hpr_same_abc:
  assumes "cfg_inv a h K c" and "setABCRegisterByID c 63 v i = Inr d"
  shows "hpr_same K c d"
proof -
  have ok: "cfg_ok c" and a: "a \<in> {0, 1}" using assms(1) by (simp_all add: cfg_inv_def)
  note laws = setByID_laws [OF ok assms(2)]
  obtain k where k: "abcFromChipID c i = Inr k" "chan_put k c 63 v = Inr d" "chan_ok k c"
    by (rule setByID_Inr [OF ok assms(2)]) (rule that)
  from k(3) obtain abc where abc: "abc_at c k = Some abc" by (auto simp: chan_ok_def)
  have inv: "abc_inv a abc" "abc_ok abc" using assms(1) abc by (auto simp: cfg_inv_def abc_inv_def)
  from k(2) obtain abc' where t: "abc_setRegisterValue abc 63 v = Inr abc'" "d = putAbc c k abc'"
    by (auto simp: chan_put_def withAbc_at [OF abc] rbind_eq_Inr_iff)
  have "getABCSubRegisterValue d ic r = getABCSubRegisterValue c ic r" if ic: "ic \<in> set K" and r: "r \<in> hpr_names" for ic r
  proof -
    obtain x where x: "abc_at c ic = Some x" "abc_inv a x" by (rule cfg_inv_at [OF assms(1) ic]) (rule that)
    show ?thesis
    proof (cases "ic = k")
      case True
      have at: "abc_at d ic = Some abc'" by (simp add: t(2) True)
      obtain f where f: "abcSubRegisterMap_all (abc_info abc) r = Some f" "m_regAddress f \<noteq> 63"
        by (rule abc_hpr_field [OF inv(1) a r]) (rule that)
      from abc_field.put_Inr(5) [OF inv(2) t(1) f(2)] f(1) abc_set_info [OF t(1)] show ?thesis
        by (simp add: getABCSub_at [OF laws(1) at] getABCSub_at [OF ok x(1)] abc_getSub_store) (use x(1) abc True in simp)
    next
      case False
      then have "abc_at d ic = Some x" using x(1) chan_put_Inr(8) [OF ok k(2)] by simp
      then show ?thesis by (simp add: getABCSub_at [OF laws(1)] getABCSub_at [OF ok x(1)])
    qed
  qed
  moreover have "getHCCSubRegisterValue d r = getHCCSubRegisterValue c r" for r
    by (simp add: getHCCSubRegisterValue_def laws(3))
  ultimately show ?thesis by (simp add: hpr_same_def laws(2))
qed

section \<open>One frame\<close>

definition hpr_off :: "nat list \<Rightarrow> StarCfg \<Rightarrow> bool" where
  "hpr_off K c \<longleftrightarrow> getHCCSubRegisterValue c ''STOPHPR'' = Inr 0 \<and> getHCCSubRegisterValue c ''TESTHPR'' = Inr 0 \<and>
     (\<forall>ic \<in> set K. getABCSubRegisterValue c ic ''STOPHPR'' = Inr 0 \<and> getABCSubRegisterValue c ic ''TESTHPR'' = Inr 0)"

lemma hpr_off_same: "hpr_same K c d \<Longrightarrow> hpr_off K d = hpr_off K c"
  by (simp add: hpr_same_def hpr_off_def)

text \<open>The packets of one turn: the HCC, then the ABCs on the input channels below their number.\<close>

definition hcc_hpr_packet :: "u16 \<Rightarrow> u32 list" where
  "hcc_hpr_packet frame = sendPacket_words (buildHCCRegisterPacket PT_HCCHPR 15 (hcc_hpr_word frame))"

definition abc_hpr_packet :: "u16 \<Rightarrow> nat \<Rightarrow> u32 \<Rightarrow> u32 list" where
  "abc_hpr_packet frame ic abcID =
     sendPacket_words (buildABCRegisterPacket PT_ABCHPR (of_nat ic) 63 (abc_hpr_word frame) (ucast (push_bit 12 (abcID AND 0xf))))"

definition abc_hpr_packets :: "u16 \<Rightarrow> (u32 \<times> nat) list \<Rightarrow> nat \<Rightarrow> u32 list list" where
  "abc_hpr_packets frame ids ic =
     map (\<lambda>(i, _). abc_hpr_packet frame ic i) (filter (\<lambda>(_, k). k = ic) ids)"

definition hpr_packets :: "u16 \<Rightarrow> (u32 \<times> nat) list \<Rightarrow> u32 list list" where
  "hpr_packets frame ids = hcc_hpr_packet frame # concat (map (abc_hpr_packets frame ids) [0..<length ids])"

text \<open>A chipset with the given control fields, counter and identifiers.\<close>

definition hpr_state :: "int \<Rightarrow> int \<Rightarrow> nat list \<Rightarrow> (u32 \<times> nat) list \<Rightarrow> u32 \<Rightarrow> u32 \<Rightarrow> ('g, 'o) ChipsetEmu \<Rightarrow> bool" where
  "hpr_state a h K ids p n s \<longleftrightarrow> emu_inv a h K s \<and> hpr_off K (m_starCfg s) \<and> chip_ids (m_starCfg s) = ids \<and>
     HPRPERIOD s = p \<and> hpr_clkcnt s = n"

lemma hpr_state_cfg:
  assumes "hpr_state a h K ids p n s" and "cfg_inv a h K d" and "hpr_same K (m_starCfg s) d"
  shows "hpr_state a h K ids p n (s\<lparr>m_starCfg := d\<rparr>)"
  using assms hpr_off_same [OF assms(3)] by (simp add: hpr_state_def emu_inv_with_cfg hpr_same_def)

lemma hpr_state_sent:
  "hpr_state a h K ids p n s \<Longrightarrow> length hs = length (hpr_sent s) \<Longrightarrow> hpr_state a h K ids p n ((sendPacket b s)\<lparr>hpr_sent := hs\<rparr>)"
  by (auto simp: hpr_state_def sendPacket_def emu_inv_def)

lemma hpr_send_cases:
  assumes "r = Inr (if b then (sendPacket x t)\<lparr>hpr_sent := hs\<rparr> else t)"
    and "I t" and "I ((sendPacket x t)\<lparr>hpr_sent := hs\<rparr>)" and "m_rxbuffer t = rx"
  obtains u where "r = Inr u" "I u" "m_rxbuffer u = rx @ (if b then [sendPacket_words x] else [])"
  using assms that [of "if b then (sendPacket x t)\<lparr>hpr_sent := hs\<rparr> else t"] by (auto simp: sendPacket_def)

lemma emu_hcc_step:
  assumes "hpr_state a h K ids p n s"
  obtains t where "doHPR_HCC frame s = Inr t" "hpr_state a h K ids p n t"
    "m_rxbuffer t = m_rxbuffer s @ (if n mod p = 0 then [hcc_hpr_packet frame] else [])"
proof -
  have s: "emu_inv a h K s" and off: "hpr_off K (m_starCfg s)" and p: "p \<noteq> 0" "HPRPERIOD s = p" "hpr_clkcnt s = n"
    and len: "0 < length (hpr_sent s)"
    using assms by (simp_all add: hpr_state_def emu_inv_def) (auto simp: emu_inv_def)
  have c: "cfg_inv a h K (m_starCfg s)" using s by (simp add: emu_inv_def)
  have h15: "hcc_has_reg h 15" using hcc_regs [of h] c by (simp add: cfg_inv_def)
  from cfg_set_hcc [OF c h15, of "hcc_hpr_word frame"] obtain d where
    d: "setHCCRegister (m_starCfg s) 15 (hcc_hpr_word frame) = Inr d" "cfg_inv a h K d" by (auto simp: rok_iff)
  note same = hpr_same_hcc [OF c d(1), simplified]
  have offd: "hpr_off K d" using off hpr_off_same [OF same] by simp
  have read: "getHCCRegister d 15 = Inr (hcc_hpr_word frame)"
    using cfg_hcc.put_Inr(4) [OF _ d(1)] c by (simp add: cfg_inv_def)
  obtain m where m: "getHCCSubRegisterValue d ''MASKHPR'' = Inr m"
    using cfg_hcc_sub(1) [OF d(2), of "''MASKHPR''"] by (auto simp: rok_iff)
  let ?s = "s\<lparr>m_starCfg := d\<rparr>"
  have st: "hpr_state a h K ids p n ?s" by (rule hpr_state_cfg [OF assms d(2) same])
  have "doHPR_HCC frame s = Inr (if n mod p = 0
      then (sendPacket (buildHCCRegisterPacket PT_HCCHPR 15 (hcc_hpr_word frame)) ?s)\<lparr>hpr_sent := (hpr_sent s)[0 := True]\<rparr> else ?s)"
    using offd p len
    by (simp add: doHPR_HCC_def setHCCStarHPR_def on_cfg_def d(1) hpr_off_def m Let_def hpr_phase_def vec_read_def read sendPacket_def)
  then show thesis
    by (rule hpr_send_cases) (rule st, rule hpr_state_sent [OF st], simp, simp,
      rule that, assumption+, simp add: hcc_hpr_packet_def cong: if_cong)
qed

lemma chip_ids_channel:
  assumes "cfg_ok c"
  shows "filter (\<lambda>(_, k). k = ic) (chip_ids c) = (case abc_at c ic of None \<Rightarrow> [] | Some abc \<Rightarrow> [(m_abcID abc, ic)])"
proof -
  have "filter (\<lambda>(_, k). k = ic) (map (\<lambda>p. (m_abcID (snd p), fst p)) m) =
      (case map_of m ic of None \<Rightarrow> [] | Some abc \<Rightarrow> [(m_abcID abc, ic)])" if "distinct (map fst m)" for m
    using that
  proof (induction m)
    case (Cons p m)
    then have "map_of m (fst p) = None" by (simp add: map_of_eq_None_iff)
    with Cons show ?case by (cases p) auto
  qed simp
  moreover have "distinct (map fst (m_ABCchips c))" using assms by (simp add: cfg_ok_def omap_ok_distinct)
  ultimately show ?thesis by (simp add: chip_ids_def)
qed

lemma emu_inv_count:
  assumes "emu_inv a h K s"
  shows "numABCs (m_starCfg s) = length K" "length K \<le> MaxABCsPerHCC"
proof -
  have K: "map fst (m_ABCchips (m_starCfg s)) = K" "cfg_ok (m_starCfg s)" using assms by (simp_all add: emu_inv_def cfg_inv_def)
  then show "numABCs (m_starCfg s) = length K" by (auto simp: numABCs_def)
  have "distinct K" using omap_ok_distinct [of "m_ABCchips (m_starCfg s)"] K by (simp add: cfg_ok_def)
  moreover have "set K \<subseteq> {..<MaxABCsPerHCC}"
    by (rule subsetI) (rule cfg_inv_at [OF emu_inv_cfg [OF assms]], assumption, simp)
  ultimately show "length K \<le> MaxABCsPerHCC"
    using card_mono [of "{..<MaxABCsPerHCC}" "set K"] by (simp add: distinct_card)
qed

lemma emu_abc_step:
  assumes "hpr_state a h K ids p n s" and "ic < length K"
  obtains t where "rbind (isAbcForInputChannel (m_starCfg s) ic) (\<lambda>present. if \<not> present then Inr s else doHPR_ABC frame (ic + 1) s) = Inr t"
    "hpr_state a h K ids p n t"
    "m_rxbuffer t = m_rxbuffer s @ (if n mod p = 0 then abc_hpr_packets frame ids ic else [])"
proof -
  have s: "emu_inv a h K s" and off: "hpr_off K (m_starCfg s)" and p: "p \<noteq> 0" "HPRPERIOD s = p" "hpr_clkcnt s = n"
    and len: "ic + 1 < length (hpr_sent s)" and ids: "chip_ids (m_starCfg s) = ids"
    using assms by (simp_all add: hpr_state_def emu_inv_def) (auto simp: emu_inv_def)
  have c: "cfg_inv a h K (m_starCfg s)" "cfg_ok (m_starCfg s)" using s by (simp_all add: emu_inv_def cfg_inv_def)
  have K: "length K \<le> MaxABCsPerHCC" by (rule emu_inv_count(2) [OF s])
  have pr: "isAbcForInputChannel (m_starCfg s) ic = Inr (abc_at (m_starCfg s) ic \<noteq> None)"
    by (rule isAbc_iff [OF c(2)]) (use assms(2) K in simp)
  show thesis
  proof (cases "abc_at (m_starCfg s) ic")
    case None
    have "abc_hpr_packets frame ids ic = []"
      using chip_ids_channel [OF c(2), of ic] by (simp add: abc_hpr_packets_def None ids)
    then show thesis by (intro that [of s]) (simp_all add: pr None assms(1))
  next
    case (Some abc)
    have ic: "ic \<in> set K" by (rule cfg_inv_key [OF c(1) Some])
    obtain k where id: "sc_getABCchipID (m_starCfg s) (int (ic + 1)) = Inr (m_abcID abc)"
      "map_of (chip_ids (m_starCfg s)) (m_abcID abc) = Some k"
    proof -
      from abc_channel [OF s ic] show thesis using Some that by (metis option.inject)
    qed
    from cfg_getByID(2) [OF c(1) id(2) abc_hpr_reg [OF s], of "abc_hpr_word frame"] obtain d where
      d: "setABCRegisterByID (m_starCfg s) 63 (abc_hpr_word frame) (m_abcID abc) = Inr d" "cfg_inv a h K d"
      by (auto simp: rok_iff)
    note same = hpr_same_abc [OF c(1) d(1)]
    have offd: "hpr_off K d" using off hpr_off_same [OF same] by simp
    have read: "getABCRegisterByID d 63 (m_abcID abc) = Inr (abc_hpr_word frame)" by (rule setByID_laws(7) [OF c(2) d(1)])
    let ?s = "s\<lparr>m_starCfg := d\<rparr>"
    have st: "hpr_state a h K ids p n ?s" by (rule hpr_state_cfg [OF assms(1) d(2) same])
    obtain m where m: "getABCSubRegisterValue d ic ''MASKHPR'' = Inr m"
      using chan_sub(1) [of a h K ?s ic "''MASKHPR''"] st ic by (auto simp: rok_iff hpr_state_def)
    have packets: "abc_hpr_packets frame ids ic = [abc_hpr_packet frame ic (m_abcID abc)]"
      using chip_ids_channel [OF c(2), of ic] by (simp add: abc_hpr_packets_def Some ids)
    have "doHPR_ABC frame (ic + 1) s = Inr (if n mod p = 0
        then (sendPacket (buildABCRegisterPacket PT_ABCHPR (of_nat ic) 63 (abc_hpr_word frame)
           (ucast (push_bit 12 (m_abcID abc AND 0xf)))) ?s)\<lparr>hpr_sent := (hpr_sent s)[ic + 1 := True]\<rparr> else ?s)"
      using offd p len ic
      unfolding doHPR_ABC_def id(1)
      by (simp add: setABCStarHPR_def on_cfg_def d(1) hpr_off_def m Let_def hpr_phase_def vec_read_def read sendPacket_def)
    then show thesis
      by (rule hpr_send_cases) (rule st, rule hpr_state_sent [OF st], simp, simp,
        rule that, simp add: pr Some, assumption, simp add: packets abc_hpr_packet_def cong: if_cong)
  qed
qed

lemma rfold_output:
  assumes "I s" and "\<And>x s. x \<in> set xs \<Longrightarrow> I s \<Longrightarrow> \<exists>t. f x s = Inr t \<and> I t \<and> out t = out s @ g x"
  shows "\<exists>t. rfold f xs s = Inr t \<and> I t \<and> out t = out s @ concat (map g xs)"
  using assms
proof (induction xs arbitrary: s)
  case (Cons x xs)
  obtain u where u: "f x s = Inr u" "I u" "out u = out s @ g x" using Cons.prems(2) [of x s] Cons.prems(1) by auto
  have "\<exists>t. rfold f xs u = Inr t \<and> I t \<and> out t = out u @ concat (map g xs)"
    by (rule Cons.IH [OF u(2)]) (simp add: Cons.prems(2))
  with u show ?case by auto
qed simp

lemma emu_hpr_step:
  assumes "hpr_state a h K ids p n s"
  shows "\<exists>t. doHPR frame s = Inr t \<and> hpr_state a h K ids p (n + 4) t \<and>
    m_rxbuffer t = m_rxbuffer s @ (if n mod p = 0 then hpr_packets frame ids else [])"
proof -
  let ?I = "hpr_state a h K ids p n"
  obtain u where u: "doHPR_HCC frame s = Inr u" "?I u"
    "m_rxbuffer u = m_rxbuffer s @ (if n mod p = 0 then [hcc_hpr_packet frame] else [])"
    by (rule emu_hcc_step [OF assms]) (rule that)
  have inv: "emu_inv a h K u" and ids: "length K = length ids"
    using u(2) by (auto simp: hpr_state_def emu_inv_def cfg_inv_def chip_ids_def)
  let ?f = "\<lambda>ichip s. rbind (isAbcForInputChannel (m_starCfg s) (ichip - 1)) (\<lambda>present. if \<not> present then Inr s else doHPR_ABC frame ichip s)"
  let ?g = "\<lambda>ichip. if n mod p = 0 then abc_hpr_packets frame ids (ichip - 1) else []"
  have "\<exists>t. rfold ?f [1..<length K + 1] u = Inr t \<and> ?I t \<and> m_rxbuffer t = m_rxbuffer u @ concat (map ?g [1..<length K + 1])"
  proof (rule rfold_output [where I = ?I and out = m_rxbuffer, OF u(2)])
    fix ichip and t :: "('a, 'b) ChipsetEmu"
    assume "ichip \<in> set [1..<length K + 1]" and t: "?I t"
    then have "ichip = ichip - 1 + 1" "ichip - 1 < length K" by auto
    from emu_abc_step [OF t this(2), of frame] this(1)
    show "\<exists>v. ?f ichip t = Inr v \<and> ?I v \<and> m_rxbuffer v = m_rxbuffer t @ ?g ichip" by metis
  qed
  then obtain t where t: "rfold ?f [1..<length K + 1] u = Inr t" "?I t"
    "m_rxbuffer t = m_rxbuffer u @ concat (map ?g [1..<length K + 1])" by blast
  have "[1..<length K + 1] = map Suc [0..<length K]" by (simp add: map_Suc_upt)
  then have "concat (map ?g [1..<length K + 1]) = (if n mod p = 0 then concat (map (abc_hpr_packets frame ids) [0..<length ids]) else [])"
    by (simp add: comp_def ids)
  with t(3) u(3) have rx: "m_rxbuffer t = m_rxbuffer s @ (if n mod p = 0 then hpr_packets frame ids else [])"
    by (simp add: hpr_packets_def)
  have "doHPR frame s = Inr (t\<lparr>hpr_clkcnt := hpr_clkcnt t + 4\<rparr>)"
    unfolding doHPR_def u(1) rbind_Inr emu_inv_count(1) [OF inv] t(1) ..
  moreover have "hpr_state a h K ids p (n + 4) (t\<lparr>hpr_clkcnt := hpr_clkcnt t + 4\<rparr>)"
    using t(2) by (simp add: hpr_state_def)
  ultimately show ?thesis using rx by auto
qed

text \<open>Any number of frames: the counter, modulo \<open>2 ^ 32\<close>, decides when packets are sent.\<close>

definition hpr_due :: "u32 \<Rightarrow> u32 \<Rightarrow> nat \<Rightarrow> bool" where
  "hpr_due p n i \<longleftrightarrow> (n + 4 * of_nat i) mod p = 0"

lemma emu_hpr_run:
  assumes "hpr_state a h K ids p n s"
  shows "\<exists>t. rfold doHPR fs s = Inr t \<and> hpr_state a h K ids p (n + 4 * of_nat (length fs)) t \<and>
    m_rxbuffer t = m_rxbuffer s @ concat (map (\<lambda>i. if hpr_due p n i then hpr_packets (fs ! i) ids else []) [0..<length fs])"
  using assms
proof (induction fs arbitrary: n s)
  case (Cons f fs)
  from emu_hpr_step [OF Cons.prems, of f] obtain u where
    u: "doHPR f s = Inr u" "hpr_state a h K ids p (n + 4) u" "m_rxbuffer u = m_rxbuffer s @ (if n mod p = 0 then hpr_packets f ids else [])"
    by blast
  from Cons.IH [OF u(2)] obtain t where t: "rfold doHPR fs u = Inr t" "hpr_state a h K ids p (n + 4 + 4 * of_nat (length fs)) t"
    "m_rxbuffer t = m_rxbuffer u @ concat (map (\<lambda>i. if hpr_due p (n + 4) i then hpr_packets (fs ! i) ids else []) [0..<length fs])"
    by blast
  have up: "[0..<length (f # fs)] = 0 # map Suc [0..<length fs]" by (simp add: map_Suc_upt upt_conv_Cons del: upt_Suc)
  have due: "hpr_due p n (Suc i) = hpr_due p (n + 4) i" for i by (simp add: hpr_due_def algebra_simps)
  have run: "rfold doHPR (f # fs) s = Inr t" by (simp add: u(1) t(1))
  have cnt: "n + 4 * of_nat (length (f # fs)) = n + 4 + 4 * of_nat (length fs)" by (simp add: algebra_simps)
  have due0: "hpr_due p n 0 \<longleftrightarrow> n mod p = 0" by (simp add: hpr_due_def)
  have rx: "m_rxbuffer t = m_rxbuffer s @ concat (map (\<lambda>i. if hpr_due p n i then hpr_packets ((f # fs) ! i) ids else []) [0..<length (f # fs)])"
    unfolding up list.map concat.simps due0 nth_Cons_0 t(3) u(3) append_assoc by (simp add: comp_def due cong: if_cong)
  show ?case using run t(2) rx unfolding cnt by blast
qed simp

section \<open>The schedule from the start\<close>

lemma hpr_due_nat:
  assumes "unat n + 4 * i < 2 ^ 32"
  shows "hpr_due p n i \<longleftrightarrow> (unat n + 4 * i) mod unat p = 0"
proof -
  have "n + 4 * of_nat i = of_nat (unat n + 4 * i)" by simp
  then have "unat (n + 4 * of_nat i) = (unat n + 4 * i) mod 2 ^ LENGTH(32)" by (simp only: unat_of_nat)
  then have "unat (n + 4 * of_nat i) = unat n + 4 * i" using assms by simp
  then show ?thesis by (simp add: hpr_due_def unat_eq_zero [symmetric] unat_mod del: unat_eq_0 mod_eq_0_iff_dvd)
qed

text \<open>The counter starts at half the period and grows by four a frame. With a period of \<open>8 * q\<close> the
  turns at which it meets a multiple of the period are those congruent to \<open>q\<close> modulo \<open>2 * q\<close>; with
  \<open>8 * q + 4\<close> there are none.\<close>

lemma period_schedule:
  fixes q i :: nat
  shows "0 < q \<Longrightarrow> (8 * q div 2 + 4 * i) mod (8 * q) = 0 \<longleftrightarrow> i mod (2 * q) = q"
    "((8 * q + 4) div 2 + 4 * i) mod (8 * q + 4) \<noteq> 0"
proof -
  assume q: "0 < q"
  have "(8 * q div 2 + 4 * i) mod (8 * q) = 4 * ((q + i) mod (2 * q))"
    using mult_mod_right [of 4 "q + i" "2 * q"] by (simp add: algebra_simps)
  moreover have "(q + i) mod (2 * q) = 0 \<longleftrightarrow> i mod (2 * q) = q"
  proof -
    let ?r = "i mod (2 * q)"
    have r: "?r < 2 * q" using q by simp
    have "(q + i) mod (2 * q) = (q + ?r) mod (2 * q)" by (simp only: mod_add_right_eq)
    also have "\<dots> = (if ?r < q then q + ?r else ?r - q)"
    proof (cases "?r < q")
      case False
      then have "(q + ?r) mod (2 * q) = (q + ?r - 2 * q) mod (2 * q)" by (intro le_mod_geq) simp
      also have "\<dots> = ?r - q" using r False by (simp add: algebra_simps)
      finally show ?thesis using False by simp
    qed simp
    finally show ?thesis using q by (simp split: if_splits)
  qed
  ultimately show "(8 * q div 2 + 4 * i) mod (8 * q) = 0 \<longleftrightarrow> i mod (2 * q) = q" by simp
next
  have "(8 * q + 4) div 2 + 4 * i = 2 + 4 * (q + i)" by simp
  then have "((8 * q + 4) div 2 + 4 * i) mod 4 = 2 mod 4" by (simp only: mod_mult_self2)
  then have "\<not> 4 dvd (8 * q + 4) div 2 + 4 * i" by (simp add: dvd_eq_mod_eq_0)
  moreover have "4 dvd 8 * q + 4" by simp
  ultimately show "((8 * q + 4) div 2 + 4 * i) mod (8 * q + 4) \<noteq> 0" by (meson dvd_trans mod_0_imp_dvd)
qed

text \<open>In any window of \<open>2 * q\<close> turns there is exactly one that is due.\<close>

lemma next_turn:
  fixes q k :: nat
  assumes "0 < q"
  obtains i where "k \<le> i" "i < k + 2 * q" "i mod (2 * q) = q"
    "\<And>j. k \<le> j \<Longrightarrow> j < k + 2 * q \<Longrightarrow> j mod (2 * q) = q \<longleftrightarrow> j = i"
proof -
  obtain m r where k: "k = 2 * q * m + r" and r: "r < 2 * q"
    using assms by (intro that [of "k div (2 * q)" "k mod (2 * q)"]) simp_all
  define i where "i = 2 * q * (if r \<le> q then m else m + 1) + q"
  have i: "i mod (2 * q) = q" using assms by (simp add: i_def)
  have "2 * q * (m + 1) = 2 * q * m + 2 * q" by simp
  then have w: "k \<le> i" "i < k + 2 * q" using k r assms by (auto simp: i_def)
  have "j = i" if "k \<le> j" "j < k + 2 * q" "j mod (2 * q) = q" for j
  proof -
    have far: "2 * q \<le> b - a" if "a < b" "a mod (2 * q) = b mod (2 * q)" for a b
    proof -
      have "2 * q dvd b - a" using that mod_eq_dvd_iff_nat [of a b "2 * q"] by simp
      then show ?thesis using that(1) by (intro dvd_imp_le) simp_all
    qed
    have e: "i mod (2 * q) = j mod (2 * q)" using i that(3) by simp
    have "\<not> i < j" using far [OF _ e] that(2) w(1) by linarith
    moreover have "\<not> j < i" using far [OF _ e [symmetric]] that(1) w(2) by linarith
    ultimately show "j = i" by simp
  qed
  then have "j mod (2 * q) = q \<longleftrightarrow> j = i" if "k \<le> j" "j < k + 2 * q" for j using that i by blast
  with w i show thesis by (rule that)
qed

text \<open>The defaults of both chips leave the control fields off.\<close>

lemma default_chip_hpr_off:
  assumes "a \<in> {0, 1}" and "h \<in> {0, 1}"
  obtains c where "default_chip_cfg i a h = Inr c" "cfg_inv a h (map fst (m_ABCchips c)) c"
    "hpr_off (map fst (m_ABCchips c)) c"
proof -
  have le: "a \<le> 1" "h \<le> 1" "hcc_norm h = h" using assms by auto
  obtain c0 where c0: "new_StarCfg a h = Inr c0" "cfg_ok c0" "m_ABCchips c0 = []" "m_abc_version c0 = a" "m_hcc_version c0 = h"
      "hccSubRegisterMap_all (hcc_info (m_hcc c0)) = hcc_fields h" "new_HccCfg h = Inr (m_hcc c0)"
    by (rule new_StarCfg_ok [OF le(1,2)]) (rule that)
  let ?c = "sc_setHCCChipId c0 (of_nat i)"
  have c1: "cfg_ok ?c" "m_abc_version ?c = a" "m_ABCchips ?c = []" "m_hcc ?c = (m_hcc c0)\<lparr>m_hccID := of_nat i\<rparr>"
    using c0 by (simp_all add: sc_setHCCChipId_def cfg_ok_def hcc_ok_ID)
  have mx: "(0 :: nat) < MaxABCsPerHCC" by (simp add: MaxABCsPerHCC_def)
  obtain t new where t: "new_AbcCfg (m_abc_version ?c) = Inr new" "addABCchipID_at ?c 15 0 = Inr t" "cfg_ok t"
      "abc_at t = (abc_at ?c)(0 \<mapsto> (case abc_at ?c 0 of None \<Rightarrow> new | Some old \<Rightarrow> old)\<lparr>m_abcID := 15\<rparr>)" "m_hcc t = m_hcc ?c"
    by (rule addABC_spec [OF c1(1) mx]) (rule that)
  obtain c where c: "default_chip_cfg i a h = Inr c" "cfg_inv a h (map fst (m_ABCchips c)) c"
    by (rule default_chip_cfg_ok [OF assms]) (rule that)
  have ct: "c = t" using c(1) t(2) c0(1) c1(3) by (simp add: default_chip_cfg_def addABCchipID_def)
  have at: "abc_at t = [0 \<mapsto> new\<lparr>m_abcID := 15\<rparr>]" using t(4) c1(3) by (simp add: fun_eq_iff)
  obtain hc where hc: "new_HccCfg h = Inr hc" "\<And>a. a \<in> hcc_addrs hc \<Longrightarrow> hcc_getRegisterValue hc a = Inr (hcc_default h a)"
    by (rule new_HccCfg_ok [OF le(2)]) (rule that)
  have hcc: "getHCCSubRegisterValue t r = Inr 0" if r: "r \<in> hpr_names" for r
  proof -
    obtain f where f: "hcc_fields h r = Some f" "hcc_default h (m_regAddress f) = 0"
      by (rule hcc_hpr_field [OF assms(2) r]) (rule that)
    have "hccSubRegisterMap_all (hcc_info (m_hcc c0)) r = Some f" by (simp add: c0(6) f(1))
    from cfg_hcc.field_in [OF c0(2) this] have "m_regAddress f \<in> hcc_addrs (m_hcc c0)" by simp
    with hc c0(7) f(2) have "hcc_getRegisterValue (m_hcc c0) (m_regAddress f) = Inr 0" by simp
    moreover have "hcc_getRegisterValue (m_hcc t) = hcc_getRegisterValue (m_hcc c0)"
      by (simp add: t(5) c1(4) fun_eq_iff hcc_getRegisterValue_def hcc_getRegister_def cong: option.case_cong)
    ultimately show ?thesis
      by (simp add: getHCCSub_store getHCCRegister_def t(5) c1(4) c0(6) f(1) sub_getValue_def)
  qed
  obtain n where n: "new_AbcCfg a = Inr n" "\<And>x. x \<in> abc_addrs n \<Longrightarrow> abc_getRegisterValue n x = Inr (abc_default x)"
    by (rule new_AbcCfg_ok [OF le(1)]) (rule that)
  have abc: "getABCSubRegisterValue t 0 r = Inr 0" if r: "r \<in> hpr_names" for r
  proof -
    have new: "abc_inv a new" by (rule new_AbcCfg_inv [OF assms(1)]) (use t(1) c1(2) in simp)
    obtain f where f: "abcSubRegisterMap_all (abc_info new) r = Some f" "abc_default (m_regAddress f) = 0"
      by (rule abc_hpr_field [OF new assms(1) r]) (rule that)
    have "abc_ok new" using new by (simp add: abc_inv_def)
    from abc_field.field_in [OF this f(1)] have "m_regAddress f \<in> abc_addrs new" by simp
    with n t(1) c1(2) f(2) have "abc_getRegisterValue new (m_regAddress f) = Inr 0" by simp
    moreover have "abc_getRegisterValue (new\<lparr>m_abcID := 15\<rparr>) = abc_getRegisterValue new"
      by (simp add: fun_eq_iff abc_getRegisterValue_def abc_getRegister_def cong: option.case_cong)
    ultimately show ?thesis
      using at f(1) by (simp add: getABCSub_at [OF t(3)] abc_getSub_store sub_getValue_def)
  qed
  have "set (map fst (m_ABCchips t)) \<subseteq> {0}"
  proof
    fix k assume "k \<in> set (map fst (m_ABCchips t))"
    then have "abc_at t k \<noteq> None" by (auto simp: map_of_eq_None_iff)
    then show "k \<in> {0}" by (simp add: at split: if_splits)
  qed
  then have "hpr_off (map fst (m_ABCchips t)) t"
    using hcc abc unfolding hpr_off_def by blast
  with c ct show thesis by (intro that [of c]) simp_all
qed

section \<open>Properties\<close>

lemma hpr_start:
  assumes "emu_ok s" and "hpr_off (map fst (m_ABCchips (m_starCfg s))) (m_starCfg s)"
  shows "hpr_state (emu_abc_version s) (emu_hcc_version s) (map fst (m_ABCchips (m_starCfg s)))
    (chip_ids (m_starCfg s)) (HPRPERIOD s) (hpr_clkcnt s) s"
  using assms by (simp add: hpr_state_def emu_ok_def)

lemma example_hpr:
  fixes period :: u32
  assumes "period \<noteq> 0"
  obtains s :: "(unit, unit) ChipsetEmu" where "new_chip (Some AnalogueModelGenerator) period 1 1 (0, None, ()) = Inr s" "emu_ok s"
    "hpr_off (map fst (m_ABCchips (m_starCfg s))) (m_starCfg s)" "HPRPERIOD s = period" "hpr_clkcnt s = period div 2"
    "m_rxbuffer s = []"
proof -
  obtain c where c: "default_chip_cfg 0 1 1 = Inr c" "cfg_inv 1 1 (map fst (m_ABCchips c)) c" "hpr_off (map fst (m_ABCchips c)) c"
    by (rule default_chip_hpr_off [of 1 1 0]) auto
  have gen: "generator_ok 1 (Some AnalogueModelGenerator :: unit StripGenerator option)" by (simp add: generator_ok_def)
  obtain s :: "(unit, unit) ChipsetEmu" and d where s: "new_ChipsetEmu c (Some AnalogueModelGenerator) () period 1 1 = Inr s"
      "emu_inv 1 1 (map fst (m_ABCchips c)) s"
      "setHCCRegister c 17 (push_bit 28 (sc_getHCCchipID c AND 0xf) OR (sc_getHCCfuseID c AND 0xffffff)) = Inr d"
      "m_starCfg s = d" "m_ABCchips d = m_ABCchips c" "m_rxbuffer s = []" "HPRPERIOD s = period" "hpr_clkcnt s = period div 2"
    by (rule new_ChipsetEmu_ok [OF c(2) assms gen]) (rule that)
  have "hpr_off (map fst (m_ABCchips c)) d"
    using c(3) hpr_off_same [OF hpr_same_hcc [OF c(2) s(3)]] by simp
  with s c(1) show thesis by (intro that [of s]) (auto simp: new_chip_def emu_ok_iff)
qed

text \<open>C11: When HPR packets are sent. On a well-formed chipset whose \<open>STOPHPR\<close> and \<open>TESTHPR\<close> fields are
  off, any frames make \<open>doHPR\<close> return, and it sends, for exactly the frames at which the 32-bit
  counter is a multiple of the period, one packet of the HCC and one of each ABC on an input channel
  below the number of ABCs, with the frame in them.\<close>

theorem hpr_schedule:
  assumes "emu_ok s" and "hpr_off (map fst (m_ABCchips (m_starCfg s))) (m_starCfg s)"
  shows "\<exists>t. rfold doHPR fs s = Inr t \<and> emu_ok t \<and>
    m_rxbuffer t = m_rxbuffer s @ concat (map (\<lambda>i.
      if (hpr_clkcnt s + 4 * of_nat i) mod HPRPERIOD s = 0 then hpr_packets (fs ! i) (chip_ids (m_starCfg s)) else [])
      [0..<length fs])"
  using emu_hpr_run [OF hpr_start [OF assms], of fs]
  by (auto simp: hpr_due_def hpr_state_def emu_ok_iff)

text \<open>C10: What that means for the period, from the start (or a logic reset), where the counter is half
  the period, and as long as it does not wrap. When the period is a multiple of 8, among any
  consecutive frames that span one period of bunch crossings (a quarter of the period, as a frame is
  four) exactly one turn sends the HPR packets, and the others leave the buffer as it is; when it is
  an odd multiple of 4, none are ever sent.\<close>

theorem hpr_liveness:
  assumes "emu_ok s" and "hpr_off (map fst (m_ABCchips (m_starCfg s))) (m_starCfg s)"
    and "hpr_clkcnt s = HPRPERIOD s div 2" and "unat (HPRPERIOD s) div 2 + 4 * length fs \<le> 2 ^ 32"
  shows "(8 dvd unat (HPRPERIOD s) \<longrightarrow> (\<forall>k. k + unat (HPRPERIOD s) div 4 \<le> length fs \<longrightarrow>
      (\<exists>i. k \<le> i \<and> i < k + unat (HPRPERIOD s) div 4 \<and>
        (\<forall>j. k \<le> j \<and> j < k + unat (HPRPERIOD s) div 4 \<longrightarrow>
          (\<exists>t u. rfold doHPR (take j fs) s = Inr t \<and> doHPR (fs ! j) t = Inr u \<and>
             m_rxbuffer u = m_rxbuffer t @ (if j = i then hpr_packets (fs ! j) (chip_ids (m_starCfg s)) else [])))))) \<and>
    (unat (HPRPERIOD s) mod 8 = 4 \<longrightarrow> (\<exists>t. rfold doHPR fs s = Inr t \<and> m_rxbuffer t = m_rxbuffer s))"
proof (intro conjI impI allI)
  let ?P = "unat (HPRPERIOD s)"
  note start = hpr_start [OF assms(1,2)]
  have p0: "?P \<noteq> 0" using assms(1) by (simp add: emu_ok_def emu_inv_def unat_eq_zero)
  have due: "hpr_due (HPRPERIOD s) (hpr_clkcnt s) i \<longleftrightarrow> (?P div 2 + 4 * i) mod ?P = 0" if "i < length fs" for i
  proof -
    have h: "unat (hpr_clkcnt s) = ?P div 2" by (simp add: assms(3) unat_div)
    with assms(4) that have "unat (hpr_clkcnt s) + 4 * i < 2 ^ 32" by simp
    from hpr_due_nat [OF this] h show ?thesis by simp
  qed
  have turn: "\<exists>t u. rfold doHPR (take j fs) s = Inr t \<and> doHPR (fs ! j) t = Inr u \<and>
      m_rxbuffer u = m_rxbuffer t @ (if hpr_due (HPRPERIOD s) (hpr_clkcnt s) j then hpr_packets (fs ! j) (chip_ids (m_starCfg s)) else [])"
    if "j < length fs" for j
  proof -
    from emu_hpr_run [OF start, of "take j fs"] that obtain t where t: "rfold doHPR (take j fs) s = Inr t"
      "hpr_state (emu_abc_version s) (emu_hcc_version s) (map fst (m_ABCchips (m_starCfg s)))
         (chip_ids (m_starCfg s)) (HPRPERIOD s) (hpr_clkcnt s + 4 * of_nat j) t" by auto
    from emu_hpr_step [OF t(2), of "fs ! j"] t(1) show ?thesis unfolding hpr_due_def by blast
  qed
  {
    fix k assume "8 dvd ?P" and k: "k + ?P div 4 \<le> length fs"
    then obtain q where q: "?P = 8 * q" by (auto elim: dvdE)
    with p0 have "0 < q" by simp
    then obtain i where i: "k \<le> i" "i < k + 2 * q"
      "\<And>j. k \<le> j \<Longrightarrow> j < k + 2 * q \<Longrightarrow> j mod (2 * q) = q \<longleftrightarrow> j = i" by (rule next_turn) blast
    have "\<exists>t u. rfold doHPR (take j fs) s = Inr t \<and> doHPR (fs ! j) t = Inr u \<and>
        m_rxbuffer u = m_rxbuffer t @ (if j = i then hpr_packets (fs ! j) (chip_ids (m_starCfg s)) else [])"
      if j: "k \<le> j" "j < k + ?P div 4" for j
    proof -
      have len: "j < length fs" using j k by simp
      have "hpr_due (HPRPERIOD s) (hpr_clkcnt s) j \<longleftrightarrow> j = i"
        using due [OF len] period_schedule(1) [OF \<open>0 < q\<close>, of j] i(3) [of j] j q by simp
      with turn [OF len] show ?thesis by simp
    qed
    with i(1,2) q show "\<exists>i. k \<le> i \<and> i < k + ?P div 4 \<and> (\<forall>j. k \<le> j \<and> j < k + ?P div 4 \<longrightarrow>
        (\<exists>t u. rfold doHPR (take j fs) s = Inr t \<and> doHPR (fs ! j) t = Inr u \<and>
           m_rxbuffer u = m_rxbuffer t @ (if j = i then hpr_packets (fs ! j) (chip_ids (m_starCfg s)) else [])))"
      by (intro exI [of _ i]) simp
  }
  assume "?P mod 8 = 4"
  then obtain q where q: "?P = 8 * q + 4" by (metis mult_div_mod_eq)
  have "\<not> hpr_due (HPRPERIOD s) (hpr_clkcnt s) i" if "i < length fs" for i
    using due [OF that] period_schedule(2) [of q i] q by simp
  then have "concat (map (\<lambda>i. if hpr_due (HPRPERIOD s) (hpr_clkcnt s) i then hpr_packets (fs ! i) (chip_ids (m_starCfg s)) else [])
      [0..<length fs]) = []" by simp
  with emu_hpr_run [OF start, of fs] show "\<exists>t. rfold doHPR fs s = Inr t \<and> m_rxbuffer t = m_rxbuffer s" by fastforce
qed

theorem hpr_schedule_witness:
  "\<exists>s t. new_chip (Some AnalogueModelGenerator) 8 1 1 (0, None, ()) = Inr (s :: (unit, unit) ChipsetEmu) \<and>
     rfold doHPR [IDLE, IDLE] s = Inr t \<and> m_rxbuffer t = hpr_packets IDLE (chip_ids (m_starCfg s))"
proof -
  obtain s :: "(unit, unit) ChipsetEmu" where s: "new_chip (Some AnalogueModelGenerator) 8 1 1 (0, None, ()) = Inr s" "emu_ok s"
    "hpr_off (map fst (m_ABCchips (m_starCfg s))) (m_starCfg s)" "HPRPERIOD s = 8" "hpr_clkcnt s = 8 div 2" "m_rxbuffer s = []"
    by (rule example_hpr [of 8]) (simp, rule that)
  from hpr_schedule [OF s(2,3), of "[IDLE, IDLE]"] obtain t where
    "rfold doHPR [IDLE, IDLE] s = Inr t" "m_rxbuffer t = hpr_packets IDLE (chip_ids (m_starCfg s))"
    by (auto simp: s(4-6))
  with s(1) show ?thesis by blast
qed

theorem hpr_liveness_witness:
  "(\<exists>s t. new_chip (Some AnalogueModelGenerator) 12 1 1 (0, None, ()) = Inr (s :: (unit, unit) ChipsetEmu) \<and>
     rfold doHPR (replicate 1000 IDLE) s = Inr t \<and> m_rxbuffer t = []) \<and>
   (\<exists>s i. new_chip (Some AnalogueModelGenerator) 16 1 1 (0, None, ()) = Inr (s :: (unit, unit) ChipsetEmu) \<and>
     40 \<le> i \<and> i < 44 \<and> (\<forall>j. 40 \<le> j \<and> j < 44 \<longrightarrow>
       (\<exists>t u. rfold doHPR (replicate j IDLE) s = Inr t \<and> doHPR IDLE t = Inr u \<and>
          m_rxbuffer u = m_rxbuffer t @ (if j = i then hpr_packets IDLE (chip_ids (m_starCfg s)) else []))))"
proof -
  obtain s :: "(unit, unit) ChipsetEmu" where s: "new_chip (Some AnalogueModelGenerator) 12 1 1 (0, None, ()) = Inr s" "emu_ok s"
    "hpr_off (map fst (m_ABCchips (m_starCfg s))) (m_starCfg s)" "HPRPERIOD s = 12" "hpr_clkcnt s = 12 div 2" "m_rxbuffer s = []"
    by (rule example_hpr [of 12]) (simp, rule that)
  have "hpr_clkcnt s = HPRPERIOD s div 2" "unat (HPRPERIOD s) div 2 + 4 * length (replicate 1000 IDLE) \<le> 2 ^ 32"
    by (simp_all add: s(4,5))
  note never = hpr_liveness [OF s(2,3) this, THEN conjunct2]
  obtain v :: "(unit, unit) ChipsetEmu" where v: "new_chip (Some AnalogueModelGenerator) 16 1 1 (0, None, ()) = Inr v" "emu_ok v"
    "hpr_off (map fst (m_ABCchips (m_starCfg v))) (m_starCfg v)" "HPRPERIOD v = 16" "hpr_clkcnt v = 16 div 2" "m_rxbuffer v = []"
    by (rule example_hpr [of 16]) (simp, rule that)
  have "hpr_clkcnt v = HPRPERIOD v div 2" "unat (HPRPERIOD v) div 2 + 4 * length (replicate 100 IDLE) \<le> 2 ^ 32"
    by (simp_all add: v(4,5))
  from hpr_liveness [OF v(2,3) this, THEN conjunct1] v(4) obtain i where i: "40 \<le> i" "i < 44"
    "\<forall>j. 40 \<le> j \<and> j < 44 \<longrightarrow> (\<exists>t u. rfold doHPR (take j (replicate 100 IDLE)) v = Inr t \<and> doHPR (replicate 100 IDLE ! j) t = Inr u \<and>
      m_rxbuffer u = m_rxbuffer t @ (if j = i then hpr_packets (replicate 100 IDLE ! j) (chip_ids (m_starCfg v)) else []))"
    by (auto dest: spec [of _ 40])
  have f: "take j (replicate 100 IDLE) = replicate j IDLE" "replicate 100 IDLE ! j = IDLE" if "j < 44" for j
    using that by (simp_all add: min_def)
  have "\<exists>t u. rfold doHPR (replicate j IDLE) v = Inr t \<and> doHPR IDLE t = Inr u \<and>
      m_rxbuffer u = m_rxbuffer t @ (if j = i then hpr_packets IDLE (chip_ids (m_starCfg v)) else [])"
    if "40 \<le> j" "j < 44" for j
    using i(3) [rule_format, of j] that unfolding f [OF that(2)] by blast
  moreover have "\<exists>t. rfold doHPR (replicate 1000 IDLE) s = Inr t \<and> m_rxbuffer t = []" using never s(4,6) by simp
  ultimately show ?thesis using s(1) v(1) i(1,2) by blast
qed

end
