(* ===== verification/Star_L0.thy ===== *)
theory Star_L0
  imports Star_Hpr
begin

text \<open>
  The L0 pipeline of the emulated chips across frames: a calibration or digital pulse is found by a
  trigger whose distance to it is the latency the chip is configured for.
\<close>

section \<open>What leaves the pipeline alone\<close>

definition same_l0 :: "('g, 'o) ChipsetEmu \<Rightarrow> ('g, 'o) ChipsetEmu \<Rightarrow> bool" where
  "same_l0 s t \<longleftrightarrow> m_l0buffer_lite t = m_l0buffer_lite s \<and> m_bccnt t = m_bccnt s"

abbreviation keeps_l0 :: "('g, 'o) ChipsetEmu \<Rightarrow> ('g, 'o) ChipsetEmu result \<Rightarrow> bool" where
  "keeps_l0 s \<equiv> rsat (\<lambda>_. True) (same_l0 s)"

lemma same_l0_simps [simp]:
  "same_l0 s s" "same_l0 s (t\<lparr>m_starCfg := c\<rparr>) = same_l0 s t" "same_l0 s (t\<lparr>hpr_sent := hs\<rparr>) = same_l0 s t"
  "same_l0 s (t\<lparr>hpr_clkcnt := n\<rparr>) = same_l0 s t" "same_l0 s (sendPacket p t) = same_l0 s t"
  "same_l0 s ((sendPacket p t)\<lparr>hpr_sent := hs\<rparr>) = same_l0 s t"
  by (simp_all add: same_l0_def sendPacket_def)

lemma on_cfg_l0: "same_l0 s t \<Longrightarrow> keeps_l0 s (on_cfg f t)"
  by (auto simp: on_cfg_def rsat_def rbind_def split: sum.splits)

lemma rsat_any: "rsat (\<lambda>_. True) (\<lambda>_. True) r"
  by (cases r) simp_all

lemma doHPR_HCC_l0: "same_l0 s t \<Longrightarrow> keeps_l0 s (doHPR_HCC frame t)"
  unfolding doHPR_HCC_def setHCCStarHPR_def Let_def
  by (intro rsat_bind [where Q = "same_l0 s", OF on_cfg_l0] rsat_bind_any [OF rsat_any] rsat_if
      rsat_bind [where Q = "same_l0 s"] on_cfg_l0) simp_all

lemma doHPR_ABC_l0: "same_l0 s t \<Longrightarrow> keeps_l0 s (doHPR_ABC frame ic t)"
  unfolding doHPR_ABC_def setABCStarHPR_def Let_def
  by (intro rsat_bind [where Q = "same_l0 s", OF on_cfg_l0] rsat_bind_any [OF rsat_any] rsat_if
      rsat_bind [where Q = "same_l0 s"] on_cfg_l0) simp_all

lemma doHPR_l0: "keeps_l0 s (doHPR frame s)"
  unfolding doHPR_def
  apply (rule rsat_bind [OF doHPR_HCC_l0 [where s = s]], simp)
  apply (rule rsat_bind [where Q = "same_l0 s"])
   apply (rule rsat_fold [where I = "same_l0 s"], assumption)
   apply (rule rsat_bind_any [OF rsat_any])
   apply (rule rsat_if, simp)
   apply (erule doHPR_ABC_l0)
  apply simp
  done

lemma doHPR_keeps:
  assumes "emu_inv a h K s"
  obtains t where "doHPR frame s = Inr t" "emu_inv a h K t" "same_l0 s t"
  using doHPR_ok [OF assms, of frame] doHPR_l0 [of s frame] by (auto simp: rok_iff)

section \<open>One frame on all chipsets\<close>

text \<open>An entry of the pipeline of every chipset, and the BC counters.\<close>

definition l0_entry :: "(int \<times> int \<times> nat list) list \<Rightarrow> u16 \<Rightarrow> nat \<Rightarrow> L0BufData \<Rightarrow> ('g, 'o) StarEmu \<Rightarrow> bool" where
  "l0_entry ps b x v e \<longleftrightarrow> emus_inv ps e \<and> \<not> m_resetbc e \<and> emu_bccnt e = b \<and>
     (\<forall>s \<in> set (chipEmus e). m_bccnt s = b \<and> m_l0buffer_lite s ! x = v)"

definition in_frame :: "u16 \<Rightarrow> nat \<Rightarrow> bool" where
  "in_frame b x \<longleftrightarrow> (\<exists>ibc < 4. x = (unat b + ibc) mod L0BufDepth)"

lemma rmap_all2_total:
  assumes "\<And>x. x \<in> set xs \<Longrightarrow> \<exists>y. f x = Inr y \<and> R x y"
  obtains ys where "rmap f xs = Inr ys" "list_all2 R xs ys"
proof -
  from assms have "\<exists>ys. rmap f xs = Inr ys \<and> list_all2 R xs ys"
  proof (induction xs)
    case (Cons x xs)
    from Cons.IH Cons.prems obtain ys where ys: "rmap f xs = Inr ys" "list_all2 R xs ys" by auto
    from Cons.prems [of x] obtain y where "f x = Inr y" "R x y" by auto
    with ys show ?case by auto
  qed simp
  with that show thesis by blast
qed

lemma emus_inv_chip:
  assumes "emus_inv ps e" and "s \<in> set (chipEmus e)"
  obtains a h K where "emu_inv a h K s"
  using assms by (auto simp: emus_inv_def in_set_conv_nth list_all2_conv_all_nth)

text \<open>The part every valid frame has in common: the HPR step, then the pipeline of this frame.\<close>

lemma frame_start:
  assumes "emus_inv ps e"
  obtains t where "each_chip (doHPR frame) e = Inr t" "emus_inv ps t" "m_resetbc t = m_resetbc e" "emu_bccnt t = emu_bccnt e"
    "list_all2 same_l0 (chipEmus e) (chipEmus t)"
proof -
  obtain ys where ys: "rmap (doHPR frame) (chipEmus e) = Inr ys" "list_all2 same_l0 (chipEmus e) ys"
  proof (rule rmap_all2_total [of "chipEmus e" "doHPR frame" same_l0])
    fix s assume "s \<in> set (chipEmus e)"
    then obtain a h K where "emu_inv a h K s" by (rule emus_inv_chip [OF assms])
    then show "\<exists>t. doHPR frame s = Inr t \<and> same_l0 s t" by (rule doHPR_keeps) blast
  qed (rule that)
  have inv: "rsat (\<lambda>_. False) (emus_inv ps) (each_chip (doHPR frame) e)" by (rule each_chip_ok [OF assms]) (rule doHPR_ok)
  with ys show thesis by (intro that [of "e\<lparr>chipEmus := ys\<rparr>"]) (simp_all add: each_chip_def)
qed

lemma list_all2_right: "list_all2 R xs ys \<Longrightarrow> y \<in> set ys \<Longrightarrow> \<exists>x \<in> set xs. R x y"
  by (metis in_set_conv_nth list_all2_conv_all_nth)

lemma emus_inv_l0_length: "emus_inv ps e \<Longrightarrow> s \<in> set (chipEmus e) \<Longrightarrow> length (m_l0buffer_lite s) = L0BufDepth"
  by (erule emus_inv_chip, assumption) (simp add: emu_inv_def)

lemma idle_step:
  assumes "l0_entry ps b x v e" and "\<not> in_frame b x" and "x < L0BufDepth"
  obtains t where "decodeLCB an IDLE e = Inr t" "l0_entry ps (b + 4) x v t"
proof -
  have e: "emus_inv ps e" "\<not> m_resetbc e" "emu_bccnt e = b" "\<forall>s \<in> set (chipEmus e). m_bccnt s = b \<and> m_l0buffer_lite s ! x = v"
    using assms(1) by (simp_all add: l0_entry_def)
  obtain t where t: "each_chip (doHPR IDLE) e = Inr t" "emus_inv ps t" "m_resetbc t = m_resetbc e" "emu_bccnt t = emu_bccnt e"
    "list_all2 same_l0 (chipEmus e) (chipEmus t)" by (rule frame_start [OF e(1)]) (rule that)
  let ?u = "t\<lparr>chipEmus := map fillL0Buffer (chipEmus t)\<rparr>"
  have u: "emus_inv ps ?u" by (rule map_chips_ok [OF t(2)]) (rule emu_inv_fillL0Buffer)
  have "is_valid_frame IDLE \<and> is_kcode (ucast (drop_bit 8 IDLE AND 0xff)) \<and>
      ucast (drop_bit 8 IDLE AND 0xff) \<noteq> K2 \<and> ucast (drop_bit 8 IDLE AND 0xff) \<noteq> K3" by code_simp
  then have dec: "decodeLCB an IDLE e = Inr (updateBC ?u)" by (simp add: decodeLCB_def t(1) Let_def)
  have "m_l0buffer_lite (fillL0Buffer s) ! x = v" if s: "s \<in> set (chipEmus t)" for s
  proof -
    obtain s0 where "s0 \<in> set (chipEmus e)" "same_l0 s0 s" using list_all2_right [OF t(5) s] by blast
    with e(4) have "m_bccnt s = b" "m_l0buffer_lite s ! x = v" by (auto simp: same_l0_def)
    with fillL0Buffer_entry [OF emus_inv_l0_length [OF t(2) s] assms(3)] assms(2) show ?thesis
      by (auto simp: in_frame_def)
  qed
  then have "l0_entry ps (b + 4) x v (updateBC ?u)"
    using updateBC_ok [OF u] t(3,4) e(2,3) by (auto simp: l0_entry_def updateBC_def Let_def setBC_def)
  with dec show thesis by (rule that)
qed

lemma not_in_later_frame:
  assumes "1 \<le> j" and "j \<le> 127" and "k < 4"
  shows "\<not> in_frame (b + 4 * of_nat j) ((unat b + k) mod L0BufDepth)"
proof
  assume "in_frame (b + 4 * of_nat j) ((unat b + k) mod L0BufDepth)"
  then obtain ibc where ibc: "ibc < 4" "(unat b + k) mod 512 = (unat (b + 4 * of_nat j) + ibc) mod 512"
    by (auto simp: in_frame_def L0BufDepth_def)
  have "b + 4 * of_nat j = of_nat (unat b + 4 * j)" by simp
  then have "unat (b + 4 * of_nat j) = (unat b + 4 * j) mod 2 ^ LENGTH(16)" by (simp only: unat_of_nat)
  then have "(unat (b + 4 * of_nat j) + ibc) mod 512 = (unat b + 4 * j + ibc) mod 512"
    using mod_mod_cancel [of 512 65536 "unat b + 4 * j"] by simp (metis mod_add_left_eq)
  with ibc(2) have "(unat b + k) mod 512 = (unat b + 4 * j + ibc) mod 512" by simp
  moreover have "unat b + k \<le> unat b + 4 * j + ibc" using assms by simp
  ultimately have "512 dvd (unat b + 4 * j + ibc) - (unat b + k)" by (metis mod_eq_dvd_iff_nat)
  moreover have "0 < (unat b + 4 * j + ibc) - (unat b + k)" "(unat b + 4 * j + ibc) - (unat b + k) < 512"
    using assms ibc(1) by simp_all
  ultimately show False using nat_dvd_not_less by blast
qed

lemma idle_steps:
  assumes "l0_entry ps (b + 4) ((unat b + k) mod L0BufDepth) v e" and "k < 4" and "n \<le> 126"
  shows "\<exists>t. rfold (\<lambda>_. decodeLCB an IDLE) [0..<n] e = Inr t \<and> l0_entry ps (b + 4 * of_nat (n + 1)) ((unat b + k) mod L0BufDepth) v t"
  using assms(3)
proof (induction n)
  case 0
  with assms(1) show ?case by simp
next
  case (Suc n)
  then obtain t where t: "rfold (\<lambda>_. decodeLCB an IDLE) [0..<n] e = Inr t"
      "l0_entry ps (b + 4 * of_nat (n + 1)) ((unat b + k) mod L0BufDepth) v t" by auto
  have "\<not> in_frame (b + 4 * of_nat (n + 1)) ((unat b + k) mod L0BufDepth)"
    by (rule not_in_later_frame) (use Suc.prems assms(2) in simp_all)
  moreover have "(unat b + k) mod L0BufDepth < L0BufDepth" by (simp add: L0BufDepth_def)
  ultimately obtain u where "decodeLCB an IDLE t = Inr u" "l0_entry ps (b + 4 * of_nat (n + 1) + 4) ((unat b + k) mod L0BufDepth) v u"
    by (rule idle_step [OF t(2)]) (rule that)
  with t(1) show ?case by (simp add: rfold_append algebra_simps)
qed

section \<open>The pulse\<close>

definition pulse_code :: "FastCmdType \<Rightarrow> nat" where
  "pulse_code cmd = (if cmd = ABC_CAL_PULSE then 1 else 2)"

lemma ackPulseCmd_bccnt [simp]: "m_bccnt (ackPulseCmd p k s) = m_bccnt s"
  by (simp add: ackPulseCmd_def Let_def)

lemma pulse_command:
  assumes "cmd \<in> {ABC_CAL_PULSE, ABC_DIGITAL_PULSE}"
  shows "doFastCommand (decode (lo8 (fast_command cmd k))) s =
    Inr (ackPulseCmd (pulse_code cmd) (k AND 3) (s\<lparr>m_bc_sel := k AND 3\<rparr>))"
proof -
  let ?x = "push_bit 4 (k AND 3) OR (fast_code cmd AND 0xf)"
  have x: "decode (lo8 (fast_command cmd k)) = ?x"
    unfolding fast_command_join8 lo8_join8 by (rule decode_encode) (rule fast_six_bits(1))
  have "(k AND 3) AND 3 = k AND 3" by (simp add: and.assoc)
  then show ?thesis
    using assms unfolding x doFastCommand_def Let_def fast_six_bits(2,3) by (auto simp: pulse_code_def)
qed

text \<open>The frame of the pulse command writes the slot of its bunch crossing, on every chipset.\<close>

lemma pulse_step:
  fixes k :: u8
  assumes e: "emus_inv ps e" "\<not> m_resetbc e" "\<forall>s \<in> set (chipEmus e). m_bccnt s = emu_bccnt e"
    and cmd: "cmd \<in> {ABC_CAL_PULSE, ABC_DIGITAL_PULSE}"
  defines "x \<equiv> (unat (emu_bccnt e) + unat (k AND 3)) mod L0BufDepth"
    and "v \<equiv> push_bit 8 (of_nat (pulse_code cmd)) OR of_nat ((unat (emu_bccnt e) + unat (k AND 3)) mod 256) :: L0BufData"
  obtains t where "decodeLCB an (fast_command cmd k) e = Inr t" "l0_entry ps (emu_bccnt e + 4) x v t"
proof -
  let ?f = "fast_command cmd k" and ?do = "doFastCommand (decode (lo8 (fast_command cmd k)))"
  obtain t where t: "each_chip (doHPR ?f) e = Inr t" "emus_inv ps t" "m_resetbc t = m_resetbc e" "emu_bccnt t = emu_bccnt e"
    "list_all2 same_l0 (chipEmus e) (chipEmus t)" by (rule frame_start [OF e(1)]) (rule that)
  let ?u = "t\<lparr>chipEmus := map fillL0Buffer (chipEmus t)\<rparr>"
  have u: "emus_inv ps ?u" by (rule map_chips_ok [OF t(2)]) (rule emu_inv_fillL0Buffer)
  let ?g = "\<lambda>s. ackPulseCmd (pulse_code cmd) (k AND 3) (s\<lparr>m_bc_sel := k AND 3\<rparr>)"
  have do: "each_chip ?do ?u = Inr (?u\<lparr>chipEmus := map ?g (chipEmus ?u)\<rparr>)"
  proof -
    have "rmap ?do ss = Inr (map ?g ss)" for ss :: "('a, 'b) ChipsetEmu list"
      by (induction ss) (simp_all add: pulse_command [OF cmd])
    then show ?thesis by (simp add: each_chip_def)
  qed
  let ?w = "?u\<lparr>chipEmus := map ?g (chipEmus ?u)\<rparr>"
  have w: "emus_inv ps ?w" by (rule map_chips_ok [OF u]) (simp add: emu_inv_ackPulseCmd)
  have "hi8 ?f = K3" by (simp add: fast_command_join8)
  then have hi: "lo8 (drop_bit 8 ?f) = K3" by (simp add: hi8_def lo8_def)
  have k3: "is_kcode K3" by (simp add: is_kcode_def K_defs)
  have dec: "decodeLCB an ?f e = Inr (updateBC ?w)"
    unfolding decodeLCB_def Let_def t(1) rbind_Inr lo8_def [symmetric] hi
    using do fast_command_readers(4) [of cmd k] k3 by simp
  have "m_bccnt s = emu_bccnt e \<and> m_l0buffer_lite s ! x = v" if s: "s \<in> set (chipEmus ?w)" for s
  proof -
    from s obtain s1 where s1: "s1 \<in> set (chipEmus t)" "s = ?g (fillL0Buffer s1)" by auto
    obtain s0 where "s0 \<in> set (chipEmus e)" "same_l0 s0 s1" using list_all2_right [OF t(5) s1(1)] by blast
    with e(3) have b: "m_bccnt s1 = emu_bccnt e" by (auto simp: same_l0_def)
    have len: "length (m_l0buffer_lite ((fillL0Buffer s1)\<lparr>m_bc_sel := k AND 3\<rparr>)) = L0BufDepth"
      using emus_inv_l0_length [OF t(2) s1(1)] by simp
    from ackPulseCmd_entry [OF len, of "pulse_code cmd" "k AND 3"] b show ?thesis
      by (simp add: s1(2) x_def v_def)
  qed
  then have "l0_entry ps (emu_bccnt e + 4) x v (updateBC ?w)"
    using updateBC_ok [OF w] t(3,4) e(2) by (auto simp: l0_entry_def updateBC_def Let_def setBC_def)
  with dec show thesis by (rule that)
qed

text \<open>The address a trigger reads.\<close>

lemma trigger_address:
  assumes "abc_ok abc" and "abc_getSubRegisterValue abc ''LATENCY'' = Inr lat" and "ibc < 4"
    and "4 * j + ibc = k + unat lat + 4"
  shows "getL0BufferAddr (b + 4 * of_nat j) abc (of_nat ibc) = Inr ((unat b + k) mod L0BufDepth)"
proof -
  have "b + 4 * of_nat j = of_nat (unat b + 4 * j)" by simp
  then have "unat (b + 4 * of_nat j) = (unat b + 4 * j) mod 2 ^ LENGTH(16)" by (simp only: unat_of_nat)
  then have u: "int (unat (b + 4 * of_nat j)) = int (unat b + 4 * j) mod 65536" by (simp add: zmod_int)
  have i: "int (unat (of_nat ibc :: u8)) = int ibc" using assms(3) by (simp add: unat_of_nat)
  let ?z = "int (unat (b + 4 * of_nat j)) + int (unat (of_nat ibc :: u8)) - 4 - int (unat lat)"
  have "?z = int (unat b + 4 * j) mod 65536 + (int ibc - 4 - int (unat lat))" unfolding u i by linarith
  then have "?z mod 512 = (int (unat b + 4 * j) mod 65536 mod 512 + (int ibc - 4 - int (unat lat))) mod 512"
    by (simp only: mod_add_left_eq)
  also have "int (unat b + 4 * j) mod 65536 mod 512 = int (unat b + 4 * j) mod 512" by (rule mod_mod_cancel) simp
  also have "(int (unat b + 4 * j) mod 512 + (int ibc - 4 - int (unat lat))) mod 512 =
      (int (unat b + 4 * j) + (int ibc - 4 - int (unat lat))) mod 512" by (simp only: mod_add_left_eq)
  also have "int (unat b + 4 * j) + (int ibc - 4 - int (unat lat)) = int (unat b + k)" using assms(4) by linarith
  finally have z: "?z mod 512 = int (unat b + k) mod 512" .
  have "nat (?z mod 512) = (unat b + k) mod 512" unfolding z by (metis nat_int of_nat_numeral zmod_int)
  then show ?thesis by (simp add: getL0BufferAddr_value [OF assms(1,2)] L0BufDepth_def)
qed

section \<open>Properties\<close>

text \<open>C9: The latency of the emulated readout. On a well-formed emulator with no bunch counter reset
  pending, send the frame of a calibration or digital pulse with a bunch crossing select, then any
  number \<open>n \<le> 126\<close> of idle frames. For a trigger in the slot \<open>ibc\<close> of the next frame, and an
  ABC with the configured latency \<open>lat\<close>, the pipeline address the trigger reads holds that pulse, with
  its type and its bunch crossing, when trigger and pulse are \<open>lat + 4\<close> bunch crossings apart.\<close>

theorem pulse_latency:
  fixes k :: u8
  assumes "emulator_ok e" and "\<not> m_resetbc e" and "\<forall>s \<in> set (chipEmus e). m_bccnt s = emu_bccnt e"
    and "cmd \<in> {ABC_CAL_PULSE, ABC_DIGITAL_PULSE}" and "n \<le> 126"
    and "abc_ok abc" and "abc_getSubRegisterValue abc ''LATENCY'' = Inr lat" and "ibc < 4"
    and "4 * (n + 1) + ibc = unat (k AND 3) + unat lat + 4"
  shows "\<exists>t u addr. decodeLCB an (fast_command cmd k) e = Inr t \<and> rfold (\<lambda>_. decodeLCB an IDLE) [0..<n] t = Inr u \<and>
    length (chipEmus u) = length (chipEmus e) \<and> addr < L0BufDepth \<and>
    (\<forall>s \<in> set (chipEmus u). getL0BufferAddr (m_bccnt s) abc (of_nat ibc) = Inr addr \<and>
       l0_read (fillL0Buffer s) addr = Inr (push_bit 8 (of_nat (pulse_code cmd)) OR
         of_nat ((unat (emu_bccnt e) + unat (k AND 3)) mod 256)))"
proof -
  let ?x = "(unat (emu_bccnt e) + unat (k AND 3)) mod L0BufDepth"
  let ?v = "push_bit 8 (of_nat (pulse_code cmd)) OR of_nat ((unat (emu_bccnt e) + unat (k AND 3)) mod 256) :: L0BufData"
  have inv: "emus_inv (emulator_shape e) e" using assms(1) by (simp add: emus_inv_iff)
  obtain t where t: "decodeLCB an (fast_command cmd k) e = Inr t" "l0_entry (emulator_shape e) (emu_bccnt e + 4) ?x ?v t"
    by (rule pulse_step [OF inv assms(2-4)]) (rule that)
  have k: "unat (k AND 3) < 4" unfolding and_literals using unat_take_bit_lt [of 2 k] by simp
  from idle_steps [OF t(2) k assms(5), where an = an] obtain u where
    u: "rfold (\<lambda>_. decodeLCB an IDLE) [0..<n] t = Inr u" "l0_entry (emulator_shape e) (emu_bccnt e + 4 * of_nat (n + 1)) ?x ?v u"
    by (elim exE conjE) (rule that)
  have x: "?x < L0BufDepth" by (simp add: L0BufDepth_def)
  have addr: "getL0BufferAddr (emu_bccnt e + 4 * of_nat (n + 1)) abc (of_nat ibc) = Inr ?x"
    by (rule trigger_address [OF assms(6-8)]) (rule assms(9))
  have out: "\<not> in_frame (emu_bccnt e + 4 * of_nat (n + 1)) ?x"
    by (rule not_in_later_frame [OF _ _ k]) (use assms(5) in linarith)+
  have ps: "emus_inv (emulator_shape e) u" using u(2) by (simp add: l0_entry_def)
  have all: "getL0BufferAddr (m_bccnt s) abc (of_nat ibc) = Inr ?x \<and> l0_read (fillL0Buffer s) ?x = Inr ?v" if s: "s \<in> set (chipEmus u)" for s
  proof
    note len = emus_inv_l0_length [OF ps s]
    have b: "m_bccnt s = emu_bccnt e + 4 * of_nat (n + 1)" and v: "m_l0buffer_lite s ! ?x = ?v"
      using u(2) s unfolding l0_entry_def by blast+
    show "getL0BufferAddr (m_bccnt s) abc (of_nat ibc) = Inr ?x" unfolding b by (rule addr)
    have "m_l0buffer_lite (fillL0Buffer s) ! ?x = ?v"
      unfolding fillL0Buffer_entry [OF len x] b using out unfolding in_frame_def by (simp only: if_False v)
    then show "l0_read (fillL0Buffer s) ?x = Inr ?v"
      using len x unfolding l0_read_def vec_read_def by (simp only: fillL0Buffer_simps if_True)
  qed
  have len: "length (chipEmus u) = length (chipEmus e)"
    using list_all2_lengthD [OF ps [unfolded emus_inv_def]] list_all2_lengthD [OF inv [unfolded emus_inv_def]] by (rule trans [OF _ sym])
  show ?thesis
    by (rule exI [of _ t], rule exI [of _ u], rule exI [of _ ?x]) (intro conjI ballI t(1) u(1) len x all)
qed

text \<open>The default chip has latency 0, so a trigger four bunch crossings after the pulse finds it.\<close>

theorem pulse_latency_witness:
  "\<exists>(e :: (unit, unit) StarEmu) t abc addr. new_StarEmu new_RingBuffer None [None] (Some AnalogueModelGenerator) [()] 40000 1 1 = Inr e \<and>
     decodeLCB example_analog (fast_command ABC_CAL_PULSE 2) e = Inr t \<and> length (chipEmus t) = 1 \<and> new_AbcCfg 1 = Inr abc \<and>
     (\<forall>s \<in> set (chipEmus t). getL0BufferAddr (m_bccnt s) abc 2 = Inr addr \<and> l0_read (fillL0Buffer s) addr = Inr 0x102)"
proof -
  obtain s :: "(unit, unit) ChipsetEmu" where s: "new_chip (Some AnalogueModelGenerator) 40000 1 1 (0, None, ()) = Inr s" "emu_ok s"
    by (rule example_hpr [of 40000]) (simp, rule that)
  have b: "m_bccnt s = 0" using s(1) by (auto simp: new_chip_def new_ChipsetEmu_def Let_def rbind_eq_Inr_iff)
  let ?e = "\<lparr>m_txRingBuffer = new_RingBuffer, m_txRingBuffer2 = None, emu_bccnt = 0, m_resetbc = False, chipEmus = [s]\<rparr>"
  have e: "new_StarEmu new_RingBuffer None [None] (Some AnalogueModelGenerator) [()] 40000 1 1 = Inr ?e"
    by (simp add: new_StarEmu_def s(1))
  obtain abc where abc: "new_AbcCfg 1 = Inr abc" "abc_addrs abc = Collect (abc_has_reg (abc_norm 1))" "abcSubRegisterMap_all (abc_info abc) = abc_fields 1"
      "\<And>a. a \<in> abc_addrs abc \<Longrightarrow> abc_getRegisterValue abc a = Inr (abc_default a)"
    by (rule new_AbcCfg_ok [of 1]) (simp, rule that)
  have ok: "abc_ok abc" using new_AbcCfg_abc_ok [of 1] abc(1) by auto
  have f: "abc_fields 1 ''LATENCY'' = Some \<lparr>m_regAddress = 32, m_bOffset = 23, m_width = 9, m_subRegName = ''LATENCY''\<rparr>" by code_simp
  have "32 \<in> abc_addrs abc" by (simp add: abc(2) abc_has_reg_def abc_skip_v1_def)
  then have lat: "abc_getSubRegisterValue abc ''LATENCY'' = Inr 0"
    by (simp add: abc_getSub_store abc(3,4) f abc_default_def sub_getValue_def)
  have "emulator_ok ?e" "\<not> m_resetbc ?e" "\<forall>s \<in> set (chipEmus ?e). m_bccnt s = emu_bccnt ?e" by (simp_all add: emulator_ok_def s(2) b)
  from pulse_latency [OF this, of ABC_CAL_PULSE 0 abc 0 2 2 example_analog] ok lat obtain t addr where
    "decodeLCB example_analog (fast_command ABC_CAL_PULSE 2) ?e = Inr t" "length (chipEmus t) = 1"
    "\<forall>s \<in> set (chipEmus t). getL0BufferAddr (m_bccnt s) abc 2 = Inr addr \<and> l0_read (fillL0Buffer s) addr = Inr 0x102"
    by (auto simp: pulse_code_def)
  with e abc(1) show ?thesis by blast
qed

end
