(* ===== verification/Star_Emu_Access.thy ===== *)
theory Star_Emu_Access
  imports Star_Emu_Safe Star_Chip_Packet
begin

text \<open>
  The register command state machine of the emulated chipset (\<open>doRegReadWrite\<close>) against the
  command sequences of \<open>StarCmd\<close>: the nine frames of a command sequence perform exactly the
  register access they stand for, and a value written is what a later read command sends back
  to the parser of the response packets.
\<close>

section \<open>One frame\<close>

lemma reg_frame_K2:
  assumes "unat x < 64"
  shows "doRegReadWrite (build_pair K2 (encode x)) s =
    (let s = s\<lparr>m_ignoreCmd := \<not> (ucast (x AND 0xf) = sc_getHCCchipID (m_starCfg s) AND 0xf \<or> ucast (x AND 0xf) = (0xf :: u32))\<rparr>
     in if m_ignoreCmd s then Inr s
        else if bit x 4 then Inr (s\<lparr>m_isForABC := bit x 5, m_reg_cmd_buffer := []\<rparr>)
        else let bufsize = length (m_reg_cmd_buffer s)
             in if \<not> (bufsize = 2 \<or> bufsize = 7) then Inr s else execute_command_sequence s)"
proof -
  have f: "ucast (drop_bit 8 (build_pair K2 (encode x)) AND 0xff) = K2"
    unfolding build_pair_join8 hi8_def [symmetric] by simp
  have g: "ucast (build_pair K2 (encode x) AND 0xff) = encode x"
    unfolding build_pair_join8 lo8_def [symmetric] by simp
  show ?thesis
    unfolding doRegReadWrite_def f g decode_encode [OF assms] Let_def by simp
qed

lemma reg_frame_bits:
  "doRegReadWrite (command_bits d) s =
    (if m_ignoreCmd s then Inr s else Inr (s\<lparr>m_reg_cmd_buffer := m_reg_cmd_buffer s @ [ucast (d AND 0x7f)]\<rparr>))"
proof -
  have k: "ucast (drop_bit 8 (command_bits d) AND 0xff) \<noteq> K2"
    using command_bits_readers(5) [of d] by (auto simp: has_kcode_def)
  have t: "push_bit 6 (ucast (decode (ucast (drop_bit 8 (command_bits d) AND 0xff)))) OR
      ucast (decode (ucast (command_bits d AND 0xff))) = take_bit 7 d"
  proof -
    have "twelve (command_bits d) = take_bit 12 (take_bit 7 d)"
      unfolding command_bits_def and_literals by (rule twelve_raw_bits)
    also have "\<dots> = take_bit 7 d" by (rule bit_word_eqI) (auto simp: bits_simps)
    finally show ?thesis unfolding twelve_def by (simp only: or.commute)
  qed
  have z: "drop_bit 7 (take_bit 7 d) = (0 :: u16)" "take_bit 7 (take_bit 7 d) = take_bit 7 d"
    by (rule bit_word_eqI; auto simp: bits_simps)+
  show ?thesis
    unfolding doRegReadWrite_def Let_def t using k by (simp add: z and_literals)
qed

lemma reg_frames_bits:
  "rfold doRegReadWrite (map command_bits ds) s =
    (if m_ignoreCmd s then Inr s
     else Inr (s\<lparr>m_reg_cmd_buffer := m_reg_cmd_buffer s @ map (\<lambda>d. ucast (d AND 0x7f)) ds\<rparr>))"
  by (induction ds arbitrary: s) (simp_all add: reg_frame_bits)

section \<open>The header and the data of a command\<close>

definition header1 :: "bool \<Rightarrow> u32 \<Rightarrow> u32 \<Rightarrow> u16" where
  "header1 rd abcid address = ucast (push_bit 6 (of_bool rd) OR push_bit 2 (abcid AND 0xf) OR (drop_bit 6 address AND 3))"

definition header2 :: "u32 \<Rightarrow> u16" where
  "header2 address = ucast (push_bit 1 (address AND 0x3f))"

lemma header_fields:
  fixes rd :: bool and abcid address :: u32
  defines "h1 \<equiv> ucast (header1 rd abcid address AND 0x7f) :: u8" and "h2 \<equiv> ucast (header2 address AND 0x7f) :: u8"
  shows "bit h1 6 = rd" "ucast (drop_bit 2 h1 AND 0xf) = (abcid AND 0xf :: u32)"
    "push_bit 6 (h1 AND 3) OR (drop_bit 1 h2 AND 0x3f) = ucast address"
proof -
  have h1: "bit h1 n \<longleftrightarrow> n < 2 \<and> bit address (n + 6) \<or> 2 \<le> n \<and> n < 6 \<and> bit abcid (n - 2) \<or> n = 6 \<and> rd" for n
    unfolding h1_def header1_def and_literals
    by (cases "n = 6") (auto simp: bits_simps ac_simps)
  have h2: "bit h2 n \<longleftrightarrow> 1 \<le> n \<and> n < 7 \<and> bit address (n - 1)" for n
    unfolding h2_def header2_def and_literals bit_ucast_iff bit_take_bit_iff bit_push_bit_iff by auto
  show "bit h1 6 = rd" by (simp add: h1)
  show "ucast (drop_bit 2 h1 AND 0xf) = (abcid AND 0xf :: u32)"
    unfolding and_literals by (rule bit_word_eqI) (auto simp: bits_simps h1)
  show "push_bit 6 (h1 AND 3) OR (drop_bit 1 h2 AND 0x3f) = ucast address"
    unfolding and_literals by (rule bit_word_eqI) (auto simp: bits_simps h1 h2)
qed

definition data_parts :: "u32 \<Rightarrow> u8 list" where
  "data_parts v = map (\<lambda>i. ucast (value_part v i AND 0x7f)) [0..<5]"

lemma join_data_parts: "join_data (data_parts v) = v"
proof -
  have p: "ucast (ucast (value_part v i AND 0x7f) AND (0x7f :: u8)) = (drop_bit ((4 - i) * 7) v AND 0x7f :: u32)" for i
    unfolding value_part_def and_literals by (rule bit_word_eqI) (auto simp: bits_simps)
  have up: "[0..<5] = [0, 1, 2, 3, 4]" by (simp add: upt_rec)
  have "join_data (data_parts v) = (drop_bit 28 v AND 0x7f) * 2 ^ 28 OR ((drop_bit 21 v AND 0x7f) * 2 ^ 21) OR
      ((drop_bit 14 v AND 0x7f) * 2 ^ 14) OR ((drop_bit 7 v AND 0x7f) * 2 ^ 7) OR (v AND 0x7f)"
    unfolding join_data_def data_parts_def up list.map zip_Cons_Cons fold_simps prod.case p
    by (simp add: push_bit_eq_mult ac_simps)
  also have "\<dots> = v"
    unfolding push_bit_eq_mult [symmetric] and_literals
  proof (rule bit_word_eqI)
    fix n assume n: "n < LENGTH(32)"
    consider "n < 7" | "7 \<le> n" "n < 14" | "14 \<le> n" "n < 21" | "21 \<le> n" "n < 28" | "28 \<le> n" by linarith
    then show "bit (push_bit 28 (take_bit 7 (drop_bit 28 v)) OR push_bit 21 (take_bit 7 (drop_bit 21 v)) OR
        push_bit 14 (take_bit 7 (drop_bit 14 v)) OR push_bit 7 (take_bit 7 (drop_bit 7 v)) OR take_bit 7 v) n = bit v n"
      using n by cases (auto simp: bits_simps)
  qed
  finally show ?thesis .
qed

section \<open>The sequence\<close>

text \<open>The register access a command sequence stands for.\<close>

definition access :: "bool \<Rightarrow> bool \<Rightarrow> u32 \<Rightarrow> u8 \<Rightarrow> u32 \<Rightarrow> ('g, 'o) emu_op" where
  "access rd isABC abcid addr v =
     (let one = (if rd then readRegister addr isABC else writeRegister v addr isABC)
      in if abcid = 0xf \<and> isABC then for_each_id one else one abcid)"

text \<open>The command buffer and flags after a sequence.\<close>

definition after_command :: "bool \<Rightarrow> bool \<Rightarrow> u32 \<Rightarrow> ('g, 'o) ChipsetEmu \<Rightarrow> ('g, 'o) ChipsetEmu" where
  "after_command rd isABC v s =
     s\<lparr>m_ignoreCmd := False, m_isForABC := isABC, m_reg_cmd_buffer := (if rd then data_parts v else [])\<rparr>"

definition addressed :: "u32 \<Rightarrow> ('g, 'o) ChipsetEmu \<Rightarrow> bool" where
  "addressed hccid s \<longleftrightarrow> hccid AND 0xf = sc_getHCCchipID (m_starCfg s) AND 0xf \<or> hccid AND 0xf = 0xf"

lemma data_parts_length [simp]: "length (data_parts v) = 5"
  by (simp add: data_parts_def)

lemma execute_sequence:
  assumes "m_reg_cmd_buffer s = [ucast (header1 rd abcid address AND 0x7f), ucast (header2 address AND 0x7f)] @ data_parts v"
  shows "execute_command_sequence s =
    access rd (m_isForABC s) (abcid AND 0xf) (ucast address) v (s\<lparr>m_reg_cmd_buffer := if rd then data_parts v else []\<rparr>)"
proof -
  let ?h1 = "ucast (header1 rd abcid address AND 0x7f) :: u8"
  have b: "m_reg_cmd_buffer s = ?h1 # ucast (header2 address AND 0x7f) # data_parts v" using assms by simp
  show ?thesis
    unfolding execute_command_sequence_def b list.case Let_def header_fields join_data_parts access_def
    by (cases rd) simp_all
qed

lemma command_start_lt: "unat (ucast (command_start h x) :: u8) < 64" "unat (ucast (h AND 0xf) :: u8) < 64"
proof -
  show "unat (ucast (command_start h x) :: u8) < 64"
    by (rule take_bit_lt_64) (rule command_start_six)
  have "take_bit 6 (ucast (h AND 0xf) :: u8) = ucast (h AND 0xf)"
    unfolding and_literals by (rule bit_word_eqI) (auto simp: bits_simps)
  then show "unat (ucast (h AND 0xf) :: u8) < 64" by (rule take_bit_lt_64)
qed

lemma hcc_nibble:
  "(ucast (ucast (h AND 0xf :: u32) AND 0xf :: u8) :: u32) = h AND 0xf"
  "(ucast (ucast (h AND 0xf :: u32) :: u8) :: u32) = h AND 0xf"
  "\<not> bit (ucast (h AND 0xf :: u32) :: u8) 4"
  "(ucast (h AND 0xf :: u32) :: u8) AND 0xf = ucast (h AND 0xf)"
  unfolding and_literals
     apply (rule bit_word_eqI, auto simp: bits_simps)[1]
    apply (rule bit_word_eqI, auto simp: bits_simps)[1]
   apply (simp add: bits_simps)
  apply (rule bit_word_eqI, auto simp: bits_simps)[1]
  done

lemma rbind_Inr_right: "rbind r Inr = r"
  by (cases r) simp_all

lemma command_sequence_effect:
  "rfold doRegReadWrite (command_sequence hccid abcid address rd v hccNotAbc) s =
    (if addressed hccid s
     then access rd (\<not> hccNotAbc) (abcid AND 0xf) (ucast address) v (after_command rd (\<not> hccNotAbc) v s)
     else Inr (s\<lparr>m_ignoreCmd := True\<rparr>))"
proof -
  let ?start = "build_pair K2 (encode (ucast (command_start hccid hccNotAbc)))"
  let ?stop = "build_pair K2 (encode (ucast (hccid AND 0xf)))"
  let ?ds = "[header1 rd abcid address, header2 address] @ map (value_part v) [0..<5]"
  have seq: "command_sequence hccid abcid address rd v hccNotAbc = [?start] @ map command_bits ?ds @ [?stop]"
    by (simp add: command_sequence_def header1_def header2_def)
  have addr: "(hccid AND 0xf = sc_getHCCchipID (m_starCfg s) AND 0xf \<or> hccid AND 0xf = 0xf) = addressed hccid s"
    by (simp add: addressed_def)
  have start: "doRegReadWrite ?start s = (if addressed hccid s
      then Inr (s\<lparr>m_ignoreCmd := False, m_isForABC := \<not> hccNotAbc, m_reg_cmd_buffer := []\<rparr>)
      else Inr (s\<lparr>m_ignoreCmd := True\<rparr>))"
    unfolding reg_frame_K2 [OF command_start_lt(1)] command_start_fields(1) hcc_nibble
    by (simp add: Let_def addr command_start_fields(2,3))
  show ?thesis
  proof (cases "addressed hccid s")
    case False
    then have "rfold doRegReadWrite (command_sequence hccid abcid address rd v hccNotAbc) s =
        doRegReadWrite ?stop (s\<lparr>m_ignoreCmd := True\<rparr>)"
      unfolding seq rfold_append rfold.simps start by (simp add: reg_frames_bits rbind_Inr_right del: list.map map_append)
    also have "\<dots> = Inr (s\<lparr>m_ignoreCmd := True\<rparr>)"
      unfolding reg_frame_K2 [OF command_start_lt(2)] hcc_nibble using False addr by (simp add: Let_def)
    finally show ?thesis using False by simp
  next
    case True
    let ?s = "s\<lparr>m_ignoreCmd := False, m_isForABC := \<not> hccNotAbc,
      m_reg_cmd_buffer := map (\<lambda>d. ucast (d AND 0x7f)) ?ds\<rparr>"
    have buf: "m_reg_cmd_buffer ?s = [ucast (header1 rd abcid address AND 0x7f), ucast (header2 address AND 0x7f)] @ data_parts v"
      by (simp add: data_parts_def comp_def)
    from True have "rfold doRegReadWrite (command_sequence hccid abcid address rd v hccNotAbc) s = doRegReadWrite ?stop ?s"
      unfolding seq rfold_append rfold.simps start by (simp add: reg_frames_bits rbind_Inr_right del: list.map map_append)
    also have "\<dots> = execute_command_sequence ?s"
      unfolding reg_frame_K2 [OF command_start_lt(2)] hcc_nibble using True addr
      by (cases s) (simp add: Let_def hcc_nibble(3))
    also have "\<dots> = access rd (\<not> hccNotAbc) (abcid AND 0xf) (ucast address) v (after_command rd (\<not> hccNotAbc) v s)"
      unfolding execute_sequence [OF buf] by (simp add: after_command_def)
    finally show ?thesis using True by simp
  qed
qed

section \<open>A write and a read of an ABC register\<close>

definition abc_writable :: "nat \<Rightarrow> bool" where
  "abc_writable r \<longleftrightarrow> r \<notin> {48, 49, 50, 51, 52, 63} \<and> \<not> (Counter 0 \<le> r \<and> r \<le> Counter 63)"

lemma write_abc_effect:
  assumes "emu_inv a h K s" and "map_of (chip_ids (m_starCfg s)) i = Some ic" and "abc_has_reg a (unat r)" and "abc_writable (unat r)"
  obtains d where "writeRegister v r True i s = Inr (s\<lparr>m_starCfg := d\<rparr>)" "cfg_inv a h K d"
    "setABCRegisterByID (m_starCfg s) (unat r) v i = Inr d"
proof -
  note c = emu_inv_cfg [OF assms(1)]
  from cfg_getByID(2) [OF c assms(2,3), of v] obtain d where
    d: "setABCRegisterByID (m_starCfg s) (unat r) v i = Inr d" "cfg_inv a h K d" by (auto simp: rok_iff)
  then show thesis
    using assms(4) by (intro that [of d]) (auto simp: writeRegister_def abc_writable_def on_cfg_def or_else_def Let_def)
qed

lemma read_abc_effect:
  assumes "cfg_inv a h K (m_starCfg s)" and "map_of (chip_ids (m_starCfg s)) i = Some ic"
    and "getABCRegisterByID (m_starCfg s) (unat r) i = Inr v"
  shows "readRegister r True i s =
    Inr (sendPacket (buildABCRegisterPacket PT_ABCRegRd (of_nat ic) r v (ucast (push_bit 12 (i AND 0xf)))) s)"
  using cfg_channel [OF assms(1,2)] assms(3) by (simp add: readRegister_def or_else_def Let_def)

lemma write_read_abc:
  fixes r :: u8
  assumes s: "emu_inv a h K s" and ids: "map_of (chip_ids (m_starCfg s)) i = Some ic" and i: "i AND 0xf = i" "i \<noteq> 0xf"
    and adr: "addressed hccid s" and reg: "abc_has_reg a (unat r)" "abc_writable (unat r)"
  shows "\<exists>t u. rfold doRegReadWrite (write_abc_register (ucast r) v hccid i) s = Inr t \<and> m_rxbuffer t = m_rxbuffer s \<and>
    rfold doRegReadWrite (read_abc_register (ucast r) hccid i) t = Inr u \<and>
    m_rxbuffer u = m_rxbuffer s @ [sendPacket_words (buildABCRegisterPacket PT_ABCRegRd (of_nat ic) r v (ucast (push_bit 12 i)))] \<and>
    (\<forall>b. b \<noteq> unat r \<longrightarrow> getABCRegisterByID (m_starCfg u) b i = getABCRegisterByID (m_starCfg s) b i)"
proof -
  let ?s = "after_command False True v s"
  have r: "(ucast (ucast r :: u32) :: u8) = r" by (rule bit_word_eqI) (simp add: bit_simps)
  have s1: "emu_inv a h K ?s" "m_starCfg ?s = m_starCfg s" "m_rxbuffer ?s = m_rxbuffer s" using s by (simp_all add: after_command_def)
  from ids have ids1: "map_of (chip_ids (m_starCfg ?s)) i = Some ic" by (simp add: s1(2))
  obtain d where d: "writeRegister v r True i ?s = Inr (?s\<lparr>m_starCfg := d\<rparr>)" "cfg_inv a h K d"
      "setABCRegisterByID (m_starCfg ?s) (unat r) v i = Inr d"
    by (rule write_abc_effect [OF s1(1) ids1 reg]) (rule that)
  let ?t = "?s\<lparr>m_starCfg := d\<rparr>"
  have ok: "cfg_ok (m_starCfg ?s)" using s1(1) by (simp add: emu_inv_def cfg_inv_def)
  note laws = setByID_laws [OF ok d(3)]
  have w: "rfold doRegReadWrite (write_abc_register (ucast r) v hccid i) s = Inr ?t"
    using adr i d(1) unfolding write_abc_register_def command_sequence_effect r by (simp add: access_def)
  have adr': "addressed hccid ?t" using adr by (simp add: addressed_def sc_getHCCchipID_def laws(3) s1(2))
  let ?u = "after_command True True 0 ?t"
  have u: "m_starCfg ?u = d" "m_rxbuffer ?u = m_rxbuffer s" by (simp_all add: after_command_def)
  have "readRegister r True i ?u =
      Inr (sendPacket (buildABCRegisterPacket PT_ABCRegRd (of_nat ic) r v (ucast (push_bit 12 (i AND 0xf)))) ?u)"
    by (rule read_abc_effect [of a h K]) (simp_all add: u(1) d(2) laws(2,7) ids1)
  then have rd: "rfold doRegReadWrite (read_abc_register (ucast r) hccid i) ?t =
      Inr (sendPacket (buildABCRegisterPacket PT_ABCRegRd (of_nat ic) r v (ucast (push_bit 12 i))) ?u)"
    using adr' i unfolding read_abc_register_def command_sequence_effect r by (simp add: access_def)
  have "m_starCfg (sendPacket b ?u) = d" for b by (simp add: sendPacket_def u(1))
  with w rd u(2) laws(8) s1(2,3) show ?thesis by (auto simp: sendPacket_def)
qed

text \<open>A chipset with one ABC, of identifier 3, on channel 7.\<close>

lemma example_chipset:
  obtains c t :: StarCfg and s :: "(unit, unit) ChipsetEmu" where "new_StarCfg 1 1 = Inr c" "addABCchipID_at c 3 7 = Inr t"
    "new_ChipsetEmu t (Some AnalogueModelGenerator) () 40000 1 1 = Inr s" "emu_ok s" "emu_abc_version s = 1"
    "map_of (chip_ids (m_starCfg s)) 3 = Some 7" "m_rxbuffer s = []" "emu_hcc_version s = 1" "map fst (m_ABCchips (m_starCfg s)) = [7]"
proof -
  obtain c where c: "new_StarCfg 1 1 = Inr c" "cfg_inv 1 1 [] c" "m_abc_version c = 1" "m_ABCchips c = []"
    by (rule new_cfg_inv [of 1 1]) auto
  have ic: "(7 :: nat) < MaxABCsPerHCC" by (simp add: MaxABCsPerHCC_def)
  obtain t new where t: "addABCchipID_at c 3 7 = Inr t" "cfg_inv 1 1 (map fst (m_ABCchips t)) t"
    "abc_at t = (abc_at c)(7 \<mapsto> new\<lparr>m_abcID := 3\<rparr>)"
    by (rule addABC_inv [OF c(2,3) ic, of 3]) (simp, rule that)
  have ids7: "set (chip_ids t) = {(3, 7)}" and keys: "map fst (m_ABCchips t) = [7]"
  proof -
    have ok: "omap_ok (m_ABCchips t)" using t(2) by (simp add: cfg_inv_def cfg_ok_def)
    have "(k, abc) \<in> set (m_ABCchips t) \<longleftrightarrow> k = 7 \<and> abc = new\<lparr>m_abcID := 3\<rparr>" for k abc
      using t(3) c(4) omap_set_iff [OF ok] by (auto split: if_splits)
    then have one: "set (m_ABCchips t) = {(7, new\<lparr>m_abcID := 3\<rparr>)}" by auto
    then show "set (chip_ids t) = {(3, 7)}" by (simp add: chip_ids_def)
    from one have "set (map fst (m_ABCchips t)) = {7}" by simp
    moreover have "distinct (map fst (m_ABCchips t))" using ok by (rule omap_ok_distinct)
    ultimately show "map fst (m_ABCchips t) = [7]"
      by (cases "map fst (m_ABCchips t)"; cases "tl (map fst (m_ABCchips t))") auto
  qed
  from ids7 have id: "map_of (chip_ids t) 3 = Some 7"
    by (metis insertI1 singletonD map_of_SomeD not_None_eq prod.inject weak_map_of_SomeI)
  have gen: "generator_ok 1 (Some AnalogueModelGenerator :: unit StripGenerator option)" by (simp add: generator_ok_def)
  obtain s :: "(unit, unit) ChipsetEmu" and d where s: "new_ChipsetEmu t (Some AnalogueModelGenerator) () 40000 1 1 = Inr s"
      "emu_inv 1 1 (map fst (m_ABCchips t)) s"
      "setHCCRegister t 17 (push_bit 28 (sc_getHCCchipID t AND 0xf) OR (sc_getHCCfuseID t AND 0xffffff)) = Inr d"
      "m_starCfg s = d" "m_ABCchips d = m_ABCchips t" "m_rxbuffer s = []"
    by (rule new_ChipsetEmu_ok [OF t(2) _ gen, of 40000]) (simp, rule that)
  have ids: "chip_ids d = chip_ids t" by (simp add: chip_ids_def s(5))
  show thesis
    by (rule that [OF c(1) t(1) s(1)])
      (use s(2,6) id keys in \<open>auto simp: emu_ok_iff s(4,5) ids, simp_all add: emu_inv_def\<close>)
qed

section \<open>Properties\<close>

text \<open>C6: The register command state machine of the emulator implements the command sequences of
  \<open>StarCmd\<close>: whatever state it is in, the nine frames of a sequence perform the one register access
  they stand for (of the ABC named, or of each ABC for the broadcast identifier) when the HCC
  identifier is the chipset's or the broadcast one, and otherwise only make it ignore what follows.\<close>

theorem command_sequence_access:
  "rfold doRegReadWrite (command_sequence hccid abcid address rd v hccNotAbc) s =
    (if addressed hccid s
     then access rd (\<not> hccNotAbc) (abcid AND 0xf) (ucast address) v (after_command rd (\<not> hccNotAbc) v s)
     else Inr (s\<lparr>m_ignoreCmd := True\<rparr>))"
  by (rule command_sequence_effect)

text \<open>C3: A value written to an ABC register through LCB frames is what the parser of the readout gets
  back: after the frames of a write and of a read command to a known ABC (of an existing register
  the emulator lets one write) the chipset has sent exactly one packet, whose parse returns 0 and
  gives the address, the value and the input channel; no other register of the chip has changed.\<close>

theorem write_read_ABC_register:
  fixes r :: u8
  assumes "emu_ok s" and "map_of (chip_ids (m_starCfg s)) i = Some ic" and "i AND 0xf = i" and "i \<noteq> 0xf"
    and "addressed hccid s" and "abc_has_reg (emu_abc_version s) (unat r)" and "abc_writable (unat r)"
  shows "\<exists>t u p q. rfold doRegReadWrite (write_abc_register (ucast r) v hccid i) s = Inr t \<and> m_rxbuffer t = m_rxbuffer s \<and>
    rfold doRegReadWrite (read_abc_register (ucast r) hccid i) t = Inr u \<and> m_rxbuffer u = m_rxbuffer s @ [p] \<and>
    parse_packet (packet_of_data p) = Inr (0, q) \<and> sp_type q = type_of PT_ABCRegRd \<and> sp_address q = r \<and> sp_value q = v \<and>
    channel_abc q = of_nat ic \<and>
    (\<forall>b. b \<noteq> unat r \<longrightarrow> getABCRegisterByID (m_starCfg u) b i = getABCRegisterByID (m_starCfg s) b i)"
proof -
  have inv: "emu_inv (emu_abc_version s) (emu_hcc_version s) (map fst (m_ABCchips (m_starCfg s))) s"
    using assms(1) by (simp add: emu_ok_def)
  let ?bs = "buildABCRegisterPacket PT_ABCRegRd (of_nat ic) r v (ucast (push_bit 12 i))"
  have "ic < MaxABCsPerHCC" by (rule cfg_channel(2) [OF emu_inv_cfg [OF inv] assms(2)])
  then have "ic \<in> set [0..<11]" by (simp add: MaxABCsPerHCC_def)
  moreover have "list_all (\<lambda>n. ucast (of_nat n AND 0xF :: u8) = (of_nat n :: u16)) [0..<11]" by code_simp
  ultimately have ic: "ucast (of_nat ic AND 0xF :: u8) = (of_nat ic :: u16)" unfolding list_all_iff by blast
  obtain q where "parse_packet (packet_of_data (sendPacket_words ?bs)) = Inr (0, q)" "sp_type q = type_of PT_ABCRegRd"
      "channel_abc q = ucast (of_nat ic AND 0xF :: u8)" "sp_address q = r" "sp_value q = v"
    using ABC_register_roundtrip [of PT_ABCRegRd ?bs "of_nat ic" r v "ucast (push_bit 12 i)"] by auto
  with write_read_abc [OF inv assms(2-7), of v] ic show ?thesis by metis
qed

theorem write_read_ABC_register_witness:
  "\<exists>(s :: (unit, unit) ChipsetEmu) t u p q.
    rfold doRegReadWrite (write_abc_register 16 0xdeadbeef 0xf 3) s = Inr t \<and>
    rfold doRegReadWrite (read_abc_register 16 0xf 3) t = Inr u \<and> m_rxbuffer u = [p] \<and>
    parse_packet (packet_of_data p) = Inr (0, q) \<and> sp_value q = 0xdeadbeef \<and> channel_abc q = 7"
proof -
  obtain c t :: StarCfg and s :: "(unit, unit) ChipsetEmu" where s: "emu_ok s" "emu_abc_version s = 1"
    "map_of (chip_ids (m_starCfg s)) 3 = Some 7" "m_rxbuffer s = []"
    by (rule example_chipset) (rule that)
  have "addressed 0xf s" by (simp add: addressed_def)
  moreover have "abc_has_reg 1 (unat (16 :: u8))" "abc_writable (unat (16 :: u8))"
    by (simp_all add: abc_has_reg_def abc_skip_v1_def abc_writable_def Counter_def)
  ultimately obtain t u p q where "rfold doRegReadWrite (write_abc_register 16 0xdeadbeef 0xf 3) s = Inr t"
    "rfold doRegReadWrite (read_abc_register 16 0xf 3) t = Inr u" "m_rxbuffer u = [p]"
    "parse_packet (packet_of_data p) = Inr (0, q)" "sp_value q = 0xdeadbeef" "channel_abc q = 7"
    using write_read_ABC_register [OF s(1,3), of "0xf" 16 "0xdeadbeef"] s(2,4) by auto
  then show ?thesis by blast
qed

end
