(* ===== verification/Event_Data.thy ===== *)
theory Event_Data
  imports Yarr_Prelude
begin

text \<open>
  Front-end event data (src/src/libYarr/include/EventData.h, src/src/libYarr/EventData.cpp): hits, the
  events that hold them and the container of events with its pointer to the current event, and
  the binary form of an event in a file, as the bytes a little-endian host writes. The feedback
  of a data processor is the structure of src/src/libYarr/include/FrontEnd.h.
\<close>

section \<open>Hits and events\<close>

text \<open>\<open>fh_tot\<close> is the union of the time over threshold with its two parts \<open>ptot\<close> and \<open>ptoa\<close>.\<close>

record FrontEndHit =
  fh_col :: u16
  fh_row :: u16
  fh_tot :: u16

definition ptot :: "FrontEndHit \<Rightarrow> u16" where "ptot h = fh_tot h AND 0x7ff"

definition ptoa :: "FrontEndHit \<Rightarrow> u16" where "ptoa h = drop_bit 11 (fh_tot h)"

definition hit_eq :: "FrontEndHit \<Rightarrow> FrontEndHit \<Rightarrow> bool" where
  "hit_eq lhs rhs \<longleftrightarrow> fh_col lhs = fh_col rhs \<and> fh_row lhs = fh_row rhs \<and> fh_tot lhs = fh_tot rhs"

record FrontEndEvent =
  ev_l1id :: u16
  ev_bcid :: u16
  ev_tag :: u32
  ev_nHits :: u16
  ev_hits :: "FrontEndHit list"

definition new_FrontEndEvent :: "u32 \<Rightarrow> u32 \<Rightarrow> u32 \<Rightarrow> FrontEndEvent" where
  "new_FrontEndEvent arg_tag arg_l1id arg_bcid =
     \<lparr>ev_l1id = ucast arg_l1id, ev_bcid = ucast arg_bcid, ev_tag = arg_tag, ev_nHits = 0, ev_hits = []\<rparr>"

definition addEvent :: "FrontEndEvent \<Rightarrow> FrontEndEvent \<Rightarrow> FrontEndEvent" where
  "addEvent event e = e\<lparr>ev_hits := ev_hits e @ ev_hits event, ev_nHits := ev_nHits e + ev_nHits event\<rparr>"

definition addHit :: "FrontEndHit \<Rightarrow> FrontEndEvent \<Rightarrow> FrontEndEvent" where
  "addHit hit e = e\<lparr>ev_hits := ev_hits e @ [hit], ev_nHits := ev_nHits e + 1\<rparr>"

definition addHit_at :: "u32 \<Rightarrow> u32 \<Rightarrow> u32 \<Rightarrow> FrontEndEvent \<Rightarrow> FrontEndEvent" where
  "addHit_at arg_row arg_col arg_timing e =
     (let c = ucast arg_col; r = ucast arg_row; t = ucast arg_timing
      in e\<lparr>ev_hits := ev_hits e @ [\<lparr>fh_col = c, fh_row = r, fh_tot = t\<rparr>], ev_nHits := ev_nHits e + 1\<rparr>)"

section \<open>The container of events\<close>

text \<open>\<open>curEvent\<close> points into the vector of events; it is not initialised before the first event.\<close>

record FrontEndData =
  fd_curEvent :: "nat option"
  fd_events :: "FrontEndEvent list"

definition new_FrontEndData :: FrontEndData where
  "new_FrontEndData = \<lparr>fd_curEvent = None, fd_events = []\<rparr>"

definition newEvent :: "u32 \<Rightarrow> u32 \<Rightarrow> u32 \<Rightarrow> FrontEndData \<Rightarrow> FrontEndData" where
  "newEvent arg_tag arg_l1id arg_bcid d =
     d\<lparr>fd_events := fd_events d @ [new_FrontEndEvent arg_tag arg_l1id arg_bcid],
       fd_curEvent := Some (length (fd_events d))\<rparr>"

text \<open>The last event; without one there is nothing to remove, and with one only, nothing for
  \<open>back\<close> to return.\<close>

definition delLastEvent :: "FrontEndData \<Rightarrow> FrontEndData result" where
  "delLastEvent d =
     (if length (fd_events d) < 2 then Inl Undefined
      else Inr (d\<lparr>fd_events := butlast (fd_events d), fd_curEvent := Some (length (fd_events d) - 2)\<rparr>))"

text \<open>An operation on \<open>*curEvent\<close>.\<close>

definition on_curEvent :: "(FrontEndEvent \<Rightarrow> FrontEndEvent) \<Rightarrow> FrontEndData \<Rightarrow> FrontEndData result" where
  "on_curEvent f d =
     (case fd_curEvent d of
        None \<Rightarrow> Inl Undefined
      | Some i \<Rightarrow> if i < length (fd_events d) then Inr (d\<lparr>fd_events := (fd_events d)[i := f (fd_events d ! i)]\<rparr>)
                  else Inl Undefined)"

section \<open>Events in binary files\<close>

definition bytes16 :: "u16 \<Rightarrow> u8 list" where
  "bytes16 w = [ucast w, ucast (drop_bit 8 w)]"

definition bytes32 :: "u32 \<Rightarrow> u8 list" where
  "bytes32 w = [ucast w, ucast (drop_bit 8 w), ucast (drop_bit 16 w), ucast (drop_bit 24 w)]"

definition hit_bytes :: "FrontEndHit \<Rightarrow> u8 list" where
  "hit_bytes h = bytes16 (fh_col h) @ bytes16 (fh_row h) @ bytes16 (fh_tot h)"

definition toFileBinary :: "FrontEndEvent \<Rightarrow> u8 list" where
  "toFileBinary e =
     bytes32 (ev_tag e) @ bytes16 (ev_l1id e) @ bytes16 (ev_bcid e) @ bytes16 (ev_nHits e) @
     concat (map hit_bytes (ev_hits e))"

text \<open>A read from the stream that finds too few bytes sets its fail flag; what the members hold
  then is left unspecified here, as the value \<open>None\<close>.\<close>

definition get16 :: "u8 list \<Rightarrow> (u16 \<times> u8 list) option" where
  "get16 bs = (case bs of b0 # b1 # rest \<Rightarrow> Some (ucast b0 OR push_bit 8 (ucast b1), rest) | _ \<Rightarrow> None)"

definition get32 :: "u8 list \<Rightarrow> (u32 \<times> u8 list) option" where
  "get32 bs = (case bs of
       b0 # b1 # b2 # b3 # rest \<Rightarrow>
         Some (ucast b0 OR push_bit 8 (ucast b1) OR push_bit 16 (ucast b2) OR push_bit 24 (ucast b3), rest)
     | _ \<Rightarrow> None)"

definition get_hit :: "u8 list \<Rightarrow> (FrontEndHit \<times> u8 list) option" where
  "get_hit bs =
     Option.bind (get16 bs) (\<lambda>(c, bs). Option.bind (get16 bs) (\<lambda>(r, bs). Option.bind (get16 bs) (\<lambda>(t, bs).
     Some (\<lparr>fh_col = c, fh_row = r, fh_tot = t\<rparr>, bs))))"

fun get_hits :: "nat \<Rightarrow> u8 list \<Rightarrow> FrontEndEvent \<Rightarrow> (FrontEndEvent \<times> u8 list) option" where
  "get_hits 0 bs e = Some (e, bs)"
| "get_hits (Suc n) bs e = Option.bind (get_hit bs) (\<lambda>(h, bs). get_hits n bs (addHit h e))"

text \<open>Reading appends to the hits the event has.\<close>

definition fromFileBinary :: "u8 list \<Rightarrow> FrontEndEvent \<Rightarrow> (FrontEndEvent \<times> u8 list) option" where
  "fromFileBinary bs e =
     Option.bind (get32 bs) (\<lambda>(tag, bs). Option.bind (get16 bs) (\<lambda>(l1id, bs).
     Option.bind (get16 bs) (\<lambda>(bcid, bs). Option.bind (get16 bs) (\<lambda>(t_hits, bs).
     get_hits (unat t_hits) bs (e\<lparr>ev_tag := tag, ev_l1id := l1id, ev_bcid := bcid\<rparr>)))))"

section \<open>Feedback of a data processor\<close>

text \<open>The \<open>int\<close> members are kept as words; the named tags are negative.\<close>

record FeedbackProcessingInfo =
  packet_size :: u32
  trigger_tag :: u32
  fb_bcid :: u32
  fb_n_clusters :: u32

definition TRIGGER_TAG_ERROR :: u32 where "TRIGGER_TAG_ERROR = - 10"
definition TRIGGER_TAG_RR :: u32 where "TRIGGER_TAG_RR = - 2"
definition TRIGGER_TAG_Control :: u32 where "TRIGGER_TAG_Control = - 3"
definition UNDEFINED_BCID :: u32 where "UNDEFINED_BCID = - 1"

definition new_Feedback :: FeedbackProcessingInfo where
  "new_Feedback =
     \<lparr>packet_size = 0, trigger_tag = TRIGGER_TAG_ERROR, fb_bcid = UNDEFINED_BCID, fb_n_clusters = 0\<rparr>"

section \<open>Laws\<close>

lemma on_curEvent_new [simp]:
  "on_curEvent f (newEvent t l b d) =
   Inr (d\<lparr>fd_events := fd_events d @ [f (new_FrontEndEvent t l b)], fd_curEvent := Some (length (fd_events d))\<rparr>)"
  by (simp add: on_curEvent_def newEvent_def)

lemma get16_bytes [simp]: "get16 (bytes16 w @ bs) = Some (w, bs)"
proof -
  have "ucast (ucast w :: u8) OR push_bit 8 (ucast (ucast (drop_bit 8 w) :: u8)) = w"
    by (rule bit_word_eqI) (auto simp: bits_simps dest: bit_imp_le_length)
  then show ?thesis by (simp add: get16_def bytes16_def)
qed

lemma get32_bytes [simp]: "get32 (bytes32 w @ bs) = Some (w, bs)"
proof -
  let ?y = "ucast (ucast w :: u8) OR push_bit 8 (ucast (ucast (drop_bit 8 w) :: u8)) OR
    push_bit 16 (ucast (ucast (drop_bit 16 w) :: u8)) OR push_bit 24 (ucast (ucast (drop_bit 24 w) :: u8)) :: u32"
  have "?y = w"
  proof (rule bit_word_eqI)
    fix n assume "n < LENGTH(32)"
    then consider "n < 8" | "8 \<le> n" "n < 16" | "16 \<le> n" "n < 24" | "24 \<le> n" "n < 32" by fastforce
    then show "bit ?y n = bit w n" by cases (auto simp: bits_simps)
  qed
  then show ?thesis by (simp add: get32_def bytes32_def)
qed

lemma get_hit_bytes [simp]: "get_hit (hit_bytes h @ bs) = Some (h, bs)"
  by (simp add: get_hit_def hit_bytes_def)

lemma get_hits_bytes:
  "get_hits (length hs) (concat (map hit_bytes hs) @ bs) e =
   Some (e\<lparr>ev_hits := ev_hits e @ hs, ev_nHits := ev_nHits e + of_nat (length hs)\<rparr>, bs)"
  by (induction hs arbitrary: e) (simp_all add: addHit_def add.assoc)

lemma get_hits_length: "get_hits n bs e = Some (e', bs') \<Longrightarrow> ev_nHits e' = ev_nHits e + of_nat n \<and> length (ev_hits e') = length (ev_hits e) + n"
proof (induction n arbitrary: bs e)
  case (Suc n)
  from Suc.prems obtain h bs2 where "get_hits n bs2 (addHit h e) = Some (e', bs')"
    by (auto split: Option.bind_splits)
  from Suc.IH [OF this] show ?case by (simp add: addHit_def)
qed simp

text \<open>The count of an event is the number of its hits modulo 65536; every operation keeps it so.\<close>

definition nHits_ok :: "FrontEndEvent \<Rightarrow> bool" where
  "nHits_ok e \<longleftrightarrow> ev_nHits e = of_nat (length (ev_hits e))"

lemma nHits_ok_intros [simp]:
  "nHits_ok (new_FrontEndEvent t l b)"
  "nHits_ok e \<Longrightarrow> nHits_ok (addHit h e)"
  "nHits_ok e \<Longrightarrow> nHits_ok (addHit_at row col tot e)"
  "nHits_ok e \<Longrightarrow> nHits_ok event \<Longrightarrow> nHits_ok (addEvent event e)"
  by (simp_all add: nHits_ok_def new_FrontEndEvent_def addHit_def addHit_at_def addEvent_def Let_def)

section \<open>Hits of the current event\<close>

text \<open>The container whose current event is its last one, and an event with further hits.\<close>

definition with_event :: "FrontEndEvent list \<Rightarrow> FrontEndEvent \<Rightarrow> FrontEndData" where
  "with_event evs e = \<lparr>fd_curEvent = Some (length evs), fd_events = evs @ [e]\<rparr>"

definition add_hits :: "FrontEndHit list \<Rightarrow> FrontEndEvent \<Rightarrow> FrontEndEvent" where
  "add_hits hs e = e\<lparr>ev_hits := ev_hits e @ hs, ev_nHits := ev_nHits e + of_nat (length hs)\<rparr>"

lemma newEvent_with: "newEvent t l b d = with_event (fd_events d) (new_FrontEndEvent t l b)"
  by (simp add: newEvent_def with_event_def)

lemma on_curEvent_with [simp]: "on_curEvent f (with_event evs e) = Inr (with_event evs (f e))"
  by (simp add: on_curEvent_def with_event_def)

lemma add_hits_simps [simp]: "add_hits [] e = e" "add_hits hs' (add_hits hs e) = add_hits (hs @ hs') e"
  by (simp_all add: add_hits_def add.assoc)

lemma addHit_hits: "addHit h = add_hits [h]"
  by (simp add: fun_eq_iff addHit_def add_hits_def)

lemma addHit_at_hits: "addHit_at row col t = add_hits [\<lparr>fh_col = ucast col, fh_row = ucast row, fh_tot = ucast t\<rparr>]"
  by (simp add: fun_eq_iff addHit_at_def add_hits_def)

lemma rfold_hits:
  assumes "\<And>x e. x \<in> set xs \<Longrightarrow> f x (with_event evs e) = Inr (with_event evs (add_hits (g x) e))"
  shows "rfold f xs (with_event evs e) = Inr (with_event evs (add_hits (concat (map g xs)) e))"
  using assms by (induction xs arbitrary: e) simp_all

section \<open>Properties\<close>

text \<open>C16: An event written to a binary file and read back into an empty event is the same event, and
  the reader stops at the byte after it, exactly as far as the 16-bit count of hits goes: of an event
  with 65536 hits or more only the count modulo 65536 is read, and the reader stops in the middle of
  the hits.\<close>

theorem event_file_roundtrip:
  fixes e :: FrontEndEvent
  assumes "nHits_ok e"
  defines "n \<equiv> length (ev_hits e) mod 65536"
  shows "fromFileBinary (toFileBinary e @ bs) (new_FrontEndEvent t l b) =
    Some (e\<lparr>ev_hits := take n (ev_hits e)\<rparr>, concat (map hit_bytes (drop n (ev_hits e))) @ bs)"
proof -
  note count = assms(1) [unfolded nHits_ok_def]
  have n: "unat (ev_nHits e) = n" by (simp add: count n_def unat_of_nat)
  then have n2: "ev_nHits e = of_nat n" by (simp flip: n)
  have len: "length (take n (ev_hits e)) = n" by (simp add: n_def)
  have "concat (map hit_bytes (ev_hits e)) = concat (map hit_bytes (take n (ev_hits e))) @ concat (map hit_bytes (drop n (ev_hits e)))"
    by (metis append_take_drop_id concat_append map_append)
  then have "get_hits n (concat (map hit_bytes (ev_hits e)) @ bs) x =
      Some (x\<lparr>ev_hits := ev_hits x @ take n (ev_hits e), ev_nHits := ev_nHits x + of_nat n\<rparr>, concat (map hit_bytes (drop n (ev_hits e))) @ bs)" for x
    using get_hits_bytes [of "take n (ev_hits e)" _ x] len by simp
  then show ?thesis
    unfolding fromFileBinary_def toFileBinary_def append_assoc
    by (simp add: n new_FrontEndEvent_def) (simp add: n2 [symmetric])
qed

theorem event_file_roundtrip_witness:
  "fromFileBinary (toFileBinary (addHit_at 2 300 1 (new_FrontEndEvent 5 5 3)) @ [7]) (new_FrontEndEvent 0 0 0) =
     Some (addHit_at 2 300 1 (new_FrontEndEvent 5 5 3), [7])"
  using event_file_roundtrip [of "addHit_at 2 300 1 (new_FrontEndEvent 5 5 3)" "[7]" 0 0 0]
  by (simp add: nHits_ok_def addHit_at_def new_FrontEndEvent_def Let_def)

end
