(* ===== verification/Star_Data.thy ===== *)
theory Star_Data
  imports Event_Data Star_Chip_Packet Star_Clusters
begin

text \<open>
  The data processor of the strips (src/src/libStar/StarDataProcessor.cpp) and the templated parser it
  can use instead of StarChipPacket (src/src/libStar/include/StarProcessor.h). A processor of
  that parser, a class with one member function for each event of the parse, is a function on the
  data type of these calls; a class that leaves a member function as \<open>EmptyProc\<close> has it is the identity
  there. Log messages are left out.
\<close>

section \<open>The templated parser\<close>

datatype StarPacketType =
  SPT_PR | SPT_LP | SPT_ABC_RR | SPT_ABC_TRANSP | SPT_HCC_RR | SPT_ABC_FULL | SPT_ABC_HPR | SPT_HCC_HPR

definition star_packet_types :: "StarPacketType list" where
  "star_packet_types = [SPT_PR, SPT_LP, SPT_ABC_RR, SPT_ABC_TRANSP, SPT_HCC_RR, SPT_ABC_FULL, SPT_ABC_HPR, SPT_HCC_HPR]"

definition type_codes :: "u32 list" where
  "type_codes = [1, 2, 4, 7, 8, 11, 13, 14]"

datatype Callback =
    Proc_begin
  | Parse_error string
  | Packet_type nat
  | Begin_error_block
  | Error_info nat u16
  | End_error_block
  | Data_header bool u8 bool u8 u32
  | Data_no_cluster u32
  | Data_raw_cluster u32 u16
  | Data_cluster u32 u8 u32
  | Data_end
  | Abc_read bool u32 u32 u32 u32
  | Hcc_read bool u32 u32
  | Transparent_word u32 u64
  | Unexpected_type nat
  | Proc_end

type_synonym 's Processor = "Callback \<Rightarrow> 's \<Rightarrow> 's result"

definition EmptyProc :: "'s Processor" where
  "EmptyProc cb s = Inr s"

definition SeqProc :: "'s Processor \<Rightarrow> 't Processor \<Rightarrow> ('s \<times> 't) Processor" where
  "SeqProc pp tt cb s = rbind (pp cb (fst s)) (\<lambda>p. rbind (tt cb (snd s)) (\<lambda>t. Inr (p, t)))"

definition parse_error_return :: "'s Processor \<Rightarrow> string \<Rightarrow> 's \<Rightarrow> ('s \<times> bool) result" where
  "parse_error_return t msg s = rbind (t (Parse_error msg) s) (\<lambda>s. Inr (s, False))"

text \<open>The six bytes after the marker, the first one highest, and the calls for the error block.\<close>

definition block_error_word :: "u8 list \<Rightarrow> nat \<Rightarrow> u64 result" where
  "block_error_word b iW =
     rfold (\<lambda>i error_word. rbind (vec_read b (iW + 1 + i)) (\<lambda>w.
       Inr (error_word OR push_bit (8 * (5 - i)) (ucast w)))) [0..<6] 0"

definition error_infos :: "'s Processor \<Rightarrow> u64 \<Rightarrow> 's \<Rightarrow> 's result" where
  "error_infos t error_word =
     rfold (\<lambda>(c, sh). t (Error_info c (ucast (drop_bit sh error_word AND 0x7ff)))) [(0, 36), (1, 24), (2, 12), (3, 0)]"

function data_loop :: "'s Processor \<Rightarrow> u8 list \<Rightarrow> nat \<Rightarrow> 's \<Rightarrow> ('s \<times> bool) result" where
  "data_loop t b iW s =
     (if iW + 1 > length b then parse_error_return t ''Reached end of words without the end pattern!'' s
      else rbind (vec_read b (iW - 1)) (\<lambda>hi. rbind (vec_read b iW) (\<lambda>lo.
        let word = push_bit 8 (ucast hi) OR ucast lo :: u16
        in if word = 0x77f4 then
             rbind (t Begin_error_block s) (\<lambda>s.
             if length b < iW + 8
             then parse_error_return t ''Expect eight 8-bit error block words (including 0x77f4 marker)'' s
             else rbind (block_error_word b iW) (\<lambda>error_word.
                  rbind (error_infos t error_word s) (\<lambda>s.
                  rbind (t End_error_block s) (\<lambda>s. data_loop t b (iW + 8) s))))
           else if word = 0x6fed then Inr (s, True)
           else if word AND 0x7ff = 0x3fe then
             rbind (t (Data_no_cluster (ucast (drop_bit 11 word AND 0xf))) s) (\<lambda>s. data_loop t b (iW + 2) s)
           else
             let raw_cluster = word AND 0x7ff; input_channel = ucast (drop_bit 11 word AND 0xf);
                 address = ucast (drop_bit 3 raw_cluster AND 0xff); next_pattern = ucast (raw_cluster AND 7)
             in rbind (if word AND 0x8000 \<noteq> 0 then t (Parse_error ''Bad cluster, bit 15 set'') s
                       else rbind (t (Data_raw_cluster input_channel raw_cluster) s)
                                  (t (Data_cluster input_channel address next_pattern)))
                      (\<lambda>s. data_loop t b (iW + 2) s))))"
  by pat_completeness auto

termination
  by (relation "measure (\<lambda>(t, b, iW, s). length b - iW)") auto

declare data_loop.simps [simp del]

text \<open>\<open>b[i]\<close> widened to 32 bits; the parser does not check the index.\<close>

definition rb :: "u8 list \<Rightarrow> nat \<Rightarrow> u32 result" where
  "rb b i = rbind (vec_read b i) (\<lambda>w. Inr (ucast w))"

definition process_HCC_read :: "'s Processor \<Rightarrow> bool \<Rightarrow> u8 list \<Rightarrow> 's \<Rightarrow> ('s \<times> bool) result" where
  "process_HCC_read t hpr b s =
     (if length b \<noteq> 6 then parse_error_return t ''Expect size 6 for HCC read packet'' s
      else rbind (rb b 0) (\<lambda>b0. rbind (rb b 1) (\<lambda>b1. rbind (rb b 2) (\<lambda>b2. rbind (rb b 3) (\<lambda>b3.
           rbind (rb b 4) (\<lambda>b4. rbind (rb b 5) (\<lambda>b5.
           let address = (ucast (push_bit 4 (b0 AND 0xf) OR (drop_bit 4 b1 AND 0xf)) :: u8);
               v = push_bit 28 (b1 AND 0xf) OR push_bit 20 (b2 AND 0xff) OR push_bit 12 (b3 AND 0xff)
                 OR push_bit 4 (b4 AND 0xff) OR (drop_bit 4 b5 AND 0xf)
           in rbind (t (Hcc_read hpr (ucast address) v) s) (\<lambda>s. rbind (t Proc_end s) (\<lambda>s. Inr (s, True))))))))))"

definition process_ABC_read :: "'s Processor \<Rightarrow> bool \<Rightarrow> u8 list \<Rightarrow> 's \<Rightarrow> ('s \<times> bool) result" where
  "process_ABC_read t hpr b s =
     (if length b \<noteq> 9 then parse_error_return t ''Expect size 9 for ABC read packet'' s
      else rbind (rb b 0) (\<lambda>b0. rbind (rb b 1) (\<lambda>b1. rbind (rb b 2) (\<lambda>b2. rbind (rb b 3) (\<lambda>b3.
           rbind (rb b 4) (\<lambda>b4. rbind (rb b 5) (\<lambda>b5. rbind (rb b 6) (\<lambda>b6. rbind (rb b 7) (\<lambda>b7. rbind (rb b 8) (\<lambda>b8.
           let channel = b0 AND 0xf; address = (ucast (b1 AND 0xff) :: u8);
               v = push_bit 28 (b2 AND 0xf) OR push_bit 20 (b3 AND 0xff) OR push_bit 12 (b4 AND 0xff)
                 OR push_bit 4 (b5 AND 0xff) OR drop_bit 4 (b6 AND 0xf0);
               status = (ucast (push_bit 12 (b6 AND 0xf) OR push_bit 4 (b7 AND 0xff) OR drop_bit 4 (b8 AND 0xf0)) :: u16)
           in rbind (t (Abc_read hpr channel (ucast address) v (ucast status)) s) (\<lambda>s.
              rbind (t Proc_end s) (\<lambda>s. Inr (s, True)))))))))))))"

definition process_PRLP :: "'s Processor \<Rightarrow> bool \<Rightarrow> u8 list \<Rightarrow> 's \<Rightarrow> ('s \<times> bool) result" where
  "process_PRLP t pr b s =
     rbind (rb b 0) (\<lambda>b0. rbind (rb b 1) (\<lambda>b1.
     let flag = drop_bit 3 b0 AND 1; l0id = push_bit 4 (b0 AND 7) OR (drop_bit 4 b1 AND 0xf);
         bcid = drop_bit 1 b1 AND 7; bcid_parity = b1 AND 1
     in rbind (t (Data_header pr (ucast bcid) (bcid_parity \<noteq> 0) (ucast l0id) flag) s) (\<lambda>s.
        rbind (data_loop t b 3 s) (\<lambda>(s, ended).
        if \<not> ended then Inr (s, False)
        else rbind (t Data_end s) (\<lambda>s. rbind (t Proc_end s) (\<lambda>s. Inr (s, True)))))))"

definition process_transparent :: "'s Processor \<Rightarrow> u8 list \<Rightarrow> 's \<Rightarrow> ('s \<times> bool) result" where
  "process_transparent t b s =
     rbind (rb b 0) (\<lambda>b0.
     rbind (rfold (\<lambda>i bits. rbind (vec_read b (1 + i)) (\<lambda>w. Inr (push_bit 8 bits OR ucast w))) [0..<8] (0 :: u64)) (\<lambda>bits.
     rbind (t (Transparent_word (b0 AND 0xf) bits) s) (\<lambda>s. rbind (t Proc_end s) (\<lambda>s. Inr (s, True)))))"

definition StarProcessPacket :: "'s Processor \<Rightarrow> u8 list \<Rightarrow> 's \<Rightarrow> ('s \<times> bool) result" where
  "StarProcessPacket t b s =
     rbind (t Proc_begin s) (\<lambda>s.
     if length b < 4 then parse_error_return t ''Not enough words'' s
     else rbind (rb b 0) (\<lambda>b0.
       let raw_type = drop_bit 4 b0 AND 0xf; type_index = unat (drop_bit 1 (raw_type AND 0xe))
       in if type_codes ! type_index \<noteq> raw_type then parse_error_return t ''Bad packet type'' s
          else rbind (t (Packet_type type_index) s) (\<lambda>s.
            case star_packet_types ! type_index of
              SPT_HCC_RR \<Rightarrow> process_HCC_read t False b s
            | SPT_HCC_HPR \<Rightarrow> process_HCC_read t True b s
            | SPT_ABC_RR \<Rightarrow> process_ABC_read t False b s
            | SPT_ABC_HPR \<Rightarrow> process_ABC_read t True b s
            | SPT_LP \<Rightarrow> process_PRLP t False b s
            | SPT_PR \<Rightarrow> process_PRLP t True b s
            | SPT_ABC_TRANSP \<Rightarrow> process_transparent t b s
            | SPT_ABC_FULL \<Rightarrow>
                rbind (t (Unexpected_type type_index) s) (\<lambda>s. rbind (t Proc_end s) (\<lambda>s. Inr (s, True))))))"

section \<open>Hits\<close>

definition StripsPerABCRow :: u32 where "StripsPerABCRow = 128"

text \<open>A cluster: its first strip and the strips of its pattern, in the current event.\<close>

definition split_hits :: "u32 \<Rightarrow> u32 \<Rightarrow> u32 \<Rightarrow> u8 \<Rightarrow> u32 \<Rightarrow> FrontEndData \<Rightarrow> FrontEndData result" where
  "split_hits base row histo_base address nextPattern d =
     rbind (on_curEvent (addHit_at row (histo_base + ((ucast address AND 0x7f) + base)) 1) d) (\<lambda>d.
     rfold (\<lambda>i d.
       if \<not> bit nextPattern i then Inr d
       else let nextAddress = ucast address + (3 - of_nat i) :: u32
            in on_curEvent (addHit_at row (histo_base + ((nextAddress AND 0x7f) + base)) 1) d) [0..<3] d)"

definition BAD_SLOT :: u8 where "BAD_SLOT = 15"

definition process_cluster :: "u8 list \<Rightarrow> Cluster \<Rightarrow> FrontEndData \<Rightarrow> FrontEndData result" where
  "process_cluster chip_map cluster d =
     (let row = (drop_bit 7 (ucast (cl_address cluster)) AND 1) + 1 :: u32
      in if 11 \<le> cl_input_channel cluster then Inr d
         else rbind (vec_read chip_map (unat (cl_input_channel cluster))) (\<lambda>histo_chip.
           if histo_chip = BAD_SLOT then Inr d
           else split_hits 1 row (ucast histo_chip * StripsPerABCRow) (cl_address cluster) (ucast (cl_next cluster)) d))"

text \<open>The four counters of a hit counter register, each as so many hits of its strip.\<close>

definition hit_counter_hits :: "u32 \<Rightarrow> u32 \<Rightarrow> u32 \<Rightarrow> u32 \<Rightarrow> FrontEndData \<Rightarrow> FrontEndData result" where
  "hit_counter_hits base ic address counts d =
     (let start_channel = (address - 0x80) * 4
      in rfold (\<lambda>i d.
           let channel = start_channel + of_nat i; row = (channel AND 1) + 1;
               hits = unat (drop_bit (8 * i) counts AND 0xff)
           in rfold (\<lambda>_. on_curEvent (addHit_at row (ic * StripsPerABCRow + ((drop_bit 1 channel AND 0x7f) + base)) 1)) [0..<hits] d)
         [0..<4] d)"

section \<open>The data processor\<close>

type_synonym proc_state = "FrontEndData \<times> FeedbackProcessingInfo"

fun packet_type_code :: "PacketType \<Rightarrow> u32" where
  "packet_type_code TYP_NONE = 0"
| "packet_type_code TYP_PR = 1"
| "packet_type_code TYP_LP = 2"
| "packet_type_code TYP_ABC_RR = 3"
| "packet_type_code TYP_ABC_TRANSP = 4"
| "packet_type_code TYP_HCC_RR = 5"
| "packet_type_code TYP_ABC_FULL = 6"
| "packet_type_code TYP_ABC_HPR = 7"
| "packet_type_code TYP_HCC_HPR = 8"
| "packet_type_code TYP_UNKNOWN = 9"

definition n_clusters :: "StarChipPacket \<Rightarrow> u32" where
  "n_clusters p = of_nat (length (sp_clusters p))"

definition process_physics :: "u8 list \<Rightarrow> StarChipPacket \<Rightarrow> proc_state \<Rightarrow> proc_state result" where
  "process_physics chip_map packet s =
     (case s of (curOut, curStatus) \<Rightarrow>
      let l0id = sp_l0id packet; l1id = sp_l0id packet; bcid = sp_bcid packet;
          curStatus = curStatus\<lparr>trigger_tag := l0id, fb_n_clusters := n_clusters packet, fb_bcid := bcid\<rparr>
      in if n_clusters packet = 0 then Inr (curOut, curStatus)
         else rbind (rfold (process_cluster chip_map) (sp_clusters packet) (newEvent l0id l1id bcid curOut)) (\<lambda>curOut.
              Inr (curOut, curStatus)))"

definition process_register_read :: "StarChipPacket \<Rightarrow> proc_state \<Rightarrow> proc_state result" where
  "process_register_read packet s =
     (case s of (curOut, curStatus) \<Rightarrow>
      let curStatus = curStatus\<lparr>trigger_tag := TRIGGER_TAG_RR\<rparr>; address = ucast (sp_address packet) :: u32
      in if 0x80 \<le> address \<and> address \<le> 0xbf then
           (if sp_value packet = 0 then Inr (curOut, curStatus)
            else rbind (hit_counter_hits 1 (ucast (channel_abc packet)) address (sp_value packet) (newEvent 0 0 0 curOut)) (\<lambda>curOut.
                 Inr (curOut, curStatus)))
         else
           let d = \<lparr>fh_col = ucast (sp_value packet AND 0xffff), fh_row = ucast (drop_bit 16 (sp_value packet) AND 0xffff),
                    fh_tot = ucast (0x8000 OR push_bit 12 (packet_type_code (sp_type packet) AND 7)
                      OR push_bit 4 (address AND 0xff) OR ucast (channel_abc packet))\<rparr>
           in rbind (on_curEvent (addHit d) (newEvent 0xffffffff 0xffffffff 0xffffffff curOut)) (\<lambda>curOut.
              Inr (curOut, curStatus)))"

definition process_data :: "u8 list \<Rightarrow> u32 list \<Rightarrow> proc_state \<Rightarrow> proc_state result" where
  "process_data chip_map curIn s =
     (case s of (curOut, curStatus) \<Rightarrow>
      let curStatus = curStatus\<lparr>packet_size := of_nat (length curIn)\<rparr>
      in rbind (parse_packet (packet_of_data curIn)) (\<lambda>(_, packet).
         let packetType = sp_type packet
         in if packetType = TYP_LP \<or> packetType = TYP_PR then process_physics chip_map packet (curOut, curStatus)
            else if packetType = TYP_ABC_RR \<or> packetType = TYP_HCC_RR then process_register_read packet (curOut, curStatus)
            else if packetType = TYP_ABC_HPR \<or> packetType = TYP_HCC_HPR
            then Inr (curOut, curStatus\<lparr>trigger_tag := TRIGGER_TAG_Control\<rparr>)
            else Inr (curOut, curStatus)))"

text \<open>The processor of the templated parser; \<open>base\<close> is the template parameter \<open>BASE\<close>.\<close>

definition MyProc_data_cluster :: "u32 \<Rightarrow> u8 list \<Rightarrow> u32 \<Rightarrow> u8 \<Rightarrow> u32 \<Rightarrow> proc_state \<Rightarrow> proc_state result" where
  "MyProc_data_cluster base chip_map input_channel address next_pattern s =
     (case s of (curOut, curStatus) \<Rightarrow>
      let curStatus = curStatus\<lparr>fb_n_clusters := fb_n_clusters curStatus + 1\<rparr>;
          row = (drop_bit 7 (ucast address) AND 1) + base
      in if 11 \<le> input_channel then Inr (curOut, curStatus)
         else rbind (vec_read chip_map (unat input_channel)) (\<lambda>histo_chip.
           if histo_chip = BAD_SLOT then Inr (curOut, curStatus)
           else rbind (split_hits base row (ucast histo_chip * StripsPerABCRow) address next_pattern curOut) (\<lambda>curOut.
                Inr (curOut, curStatus))))"

fun MyProc :: "u32 \<Rightarrow> u8 list \<Rightarrow> proc_state Processor" where
  "MyProc base chip_map (Data_header pr_not_lp bcid parity l0id flag) (curOut, curStatus) =
     Inr (newEvent (ucast l0id) (ucast l0id) (ucast bcid) curOut,
          curStatus\<lparr>trigger_tag := ucast l0id, fb_bcid := ucast bcid\<rparr>)"
| "MyProc base chip_map (Data_cluster input_channel address next_pattern) s =
     MyProc_data_cluster base chip_map input_channel address next_pattern s"
| "MyProc base chip_map (Hcc_read hpr_not_rr address v) (curOut, curStatus) =
     Inr (curOut, curStatus\<lparr>trigger_tag := if hpr_not_rr then TRIGGER_TAG_Control else TRIGGER_TAG_RR\<rparr>)"
| "MyProc base chip_map (Abc_read hpr_not_rr ic address v status) (curOut, curStatus) =
     (let curStatus = curStatus\<lparr>trigger_tag := if hpr_not_rr then TRIGGER_TAG_Control else TRIGGER_TAG_RR\<rparr>
      in if 0x80 \<le> address \<and> address \<le> 0xbf \<and> v \<noteq> 0
         then rbind (hit_counter_hits base ic address v (newEvent 0 0 0 curOut)) (\<lambda>curOut. Inr (curOut, curStatus))
         else Inr (curOut, curStatus))"
| "MyProc base chip_map cb s = EmptyProc cb s"

text \<open>The buffer of 32-bit words, read byte by byte on a little-endian host. The error flag of the
  processor is never set.\<close>

definition data_bytes :: "u32 list \<Rightarrow> u8 list" where
  "data_bytes ws = concat (map (\<lambda>w. map (\<lambda>i. ucast (drop_bit (8 * i) w)) [0..<4]) ws)"

definition process_data_template :: "u32 \<Rightarrow> u8 list \<Rightarrow> u32 list \<Rightarrow> proc_state \<Rightarrow> proc_state result" where
  "process_data_template base chip_map curIn s =
     (case s of (curOut, curStatus) \<Rightarrow>
      let curStatus = curStatus\<lparr>packet_size := of_nat (length curIn)\<rparr>
      in rbind (StarProcessPacket (MyProc base chip_map) (data_bytes curIn) (curOut, curStatus)) (\<lambda>(s, _). Inr s))"

text \<open>The raw mode: each word is a hit.\<close>

definition raw_hit :: "u32 \<Rightarrow> FrontEndHit" where
  "raw_hit w = \<lparr>fh_col = ucast (w AND 0xffff), fh_row = ucast (drop_bit 16 w AND 0xffff), fh_tot = 0xffff\<rparr>"

definition process_raw_data :: "u8 list \<Rightarrow> u32 list \<Rightarrow> proc_state \<Rightarrow> proc_state result" where
  "process_raw_data chip_map curIn s =
     (case s of (curOut, curStatus) \<Rightarrow>
      let curOut = newEvent 0xffffffff 0xffffffff 0xffffffff curOut;
          curStatus = curStatus\<lparr>packet_size := of_nat (length curIn), trigger_tag := TRIGGER_TAG_Control, fb_bcid := 0xffffffff\<rparr>
      in rbind (rfold (\<lambda>w. on_curEvent (addHit (raw_hit w))) curIn curOut) (\<lambda>curOut. Inr (curOut, curStatus)))"

text \<open>The configuration selects the function; the raw mode wins.\<close>

datatype ProcData = Process_data | Process_template u32 | Process_raw

definition loadConfig :: "bool \<Rightarrow> bool \<Rightarrow> bool \<Rightarrow> ProcData \<Rightarrow> ProcData" where
  "loadConfig use_template zero_base raw_bits proc_data =
     (let proc_data = (if use_template then Process_template (if zero_base then 0 else 1) else proc_data)
      in if raw_bits then Process_raw else proc_data)"

fun proc_data :: "ProcData \<Rightarrow> u8 list \<Rightarrow> u32 list \<Rightarrow> proc_state \<Rightarrow> proc_state result" where
  "proc_data Process_data = process_data"
| "proc_data (Process_template base) = process_data_template base"
| "proc_data Process_raw = process_raw_data"

text \<open>A container of raw data: one output for all, one feedback for each block, in order.\<close>

definition process_event_core :: "ProcData \<Rightarrow> u8 list \<Rightarrow> u32 list list \<Rightarrow> (FrontEndData \<times> FeedbackProcessingInfo list) result" where
  "process_event_core p chip_map curIn =
     rfold (\<lambda>r (output, fbs).
       rbind (proc_data p chip_map r (output, new_Feedback)) (\<lambda>(output, fb_stat). Inr (output, fbs @ [fb_stat])))
     curIn (new_FrontEndData, [])"

section \<open>Hits of the current event\<close>

definition cluster_hit :: "u32 \<Rightarrow> u32 \<Rightarrow> u32 \<Rightarrow> u32 \<Rightarrow> FrontEndHit" where
  "cluster_hit base row histo_base a =
     \<lparr>fh_col = ucast (histo_base + ((a AND 0x7f) + base)), fh_row = ucast row, fh_tot = 1\<rparr>"

definition split_list :: "u32 \<Rightarrow> u32 \<Rightarrow> u32 \<Rightarrow> u8 \<Rightarrow> u32 \<Rightarrow> FrontEndHit list" where
  "split_list base row histo_base address nextPattern =
     map (cluster_hit base row histo_base)
       (ucast address # concat (map (\<lambda>i. if bit nextPattern i then [ucast address + (3 - of_nat i)] else []) [0..<3]))"

lemma split_hits_list:
  "split_hits base row histo_base address nextPattern (with_event evs e) =
   Inr (with_event evs (add_hits (split_list base row histo_base address nextPattern) e))"
proof -
  have "rfold (\<lambda>i d. if \<not> bit nextPattern i then Inr d
       else let nextAddress = ucast address + (3 - of_nat i) :: u32
            in on_curEvent (addHit_at row (histo_base + ((nextAddress AND 0x7f) + base)) 1) d) [0..<3] (with_event evs e') =
     Inr (with_event evs (add_hits (concat (map (\<lambda>i. if bit nextPattern i
       then [cluster_hit base row histo_base (ucast address + (3 - of_nat i))] else []) [0..<3])) e'))" for e'
    by (rule rfold_hits) (simp add: addHit_at_hits cluster_hit_def Let_def)
  moreover have "concat (map (\<lambda>i. if bit nextPattern i then [cluster_hit base row histo_base (ucast address + (3 - of_nat i))] else []) is)
      = map (cluster_hit base row histo_base) (concat (map (\<lambda>i. if bit nextPattern i then [ucast address + (3 - of_nat i)] else []) is))" for "is"
    by (induction "is") simp_all
  ultimately show ?thesis
    by (simp add: split_hits_def split_list_def addHit_at_hits cluster_hit_def del: upt_Suc)
qed

definition hits_of :: "u32 \<Rightarrow> u8 list \<Rightarrow> Cluster \<Rightarrow> FrontEndHit list" where
  "hits_of base chip_map c =
     (if 11 \<le> cl_input_channel c \<or> chip_map ! unat (cl_input_channel c) = BAD_SLOT then []
      else split_list base ((drop_bit 7 (ucast (cl_address c)) AND 1) + base)
             (ucast (chip_map ! unat (cl_input_channel c)) * StripsPerABCRow) (cl_address c) (ucast (cl_next c)))"

lemma process_cluster_hits:
  assumes "length chip_map = 11"
  shows "process_cluster chip_map c (with_event evs e) = Inr (with_event evs (add_hits (hits_of 1 chip_map c) e))"
proof -
  have "unat (cl_input_channel c) < length chip_map" if "\<not> 11 \<le> cl_input_channel c"
    using that assms by (simp add: word_le_nat_alt)
  then show ?thesis by (simp add: process_cluster_def hits_of_def Let_def split_hits_list)
qed

lemma process_clusters_hits:
  assumes "length chip_map = 11"
  shows "rfold (process_cluster chip_map) cs (newEvent t l b d) =
    Inr (with_event (fd_events d) (add_hits (concat (map (hits_of 1 chip_map) cs)) (new_FrontEndEvent t l b)))"
  unfolding newEvent_with by (rule rfold_hits) (rule process_cluster_hits [OF assms])

section \<open>The strips of a cluster\<close>

text \<open>The hit of a strip of the chip in a histogram slot.\<close>

definition strip_hit :: "u8 \<Rightarrow> nat \<Rightarrow> FrontEndHit" where
  "strip_hit slot i = \<lparr>fh_col = of_nat (unat slot * 128 + i mod 128 + 1), fh_row = of_nat (i div 128 + 1), fh_tot = 1\<rparr>"

definition cluster_list :: "u16 \<Rightarrow> nat list" where
  "cluster_list c =
     (let a = unat (drop_bit 3 c AND 0xff)
      in a # (if bit c 0 then [a + 3] else []) @ (if bit c 1 then [a + 2] else []) @ (if bit c 2 then [a + 1] else []))"

lemma cluster_list_strips: "set (cluster_list c) = cluster_strips c" "length (cluster_list c) = card (cluster_strips c)"
proof -
  show s: "set (cluster_list c) = cluster_strips c"
    by (auto simp: cluster_list_def cluster_strips_def Let_def)
  have "distinct (cluster_list c)" by (auto simp: cluster_list_def Let_def)
  then show "length (cluster_list c) = card (cluster_strips c)" by (simp add: distinct_card s [symmetric])
qed

lemma ucast_of_nat_down: "(ucast (of_nat n :: u32) :: u16) = of_nat n"
  by (rule bit_word_eqI) (auto simp: bit_simps)

lemma low7: "j < 2 ^ 32 \<Longrightarrow> (of_nat j :: u32) AND 0x7f = of_nat (j mod 128)"
proof -
  have "take_bit 7 j = j mod 128" by (simp add: take_bit_eq_mod)
  then show ?thesis unfolding and_literals by (metis take_bit_of_nat)
qed

lemma row_bit:
  assumes "n < 256"
  shows "drop_bit 7 (of_nat n :: u32) AND 1 = of_nat (n div 128 mod 2)"
proof -
  have "drop_bit 7 (of_nat n :: u32) AND 1 = of_bool (bit (of_nat n :: u32) 7)"
    by (simp only: and_one_eq mod_2_eq_odd bit_iff_odd_drop_bit)
  also have "bit (of_nat n :: u32) 7 \<longleftrightarrow> odd (n div 128)" by (simp only: bit_of_nat_iff) (simp add: bit_iff_odd)
  also have "of_bool (odd (n div 128)) = (of_nat (n div 128 mod 2) :: u32)" by (simp add: mod_2_eq_odd)
  finally show ?thesis .
qed

lemma cluster_hit_strip:
  assumes "j < 256" and "row = of_nat (j div 128 + 1)"
  shows "cluster_hit 1 row (ucast slot * StripsPerABCRow) (of_nat j) = strip_hit slot j"
proof -
  have s: "ucast slot = (of_nat (unat slot) :: u32)" by simp
  have "ucast slot * StripsPerABCRow + ((of_nat j AND 0x7f) + 1) = (of_nat (unat slot * 128 + j mod 128 + 1) :: u32)"
    unfolding s StripsPerABCRow_def by (subst low7) (use assms(1) in simp_all)
  then show ?thesis
    unfolding cluster_hit_def strip_hit_def assms(2) ucast_of_nat_down by (simp only: ucast_of_nat_down)
qed

lemma split_list_strips:
  fixes c :: u16
  assumes "in_row c"
  defines "a \<equiv> (ucast (drop_bit 3 c AND 0xff) :: u8)"
  shows "split_list 1 ((drop_bit 7 (ucast a) AND 1) + 1) (ucast slot * StripsPerABCRow) a (ucast (ucast (c AND 7) :: u8)) =
    map (strip_hit slot) (cluster_list c)"
proof -
  let ?n = "unat (drop_bit 3 c AND 0xff)"
  have n: "?n < 256" using unat_take_bit_lt [of 8 "drop_bit 3 c"] unfolding and_literals by simp
  have ua: "unat a = ?n"
    using n by (simp add: a_def unsigned_ucast_eq take_bit_nat_eq_self)
  have ca: "ucast a = (of_nat ?n :: u32)" unfolding ua [symmetric] by simp
  from assms(1) obtain r where r: "cluster_strips c \<subseteq> {row_base r..<row_base r + 128}" unfolding in_row_def by blast
  have bound: "j < 256 \<and> j div 128 = (if r then 1 else 0)" if "j \<in> set (cluster_list c)" for j
    using that r unfolding cluster_list_strips by (force simp: row_base_def split: if_splits)
  have first: "?n \<in> set (cluster_list c)" by (simp add: cluster_list_def Let_def)
  have row: "(drop_bit 7 (ucast a) AND 1) + 1 = (of_nat (j div 128 + 1) :: u32)" if "j \<in> set (cluster_list c)" for j
  proof -
    have "drop_bit 7 (ucast a :: u32) AND 1 = of_nat (?n div 128 mod 2)"
      unfolding ca by (rule row_bit [OF n])
    moreover have "?n div 128 mod 2 = j div 128" using bound [OF that] bound [OF first] by simp
    ultimately show ?thesis by simp
  qed
  have nx: "bit (ucast (ucast (c AND 7) :: u8) :: u32) i \<longleftrightarrow> bit c i" if "i < 3" for i
    using that by (simp add: bits_simps)
  have up: "[0..<3] = [0, 1, 2 :: nat]" by (simp add: upt_rec)
  have "(ucast a # concat (map (\<lambda>i. if bit (ucast (ucast (c AND 7) :: u8) :: u32) i then [ucast a + (3 - of_nat i)] else []) [0..<3])) =
      map (of_nat :: nat \<Rightarrow> u32) (cluster_list c)"
    unfolding up ca cluster_list_def Let_def using nx [of 0] nx [of 1] nx [of 2] by simp
  then show ?thesis
    unfolding split_list_def list.map(2) [symmetric] using bound row
    by (simp add: list.map(2) [symmetric] comp_def cluster_hit_strip del: list.map(2))
qed

end
