(* ===== verification/Star_Readout.thy ===== *)
theory Star_Readout
  imports Star_Data "HOL-Library.Multiset"
begin

text \<open>
  From the hits of the emulated chips to the events of the data processor: the cluster finder, the
  packet builder, the transport, the parser and the data processor in sequence.
\<close>

section \<open>The clusters of one channel\<close>

lemma in_row_not_empty_word:
  assumes "in_row c"
  shows "c AND 0x7ff \<noteq> 0x3fe"
proof
  assume a: "c AND 0x7ff = 0x3fe"
  have b: "bit c n \<longleftrightarrow> bit (0x3fe :: u16) n" if "n < 11" for n
    using arg_cong [OF a, where f = "\<lambda>w. bit w n"] that by (simp add: bits_simps)
  have "drop_bit 3 c AND 0xff = 127"
  proof (rule bit_word_eqI)
    fix n assume "n < LENGTH(16)"
    show "bit (drop_bit 3 c AND 0xff) n \<longleftrightarrow> bit (127 :: u16) n"
    proof (cases "n < 8")
      case True
      then have "bit (drop_bit 3 c AND 0xff) n \<longleftrightarrow> bit (0x3fe :: u16) (3 + n)" using b [of "3 + n"] by (simp add: bits_simps)
      also have "(0x3fe :: u16) = push_bit 3 127 OR 6" by simp
      also have "bit (push_bit 3 127 OR 6 :: u16) (3 + n) \<longleftrightarrow> bit (127 :: u16) n"
      proof -
        have "list_all (\<lambda>n. bit (push_bit 3 127 OR 6 :: u16) (3 + n) \<longleftrightarrow> bit (127 :: u16) n) [0..<8]" by code_simp
        then show ?thesis unfolding list_all_iff by (rule bspec) (use True in simp)
      qed
      finally show ?thesis .
    next
      case False
      have "(127 :: u16) = mask 7" by (simp add: mask_eq_exp_minus_1)
      with False show ?thesis by (simp add: bits_simps bit_mask_iff)
    qed
  qed
  moreover have "bit c 2" using b [of 2] by (simp add: bits_simps bit_iff_odd)
  ultimately have "{127, 128} \<subseteq> cluster_strips c" by (simp add: cluster_strips_def Let_def)
  with assms show False by (force simp: in_row_def row_base_def split: if_splits)
qed

text \<open>What the cluster finder promises to its clients.\<close>

lemma finder_channel:
  assumes "63 \<le> m" and "hits \<noteq> 0"
  shows "mset (concat (map cluster_list (clusterFinder hits m))) = mset_set {i. bit hits i}"
    and "\<forall>c \<in> set (clusterFinder hits m). in_row c" and "clusterFinder hits m \<noteq> []" and "length (clusterFinder hits m) \<le> 64"
proof -
  obtain new where cf: "clusterFinder hits m = (if new = [] then [0x3fe] else butlast new @ [last new OR push_bit 11 1])"
    and new: "strips_of new = {i. bit hits i}" "strip_count new = card {i. bit hits i}"
      "\<forall>c \<in> set new. in_row c" "length new \<le> 64" "new = [] \<longleftrightarrow> hits = 0"
    by (rule clusterFinder_words [OF assms(1), of hits]) (rule that)
  obtain xs c where xc: "new = xs @ [c]" using new(5) assms(2) by (metis append_butlast_last_id)
  have eq: "clusterFinder hits m = xs @ [c OR push_bit 11 1]" using cf by (simp add: xc)
  have row: "in_row (c OR push_bit 11 1)" using new(3) unfolding in_row_def flag_strips by (simp add: xc)
  with new(3) show "\<forall>c \<in> set (clusterFinder hits m). in_row c" unfolding eq by (simp add: xc)
  show "clusterFinder hits m \<noteq> []" "length (clusterFinder hits m) \<le> 64" using new(4) unfolding eq by (simp_all add: xc)
  have s: "strips_of (clusterFinder hits m) = {i. bit hits i}" "strip_count (clusterFinder hits m) = card {i. bit hits i}"
    using new(1,2) flag_strips [of c] unfolding eq by (simp_all add: xc strip_count_def del: push_bit_of_1)
  let ?l = "concat (map cluster_list (clusterFinder hits m))"
  have set: "set ?l = {i. bit hits i}" using s(1) by (simp add: strips_of_def cluster_list_strips)
  have "length ?l = card (set ?l)" unfolding set using s(2) by (simp add: length_concat strip_count_def cluster_list_strips comp_def)
  then have "distinct ?l" by (rule card_distinct [OF sym])
  then show "mset ?l = mset_set {i. bit hits i}" unfolding set [symmetric] by (rule mset_set_set [symmetric])
qed

definition channel_clusters :: "u8 \<Rightarrow> StripData option \<Rightarrow> u16 list" where
  "channel_clusters m p = (case p of None \<Rightarrow> [] | Some h \<Rightarrow> clusterFinder h m)"

definition sent_channel :: "nat \<Rightarrow> u16 list \<Rightarrow> Cluster list" where
  "sent_channel ic cs = map (\<lambda>c.
     \<lparr>cl_input_channel = of_nat ic, cl_raw_cluster = ucast (c AND 0x7ff), cl_address = ucast (drop_bit 3 c AND 0xff),
      cl_next = ucast (c AND 7)\<rparr>) (filter (\<lambda>c. c AND 0x7ff \<noteq> 0x3fe) cs)"

lemma sent_clusters_channels: "sent_clusters cls = concat (map (\<lambda>(ic, cs). sent_channel ic cs) (zip [0..<length cls] cls))"
  by (simp add: sent_clusters_def sent_channel_def)

lemma sent_channel_empty [simp]: "sent_channel ic (clusterFinder 0 m) = []"
proof -
  have "clusterFinder_loop (unat m) (0, 0) (0, 0) [] = []" by (simp add: clusterFinder_loop.simps)
  then show ?thesis by (simp add: sent_channel_def clusterFinder_def Let_def)
qed

lemma hits_of_sent:
  assumes "ic < 11" and "in_row c"
  shows "hits_of 1 chip_map
      \<lparr>cl_input_channel = of_nat ic, cl_raw_cluster = r, cl_address = ucast (drop_bit 3 c AND 0xff), cl_next = ucast (c AND 7)\<rparr> =
    (if chip_map ! ic = BAD_SLOT then [] else map (strip_hit (chip_map ! ic)) (cluster_list c))"
proof -
  have u: "unat (of_nat ic :: u8) = ic" using assms(1) by (simp add: unat_of_nat)
  then have "\<not> 11 \<le> (of_nat ic :: u8)" using assms(1) by (simp add: word_le_nat_alt)
  then show ?thesis using split_list_strips [OF assms(2), of "chip_map ! ic"] by (simp add: hits_of_def u)
qed

definition channel_hits :: "u8 list \<Rightarrow> nat \<Rightarrow> StripData option \<Rightarrow> FrontEndHit multiset" where
  "channel_hits chip_map ic p =
     (case p of None \<Rightarrow> {#}
      | Some h \<Rightarrow> if chip_map ! ic = BAD_SLOT then {#} else image_mset (strip_hit (chip_map ! ic)) (mset_set {i. bit h i}))"

lemma channel_readout:
  assumes "63 \<le> m" and "ic < 11"
  shows "mset (concat (map (hits_of 1 chip_map) (sent_channel ic (channel_clusters m p)))) = channel_hits chip_map ic p"
proof (cases p)
  case None
  then show ?thesis by (simp add: channel_clusters_def sent_channel_def channel_hits_def)
next
  case (Some h)
  show ?thesis
  proof (cases "h = 0")
    case True
    have none: "{i. bit (0 :: StripData) i} = {}" by simp
    show ?thesis
      unfolding Some True channel_clusters_def channel_hits_def option.case sent_channel_empty none by simp
  next
    case False
    note f = finder_channel [OF assms(1) False]
    have keep: "filter (\<lambda>c. c AND 0x7ff \<noteq> 0x3fe) (clusterFinder h m) = clusterFinder h m"
      using f(2) in_row_not_empty_word by (intro filter_True) blast
    have "map (hits_of 1 chip_map) (sent_channel ic (clusterFinder h m)) =
        map (\<lambda>c. if chip_map ! ic = BAD_SLOT then [] else map (strip_hit (chip_map ! ic)) (cluster_list c)) (clusterFinder h m)"
      unfolding sent_channel_def keep map_map comp_def using f(2) by (intro map_cong refl) (simp add: hits_of_sent [OF assms(2)])
    moreover have "concat (map (\<lambda>c. map g (cluster_list c)) cs) = map g (concat (map cluster_list cs))" for g :: "nat \<Rightarrow> FrontEndHit" and cs
      by (induction cs) simp_all
    ultimately show ?thesis
      using f(1) by (simp add: Some channel_clusters_def channel_hits_def)
  qed
qed

section \<open>All channels\<close>

definition readout_hits :: "u8 list \<Rightarrow> StripData option list \<Rightarrow> FrontEndHit multiset" where
  "readout_hits chip_map ps = sum_list (map (\<lambda>(ic, p). channel_hits chip_map ic p) (zip [0..<length ps] ps))"

lemma mset_concat_map: "mset (concat (map f xs)) = sum_list (map (\<lambda>x. mset (f x)) xs)"
  by (induction xs) simp_all

lemma sent_readout:
  assumes "63 \<le> m" and "length ps \<le> 11"
  shows "mset (concat (map (hits_of 1 chip_map) (sent_clusters (map (channel_clusters m) ps)))) = readout_hits chip_map ps"
proof -
  have "concat (map (hits_of 1 chip_map) (sent_clusters (map (channel_clusters m) ps))) =
      concat (map (\<lambda>(ic, p). concat (map (hits_of 1 chip_map) (sent_channel ic (channel_clusters m p)))) (zip [0..<length ps] ps))"
  proof -
    have "concat (map g (concat (map (\<lambda>(ic, cs). sent_channel ic cs) (zip ns (map f ps))))) =
        concat (map (\<lambda>(ic, p). concat (map g (sent_channel ic (f p)))) (zip ns ps))" for g :: "Cluster \<Rightarrow> FrontEndHit list" and f ns
      by (induction ns ps rule: list_induct2') simp_all
    then show ?thesis by (simp add: sent_clusters_channels)
  qed
  moreover have "mset (case x of (ic, p) \<Rightarrow> concat (map (hits_of 1 chip_map) (sent_channel ic (channel_clusters m p)))) =
      (case x of (ic, p) \<Rightarrow> channel_hits chip_map ic p)" if "x \<in> set (zip [0..<length ps] ps)" for x
  proof (cases x)
    case (Pair ic p)
    then have "ic < 11" using that assms(2) by (auto dest!: set_zip_leftD)
    with Pair show ?thesis by (simp add: channel_readout [OF assms(1)])
  qed
  ultimately show ?thesis
    unfolding readout_hits_def by (simp only: mset_concat_map) (metis (no_types, lifting) map_cong)
qed

lemma channel_sent_length: "63 \<le> m \<Longrightarrow> length (sent_channel ic (channel_clusters m p)) \<le> 64"
proof (cases p)
  case (Some h)
  assume "63 \<le> m"
  show ?thesis
  proof (cases "h = 0")
    case False
    from finder_channel(4) [OF \<open>63 \<le> m\<close> this] Some show ?thesis
      by (auto simp: channel_clusters_def sent_channel_def intro: order_trans [OF length_filter_le])
  qed (simp add: Some channel_clusters_def)
qed (simp add: channel_clusters_def sent_channel_def)

lemma sent_length:
  assumes "63 \<le> m"
  shows "length (sent_clusters (map (channel_clusters m) ps)) \<le> 64 * length ps"
proof -
  have "length (concat (map (\<lambda>(ic, cs). sent_channel ic cs) (zip ns (map (channel_clusters m) ps)))) \<le> 64 * length ps" for ns
    by (induction ns ps rule: list_induct2') (use channel_sent_length [OF assms] in \<open>simp_all add: add_mono\<close>)
  then show ?thesis by (simp add: sent_clusters_channels)
qed

lemma sent_none:
  assumes "63 \<le> m"
  shows "sent_clusters (map (channel_clusters m) ps) = [] \<longleftrightarrow> (\<forall>p \<in> set ps. p = None \<or> p = Some 0)"
proof -
  have one: "sent_channel ic (channel_clusters m p) = [] \<longleftrightarrow> p = None \<or> p = Some 0" for ic p
  proof (cases p)
    case (Some h)
    show ?thesis
    proof (cases "h = 0")
      case False
      note f = finder_channel [OF assms False]
      have "filter (\<lambda>c. c AND 0x7ff \<noteq> 0x3fe) (clusterFinder h m) = clusterFinder h m"
        using f(2) in_row_not_empty_word by (intro filter_True) blast
      with f(3) False Some show ?thesis by (simp add: channel_clusters_def sent_channel_def)
    qed (simp add: Some channel_clusters_def)
  qed (simp add: channel_clusters_def sent_channel_def)
  have "length ns = length ps \<Longrightarrow> (concat (map (\<lambda>(ic, cs). sent_channel ic cs) (zip ns (map (channel_clusters m) ps))) = [])
      \<longleftrightarrow> (\<forall>p \<in> set ps. p = None \<or> p = Some 0)" for ns
    by (induction ns ps rule: list_induct2) (auto simp: one)
  then show ?thesis by (simp add: sent_clusters_channels)
qed

section \<open>Physics packets through both parsers\<close>

lemma process_data_physics:
  assumes "typ = PT_LP \<or> typ = PT_PR" and "length cls \<le> 11" and "bs = buildPhysicsPacket cls typ l b" and "bs \<noteq> []"
    and "length chip_map = 11" and "length (sent_clusters cls) < 2 ^ 32"
  shows "process_data chip_map (sendPacket_words bs) (out, fb) = Inr
    (if sent_clusters cls = [] then out
     else with_event (fd_events out) (add_hits (concat (map (hits_of 1 chip_map) (sent_clusters cls)))
            (new_FrontEndEvent (ucast (l AND 0x7f)) (ucast (l AND 0x7f)) (ucast (b AND 7)))),
     fb\<lparr>packet_size := of_nat (length (sendPacket_words bs)), trigger_tag := ucast (l AND 0x7f),
        fb_n_clusters := of_nat (length (sent_clusters cls)), fb_bcid := ucast (b AND 7)\<rparr>)"
proof -
  from assms(3,4) have e: "bs = buildPhysicsPacket_raw (words_of cls) typ l b"
    by (simp add: physics_bytes split: if_splits)
  note p = physics_raw_roundtrip [OF assms(1) words_of_ok [OF assms(2)] e, unfolded clusters_of_words [OF assms(2)]]
  have n: "(of_nat (length (sent_clusters cls)) :: u32) = 0 \<longleftrightarrow> sent_clusters cls = []"
  proof -
    have "unat (of_nat (length (sent_clusters cls)) :: u32) = length (sent_clusters cls)" using assms(6) by (simp add: unat_of_nat)
    then show ?thesis by (metis length_0_conv unat_eq_zero)
  qed
  show ?thesis
    using assms(1) unfolding process_data_def prod.case p
    by (auto simp: Let_def process_physics_def n_clusters_def n process_clusters_hits [OF assms(5)])
qed

lemma data_bytes_transport: "data_bytes (sendPacket_words bs) = bs @ replicate ((4 - length bs mod 4) mod 4) 0"
proof -
  have "unpack_words ws = map ucast (data_bytes ws)" for ws
  proof -
    have "ucast (drop_bit (i * 8) w AND 0xff) = (ucast (ucast (drop_bit (8 * i) w) :: u8) :: u16)" for i and w :: u32
      by (rule bit_word_eqI) (auto simp: bits_simps mult.commute)
    then show ?thesis by (simp add: unpack_words_def data_bytes_def map_concat comp_def)
  qed
  with transport [of bs] have "map ucast (data_bytes (sendPacket_words bs)) =
      (map ucast (bs @ replicate ((4 - length bs mod 4) mod 4) 0) :: u16 list)" by simp
  then show ?thesis by (subst (asm) inj_map_eq_map) (simp_all add: inj_def)
qed

lemma raw_cluster_fields:
  fixes w :: u16
  shows "drop_bit 3 (w AND 0x7ff) AND 0xff = drop_bit 3 w AND 0xff" "(w AND 0x7ff) AND 7 = w AND 7"
  by (rule bit_word_eqI, auto simp: bits_simps)+

lemma data_step:
  assumes "drop (i - 1) b = two_bytes w @ rest" and "1 \<le> i" and "w \<noteq> 0x77f4"
  shows "data_loop t b i s =
    (if w = 0x6fed then Inr (s, True)
     else if w AND 0x7ff = 0x3fe then rbind (t (Data_no_cluster (ucast (drop_bit 11 w AND 0xf))) s) (\<lambda>s. data_loop t b (i + 2) s)
     else rbind (if w AND 0x8000 \<noteq> 0 then t (Parse_error ''Bad cluster, bit 15 set'') s
                 else rbind (t (Data_raw_cluster (ucast (drop_bit 11 w AND 0xf)) (w AND 0x7ff)) s)
                        (t (Data_cluster (ucast (drop_bit 11 w AND 0xf)) (ucast (drop_bit 3 w AND 0xff)) (ucast (w AND 7)))))
                (\<lambda>s. data_loop t b (i + 2) s))"
proof -
  from assms(1) have "drop (i - 1) b = ucast (drop_bit 8 w AND 0xff) # ucast (w AND 0xff) # rest" by (simp add: two_bytes_def)
  from drop_ConsD [OF this] drop_ConsD [of "Suc (i - 1)" b] assms(2) have
    b: "i < length b" "b ! (i - 1) = ucast (drop_bit 8 w AND 0xff)" "b ! i = ucast (w AND 0xff)" by auto
  then have v: "vec_read b (i - 1) = Inr (ucast (drop_bit 8 w AND 0xff))" "vec_read b i = Inr (ucast (w AND 0xff))" by simp_all
  show ?thesis
    using b(1) assms(3)
    by (subst data_loop.simps) (simp only: v rbind_Inr bytes_join Let_def raw_cluster_fields, simp)
qed

lemma template_cluster:
  assumes "length chip_map = 11"
  shows "MyProc base chip_map (Data_cluster (ucast (drop_bit 11 w AND 0xf)) (ucast (drop_bit 3 w AND 0xff)) (ucast (w AND 7)))
      (with_event evs e, st) =
    Inr (with_event evs (add_hits (hits_of base chip_map (cluster_of w)) e), st\<lparr>fb_n_clusters := fb_n_clusters st + 1\<rparr>)"
proof -
  let ?ic = "drop_bit 11 w AND 0xf"
  have ic: "unat (ucast ?ic :: u8) = unat ?ic" "unat (ucast ?ic :: u32) = unat ?ic"
    using unat_take_bit_lt [of 4 "drop_bit 11 w"] unfolding and_literals
    by (simp_all add: unsigned_ucast_eq take_bit_nat_eq_self)
  then have le: "11 \<le> (ucast ?ic :: u32) \<longleftrightarrow> 11 \<le> (ucast ?ic :: u8)" by (simp only: word_le_nat_alt) simp
  have nx: "(ucast (w AND 7) :: u32) = ucast (ucast (w AND 7) :: u8)"
    by (rule bit_word_eqI) (auto simp: bits_simps)
  have "unat ?ic < length chip_map" if "\<not> 11 \<le> (ucast ?ic :: u8)"
    using that assms ic(1) by (simp add: word_le_nat_alt)
  then show ?thesis
    unfolding MyProc.simps MyProc_data_cluster_def prod.case hits_of_def cluster_of_def Let_def Cluster.simps le ic nx
    by (simp add: split_hits_list)
qed

lemma data_words:
  assumes "length chip_map = 11" and "\<forall>w \<in> set ws. w \<noteq> 0x77f4 \<and> w \<noteq> 0x6fed \<and> w AND 0x8000 = 0" and "1 \<le> i"
    and "drop (i - 1) b = concat (map two_bytes (ws @ [0x6fed])) @ rest"
  defines "cs \<equiv> map cluster_of (filter (\<lambda>w. w AND 0x7ff \<noteq> 0x3fe) ws)"
  shows "data_loop (MyProc base chip_map) b i (with_event evs e, st) = Inr
    ((with_event evs (add_hits (concat (map (hits_of base chip_map) cs)) e), st\<lparr>fb_n_clusters := fb_n_clusters st + of_nat (length cs)\<rparr>), True)"
  using assms(2-4) unfolding cs_def
proof (induction ws arbitrary: i e st)
  case Nil
  then have d: "drop (i - 1) b = two_bytes 0x6fed @ rest" by simp
  show ?case using data_step [OF d Nil(2), of "MyProc base chip_map" "(with_event evs e, st)"] by (simp add: add_hits_def)
next
  case (Cons w ws)
  then have d: "drop (i - 1) b = two_bytes w @ concat (map two_bytes (ws @ [0x6fed])) @ rest" by simp
  have "drop (i + 2 - 1) b = drop 2 (drop (i - 1) b)" using Cons.prems(2) by (simp add: add.commute)
  also have "\<dots> = concat (map two_bytes (ws @ [0x6fed])) @ rest" unfolding d by (simp add: two_bytes_def)
  finally have d2: "drop (i + 2 - 1) b = concat (map two_bytes (ws @ [0x6fed])) @ rest" .
  have ne: "w \<noteq> 0x77f4" "w \<noteq> 0x6fed" "w AND 0x8000 = 0" "\<forall>w \<in> set ws. w \<noteq> 0x77f4 \<and> w \<noteq> 0x6fed \<and> w AND 0x8000 = 0"
    using Cons.prems(1) by simp_all
  have "1 \<le> i + 2" by simp
  note IH = Cons.IH [OF ne(4) this d2]
  show ?case
  proof (cases "w AND 0x7ff = 0x3fe")
    case True
    then show ?thesis
      using data_step [OF d Cons.prems(2) ne(1), of "MyProc base chip_map" "(with_event evs e, st)"] ne(2) IH [of e st]
      by (simp add: EmptyProc_def)
  next
    case False
    show ?thesis
      unfolding data_step [OF d Cons.prems(2) ne(1)]
      using ne(2,3) False by (simp add: template_cluster [OF assms(1), unfolded MyProc.simps] EmptyProc_def IH [unfolded add_2_eq_Suc'] add.assoc)
  qed
qed

lemma words_of_bit15:
  assumes "length cls \<le> 11"
  shows "\<forall>w \<in> set (words_of cls). w AND 0x8000 = 0"
proof
  fix w assume "w \<in> set (words_of cls)"
  then obtain ic c where w: "w = cluster_word ic c" "ic < 11"
    using assms by (auto simp: words_of_def dest!: set_zip_leftD)
  then have "take_bit 4 ic = ic" by (simp add: take_bit_nat_eq_self)
  then have ic: "bit ic n \<Longrightarrow> n < 4" for n by (metis bit_take_bit_iff)
  have "\<not> bit w 15" unfolding w(1) cluster_word_def by (auto simp: bits_simps dest: ic)
  then show "w AND 0x8000 = 0" by (intro bit_word_eqI) (auto simp: bits_simps)
qed

text \<open>The header byte of a packet, in the templated parser.\<close>

lemma process_packet_type:
  assumes "drop_bit 4 (ucast (hd b) :: u32) AND 0xf = ucast (pt_code typ AND 0xf)" and "4 \<le> length b"
  shows "StarProcessPacket (MyProc base chip_map) b s =
    (case typ of
       PT_HCCRegRd \<Rightarrow> process_HCC_read (MyProc base chip_map) False b s
     | PT_HCCHPR \<Rightarrow> process_HCC_read (MyProc base chip_map) True b s
     | PT_ABCRegRd \<Rightarrow> process_ABC_read (MyProc base chip_map) False b s
     | PT_ABCHPR \<Rightarrow> process_ABC_read (MyProc base chip_map) True b s
     | PT_LP \<Rightarrow> process_PRLP (MyProc base chip_map) False b s
     | PT_PR \<Rightarrow> process_PRLP (MyProc base chip_map) True b s
     | PT_ABCPacketTransRegRd \<Rightarrow> process_transparent (MyProc base chip_map) b s
     | PT_ABCFullTransRegRd \<Rightarrow> Inr (s, True))"
proof -
  obtain out fb where s: "s = (out, fb)" by (cases s)
  have b0: "rb b 0 = Inr (ucast (hd b))" using assms(2) by (cases b) (simp_all add: rb_def)
  show ?thesis
    unfolding StarProcessPacket_def s b0 rbind_Inr Let_def assms(1) using assms(2)
    by (cases "typ") (simp_all add: EmptyProc_def type_codes_def star_packet_types_def)
qed

lemma process_template_physics:
  assumes "typ = PT_LP \<or> typ = PT_PR" and "length cls \<le> 11" and "bs = buildPhysicsPacket cls typ l b" and "bs \<noteq> []"
    and "length chip_map = 11"
  shows "process_data_template base chip_map (sendPacket_words bs) (out, fb) = Inr
    (with_event (fd_events out) (add_hits (concat (map (hits_of base chip_map) (sent_clusters cls)))
            (new_FrontEndEvent (ucast (l AND 0x7f)) (ucast (l AND 0x7f)) (ucast (b AND 7)))),
     fb\<lparr>packet_size := of_nat (length (sendPacket_words bs)), trigger_tag := ucast (l AND 0x7f),
        fb_n_clusters := fb_n_clusters fb + of_nat (length (sent_clusters cls)), fb_bcid := ucast (b AND 7)\<rparr>)"
proof -
  from assms(3,4) have e: "bs = buildPhysicsPacket_raw (words_of cls) typ l b"
    by (simp add: physics_bytes split: if_splits)
  let ?h = "physics_header typ l b"
  let ?w1 = "ucast (drop_bit 8 ?h AND 0xff) :: u8" and ?w2 = "ucast (?h AND 0xff) :: u8"
  let ?b = "data_bytes (sendPacket_words bs)"
  obtain n where n: "?b = bs @ replicate n (0 :: u8)" using data_bytes_transport [of bs] by blast
  have b: "?b = ?w1 # ?w2 # concat (map two_bytes (words_of cls @ [0x6fed])) @ replicate n 0"
    by (subst n) (simp add: e buildPhysicsPacket_raw_def two_bytes_def endOfPacket_def)
  have words: "\<forall>w \<in> set (words_of cls). w \<noteq> 0x77f4 \<and> w \<noteq> 0x6fed \<and> w AND 0x8000 = 0"
    using words_of_ok [OF assms(2)] words_of_bit15 [OF assms(2)] by blast
  have d: "drop (3 - 1) ?b = concat (map two_bytes (words_of cls @ [0x6fed])) @ replicate n 0" unfolding b by simp
  have "ucast (ucast x :: u16) = (ucast x :: u32)" for x :: u8
    by (rule bit_word_eqI) (auto simp: bits_simps dest: bit_imp_le_length)
  note parts = header_parts [of "typ" l b, unfolded this]
  have rb: "rb ?b 0 = Inr (ucast ?w1)" "rb ?b 1 = Inr (ucast ?w2)" unfolding rb_def b by simp_all
  let ?st = "fb\<lparr>packet_size := of_nat (length (sendPacket_words bs)), trigger_tag := ucast (l AND 0x7f), fb_bcid := ucast (b AND 7)\<rparr>"
  have casts: "(ucast (ucast (ucast (l AND 0x7f) :: u32) :: u8) :: u32) = ucast (l AND 0x7f)"
      "(ucast (ucast (ucast (b AND 7) :: u32) :: u8) :: u32) = ucast (b AND 7)"
    by (rule bit_word_eqI, auto simp: bits_simps)+
  have "process_PRLP (MyProc base chip_map) pr ?b (out, fb\<lparr>packet_size := of_nat (length (sendPacket_words bs))\<rparr>) = Inr
    ((with_event (fd_events out) (add_hits (concat (map (hits_of base chip_map) (sent_clusters cls)))
            (new_FrontEndEvent (ucast (l AND 0x7f)) (ucast (l AND 0x7f)) (ucast (b AND 7)))),
     ?st\<lparr>fb_n_clusters := fb_n_clusters fb + of_nat (length (sent_clusters cls))\<rparr>), True)" for pr
    unfolding process_PRLP_def rb rbind_Inr Let_def parts
    by (simp add: casts newEvent_with data_words [OF assms(5) words _ d] clusters_of_words [OF assms(2)] EmptyProc_def)
  moreover have "4 \<le> length ?b" unfolding b by (simp add: two_bytes_def)
  moreover have "drop_bit 4 (ucast (hd ?b) :: u32) AND 0xf = ucast (pt_code typ AND 0xf)" unfolding b using parts(1) by simp
  ultimately show ?thesis
    unfolding process_data_template_def prod.case Let_def using assms(1)
    by (auto simp: process_packet_type)
qed

section \<open>Register packets through the templated parser\<close>

text \<open>The transport pads a packet to full words, so a register packet never has the size the templated
  parser expects.\<close>

lemma template_register:
  assumes "bs \<noteq> []" and "drop_bit 4 (ucast (hd bs) :: u32) AND 0xf = ucast (pt_code typ AND 0xf)"
    and "typ \<in> {PT_ABCRegRd, PT_ABCHPR, PT_HCCRegRd, PT_HCCHPR}"
  shows "process_data_template base chip_map (sendPacket_words bs) (out, fb) =
    Inr (out, fb\<lparr>packet_size := of_nat (length (sendPacket_words bs))\<rparr>)"
proof -
  let ?b = "data_bytes (sendPacket_words bs)"
  have "length (data_bytes ws) = 4 * length ws" for ws
    by (induction ws) (simp_all add: data_bytes_def)
  then have len: "length ?b = 4 * length (sendPacket_words bs)" .
  have b: "?b = bs @ replicate ((4 - length bs mod 4) mod 4) 0" by (rule data_bytes_transport)
  have "length (sendPacket_words bs) \<noteq> 0" using b assms(1) len by auto
  then have size: "4 \<le> length ?b" "length ?b \<noteq> 6" "length ?b \<noteq> 9" unfolding len by presburger+
  have "hd ?b = hd bs" unfolding b using assms(1) by (cases bs) simp_all
  then have hd: "drop_bit 4 (ucast (hd ?b) :: u32) AND 0xf = ucast (pt_code typ AND 0xf)" using assms(2) by simp
  show ?thesis
    unfolding process_data_template_def prod.case Let_def process_packet_type [OF hd size(1)] using assms(3)
    by (auto simp: process_HCC_read_def process_ABC_read_def size(2,3) parse_error_return_def EmptyProc_def)
qed

lemma register_header:
  fixes c b :: u8
  shows "drop_bit 4 (ucast (push_bit 4 (c AND 0xf) OR drop_bit 4 b :: u8) :: u32) AND 0xf = ucast (c AND 0xf)"
    "drop_bit 4 (ucast (push_bit 4 (c AND 0xf) OR (b AND 0xf) :: u8) :: u32) AND 0xf = ucast (c AND 0xf)"
  by (rule bit_word_eqI, auto simp: bits_simps dest: bit_imp_le_length)+

text \<open>The hits a hit counter register is turned into.\<close>

definition counter_hit :: "u32 \<Rightarrow> u32 \<Rightarrow> u32 \<Rightarrow> FrontEndHit" where
  "counter_hit base ic channel =
     \<lparr>fh_col = ucast (ic * StripsPerABCRow + ((drop_bit 1 channel AND 0x7f) + base)), fh_row = ucast ((channel AND 1) + 1), fh_tot = 1\<rparr>"

definition counter_list :: "u32 \<Rightarrow> u32 \<Rightarrow> u32 \<Rightarrow> u32 \<Rightarrow> FrontEndHit list" where
  "counter_list base ic address counts =
     concat (map (\<lambda>i. replicate (unat (drop_bit (8 * i) counts AND 0xff)) (counter_hit base ic ((address - 0x80) * 4 + of_nat i))) [0..<4])"

lemma hit_counter_list:
  "hit_counter_hits base ic address counts (with_event evs e) =
   Inr (with_event evs (add_hits (counter_list base ic address counts) e))"
proof -
  have one: "rfold (\<lambda>_. on_curEvent (addHit_at ((ch AND 1) + 1) (ic * StripsPerABCRow + ((drop_bit 1 ch AND 0x7f) + base)) 1)) [0..<n] (with_event evs e) =
      Inr (with_event evs (add_hits (replicate n (counter_hit base ic ch)) e))" for ch n e
  proof -
    have "concat (map (\<lambda>_. [x]) [0..<n]) = replicate n x" for x :: FrontEndHit
      by (simp add: map_replicate_const)
    then show ?thesis
      by (subst rfold_hits [where g = "\<lambda>_. [counter_hit base ic ch]"]) (simp_all add: addHit_at_hits counter_hit_def)
  qed
  show ?thesis unfolding hit_counter_hits_def counter_list_def Let_def by (rule rfold_hits) (rule one)
qed

text \<open>The non-templated processor on the same packets.\<close>

lemma process_data_register:
  assumes "bs = buildABCRegisterPacket typ ic addr v status \<and> typ \<in> {PT_ABCRegRd, PT_ABCHPR} \<or>
      bs = buildHCCRegisterPacket typ addr v \<and> typ \<in> {PT_HCCRegRd, PT_HCCHPR}"
  obtains q where "parse_packet (packet_of_data (sendPacket_words bs)) = Inr (0, q)" "sp_type q = type_of typ"
    "sp_address q = addr" "sp_value q = v"
  using assms ABC_register_roundtrip [of "typ" bs ic addr v status] HCC_register_roundtrip [of "typ" bs addr v] by fastforce

section \<open>The raw mode\<close>

lemma raw_hit_word: "push_bit 16 (ucast (fh_row (raw_hit w))) OR ucast (fh_col (raw_hit w)) = w" (is "?y = w")
proof (rule bit_word_eqI)
  fix n assume "n < LENGTH(32)"
  then consider "n < 16" | "16 \<le> n" "n < 32" by fastforce
  then show "bit ?y n = bit w n" by cases (auto simp: raw_hit_def bits_simps)
qed

text \<open>A channel that sends clusters makes a packet.\<close>

lemma packet_sent:
  assumes "63 \<le> m" and "Some h \<in> set ps"
  shows "buildPhysicsPacket (map (channel_clusters m) ps) typ l b \<noteq> []"
proof -
  let ?cls = "map (channel_clusters m) ps"
  have "clusterFinder h m \<noteq> []" using finder_channel(3) [OF assms(1), of h] by (cases "h = 0") (simp_all add: clusterFinder_def Let_def)
  moreover obtain k where "k < length ps" "ps ! k = Some h" using assms(2) by (metis in_set_conv_nth)
  ultimately have "(k, channel_clusters m (Some h)) \<in> set (zip [0..<length ?cls] ?cls)" "channel_clusters m (Some h) \<noteq> []"
    by (auto simp: in_set_zip channel_clusters_def intro!: exI [of _ k])
  then have "words_of ?cls \<noteq> []" unfolding words_of_def by fastforce
  then show ?thesis by (simp add: physics_bytes buildPhysicsPacket_raw_def two_bytes_def)
qed

text \<open>The hits of an event, from the patterns of the channels.\<close>

lemma readout_event:
  assumes "63 \<le> m" and "length chip_map = 11" and "length ps \<le> 11" and "typ = PT_LP \<or> typ = PT_PR" and "Some h \<in> set ps"
  shows "\<exists>fb' hs. process_data chip_map (sendPacket_words (buildPhysicsPacket (map (channel_clusters m) ps) typ l b)) (out, fb) = Inr
      (if \<forall>p \<in> set ps. p = None \<or> p = Some 0 then out
       else with_event (fd_events out) (add_hits hs (new_FrontEndEvent (ucast (l AND 0x7f)) (ucast (l AND 0x7f)) (ucast (b AND 7)))), fb') \<and>
    trigger_tag fb' = ucast (l AND 0x7f) \<and> fb_bcid fb' = ucast (b AND 7) \<and> mset hs = readout_hits chip_map ps"
proof -
  let ?cls = "map (channel_clusters m) ps"
  note ne = packet_sent [OF assms(1,5), of "typ" l b]
  have "length (sent_clusters ?cls) \<le> 704" using sent_length [OF assms(1), of ps] assms(3) by linarith
  then have small: "length (sent_clusters ?cls) < 2 ^ 32" by simp
  have len: "length ?cls \<le> 11" using assms(3) by simp
  show ?thesis
    unfolding process_data_physics [OF assms(4) len refl ne assms(2) small] sent_none [OF assms(1)]
    by (rule exI, rule exI [of _ "concat (map (hits_of 1 chip_map) (sent_clusters ?cls))"], intro conjI)
      (rule refl, simp_all add: sent_readout [OF assms(1,3)])
qed

section \<open>Properties\<close>

text \<open>C2: The readout loses nothing and invents nothing. Take any hit patterns of up to eleven channels (a
  channel may send nothing at all), run the cluster finder on each with the default limit or a larger one,
  build the packet, transport it as 32-bit words and give it to the data processor: it reports the
  trigger tag and the bunch crossing, and one event whose hits are, as a multiset, exactly the hit
  strips of the channels that have a histogram slot, each once, at row \<open>i div 128 + 1\<close> and column
  \<open>128 * slot + i mod 128 + 1\<close> for the strip \<open>i\<close>; without a hit there is no event.\<close>

theorem readout_of_hits:
  assumes "63 \<le> m" and "length chip_map = 11" and "length ps \<le> 11" and "typ = PT_LP \<or> typ = PT_PR" and "Some h \<in> set ps"
  shows "\<exists>fb' hs. process_data chip_map (sendPacket_words (buildPhysicsPacket (map (channel_clusters m) ps) typ l b)) (out, fb) = Inr
      (if \<forall>p \<in> set ps. p = None \<or> p = Some 0 then out
       else with_event (fd_events out) (add_hits hs (new_FrontEndEvent (ucast (l AND 0x7f)) (ucast (l AND 0x7f)) (ucast (b AND 7)))), fb') \<and>
    trigger_tag fb' = ucast (l AND 0x7f) \<and> fb_bcid fb' = ucast (b AND 7) \<and> mset hs = readout_hits chip_map ps"
  using assms by (rule readout_event)

theorem readout_of_hits_witness:
  "\<exists>fb' hs. process_data [0, 1, 2, 3, 4, 5, 6, 7, 8, 9, 10]
      (sendPacket_words (buildPhysicsPacket (map (channel_clusters 63) [None, Some 0x1f]) PT_LP 5 3)) (new_FrontEndData, new_Feedback) =
     Inr (with_event [] (add_hits hs (new_FrontEndEvent 5 5 3)), fb') \<and> trigger_tag fb' = 5 \<and> fb_bcid fb' = 3 \<and>
     mset hs = readout_hits [0, 1, 2, 3, 4, 5, 6, 7, 8, 9, 10] [None, Some 0x1f]"
  using readout_of_hits [of 63 "[0, 1, 2, 3, 4, 5, 6, 7, 8, 9, 10]" "[None, Some 0x1f]" PT_LP "0x1f" 5 3 new_FrontEndData new_Feedback]
  by (simp add: new_FrontEndData_def)

text \<open>C13: On a physics packet of the emulator the two data processors agree, hit for hit and in the
  feedback, except that the templated one opens an event for a packet without clusters and the other
  one does not.\<close>

theorem processors_agree:
  assumes "typ = PT_LP \<or> typ = PT_PR" and "length cls \<le> 11" and "buildPhysicsPacket cls typ l b \<noteq> []"
    and "length chip_map = 11" and "length (sent_clusters cls) < 2 ^ 32" and "fb_n_clusters fb = 0"
  defines "ws \<equiv> sendPacket_words (buildPhysicsPacket cls typ l b)"
  shows "rbind (process_data_template 1 chip_map ws (out, fb)) (\<lambda>(d, fb). Inr (if sent_clusters cls = [] then out else d, fb)) =
      process_data chip_map ws (out, fb) \<and>
    (sent_clusters cls = [] \<longrightarrow> (\<exists>fb'. process_data_template 1 chip_map ws (out, fb) =
      Inr (newEvent (ucast (l AND 0x7f)) (ucast (l AND 0x7f)) (ucast (b AND 7)) out, fb')))"
  unfolding ws_def process_data_physics [OF assms(1,2) refl assms(3,4,5)] process_template_physics [OF assms(1,2) refl assms(3,4)]
  using assms(6) by (simp add: newEvent_with)

theorem processors_agree_witness:
  "\<exists>fb'. process_data_template 1 (replicate 11 0) (sendPacket_words (buildPhysicsPacket [[0x3fe]] PT_LP 5 3)) (new_FrontEndData, new_Feedback) =
     Inr (newEvent 5 5 3 new_FrontEndData, fb')"
proof -
  have "buildPhysicsPacket [[0x3fe]] PT_LP 5 3 \<noteq> []" by (simp add: buildPhysicsPacket_def two_bytes_def Let_def)
  moreover have "sent_clusters [[0x3fe]] = []" by (simp add: sent_clusters_def)
  ultimately show ?thesis
    using processors_agree [of PT_LP "[[0x3fe]]" 5 3 "replicate 11 0" new_Feedback new_FrontEndData]
    by (simp add: new_Feedback_def)
qed

text \<open>C15: No register packet gets through the templated processor: the transport pads it to full words, the
  parser asks for exactly six or nine bytes, and output and feedback stay as they were, with the
  error tag of a fresh feedback. The other processor tags the same packet as a register read or as
  control data.\<close>

theorem template_drops_registers:
  assumes "bs = buildABCRegisterPacket typ ic addr v status \<and> typ \<in> {PT_ABCRegRd, PT_ABCHPR} \<or>
      bs = buildHCCRegisterPacket typ addr v \<and> typ \<in> {PT_HCCRegRd, PT_HCCHPR}"
  shows "process_data_template base chip_map (sendPacket_words bs) (out, fb) =
      Inr (out, fb\<lparr>packet_size := of_nat (length (sendPacket_words bs))\<rparr>) \<and>
    (\<exists>out' fb'. process_data chip_map (sendPacket_words bs) (out, fb) = Inr (out', fb') \<and>
       trigger_tag fb' = (if typ \<in> {PT_ABCRegRd, PT_HCCRegRd} then TRIGGER_TAG_RR else TRIGGER_TAG_Control))"
proof
  have "bs \<noteq> []" "typ \<in> {PT_ABCRegRd, PT_ABCHPR, PT_HCCRegRd, PT_HCCHPR}"
    using assms by (auto simp: buildABCRegisterPacket_def buildHCCRegisterPacket_def)
  moreover have "drop_bit 4 (ucast (hd bs) :: u32) AND 0xf = ucast (pt_code typ AND 0xf)"
    using assms by (elim disjE conjE) (simp_all only: buildABCRegisterPacket_def buildHCCRegisterPacket_def list.sel register_header)
  ultimately show "process_data_template base chip_map (sendPacket_words bs) (out, fb) =
      Inr (out, fb\<lparr>packet_size := of_nat (length (sendPacket_words bs))\<rparr>)" by (intro template_register)
  obtain q where q: "parse_packet (packet_of_data (sendPacket_words bs)) = Inr (0, q)" "sp_type q = type_of typ"
    by (rule process_data_register [OF assms]) (rule that)
  have reg: "\<exists>out' fb'. process_register_read q (out, f) = Inr (out', fb') \<and> trigger_tag fb' = TRIGGER_TAG_RR" for f
    by (simp add: process_register_read_def Let_def newEvent_with hit_counter_list)
  show "\<exists>out' fb'. process_data chip_map (sendPacket_words bs) (out, fb) = Inr (out', fb') \<and>
       trigger_tag fb' = (if typ \<in> {PT_ABCRegRd, PT_HCCRegRd} then TRIGGER_TAG_RR else TRIGGER_TAG_Control)"
    unfolding process_data_def prod.case q(1) rbind_Inr Let_def q(2) using assms reg by auto
qed

theorem template_drops_registers_witness:
  "\<exists>out' fb'. process_data (replicate 11 0) (sendPacket_words (buildABCRegisterPacket PT_ABCRegRd 3 16 7 0)) (new_FrontEndData, new_Feedback) =
      Inr (out', fb') \<and> trigger_tag fb' = - 2"
  using template_drops_registers [of "buildABCRegisterPacket PT_ABCRegRd 3 16 7 0" PT_ABCRegRd 3 16 7 0 0 "replicate 11 0" new_FrontEndData new_Feedback]
  by (simp add: TRIGGER_TAG_RR_def)

text \<open>C40: In the raw mode every received word is one hit, in order, and row and column give the word back.\<close>

theorem raw_mode_words:
  "\<exists>hs fb'. process_raw_data chip_map ws (out, fb) =
      Inr (with_event (fd_events out) (add_hits hs (new_FrontEndEvent 0xffffffff 0xffffffff 0xffffffff)), fb') \<and>
    map (\<lambda>h. push_bit 16 (ucast (fh_row h)) OR ucast (fh_col h)) hs = ws"
proof -
  have "rfold (\<lambda>w. on_curEvent (addHit (raw_hit w))) ws (newEvent 0xffffffff 0xffffffff 0xffffffff out) =
    Inr (with_event (fd_events out) (add_hits (concat (map (\<lambda>w. [raw_hit w]) ws)) (new_FrontEndEvent 0xffffffff 0xffffffff 0xffffffff)))"
    unfolding newEvent_with by (rule rfold_hits) (simp add: addHit_hits)
  then show ?thesis
    unfolding process_raw_data_def prod.case Let_def
    by (intro exI [of _ "map raw_hit ws"]) (simp add: comp_def raw_hit_word)
qed

end
