(* ===== verification/Star_SeqProc.thy ===== *)
theory Star_SeqProc
  imports Star_Data
begin

text \<open>
  Processors of the templated parser run in sequence (\<open>SeqProc\<close> of
  src/src/libStar/include/StarProcessor.h): the parser calls every processor in the same way, so what
  it calls is a list that depends on the bytes only.
\<close>

section \<open>The calls of a parse\<close>

definition record_proc :: "Callback list Processor" where
  "record_proc cb cbs = Inr (cbs @ [cb])"

text \<open>A part of the parser, on the recorder (\<open>R\<close>) and on any processor (\<open>F\<close>): it makes the calls that the
  recorder sees, and returns what it returns there.\<close>

definition same_calls ::
  "(Callback list \<Rightarrow> (Callback list \<times> bool) result) \<Rightarrow> ('s Processor \<Rightarrow> 's \<Rightarrow> ('s \<times> bool) result) \<Rightarrow> bool" where
  "same_calls R F \<longleftrightarrow> (\<exists>cbs r. (\<forall>tr. R tr = Inr (tr @ cbs, r)) \<and> (\<forall>t s. F t s = rbind (rfold t cbs s) (\<lambda>s. Inr (s, r))))"

lemma same_calls_eq:
  assumes "\<And>tr. R tr = R' tr" and "\<And>t s. F t s = F' t s" and "same_calls R' F'"
  shows "same_calls R F"
  using assms unfolding same_calls_def by simp

lemma same_calls_return: "same_calls (\<lambda>tr. Inr (tr, r)) (\<lambda>t s. Inr (s, r))"
  unfolding same_calls_def by (intro exI [of _ "[]"] exI [of _ r]) simp

lemma same_calls_call:
  assumes "same_calls R F"
  shows "same_calls (\<lambda>tr. rbind (record_proc cb tr) R) (\<lambda>t s. rbind (t cb s) (F t))"
proof -
  from assms obtain cbs r where R: "\<forall>tr. R tr = Inr (tr @ cbs, r)" and F: "\<forall>t s. F t s = rbind (rfold t cbs s) (\<lambda>s. Inr (s, r))"
    unfolding same_calls_def by blast
  from F have "F = (\<lambda>t s. rbind (rfold t cbs s) (\<lambda>s. Inr (s, r)))" by (simp add: fun_eq_iff)
  with R show ?thesis
    unfolding same_calls_def record_proc_def by (intro exI [of _ "cb # cbs"] exI [of _ r]) (simp add: rbind_assoc)
qed

lemma same_calls_error: "same_calls (\<lambda>tr. parse_error_return record_proc msg tr) (\<lambda>t s. parse_error_return t msg s)"
  unfolding parse_error_return_def by (intro same_calls_call same_calls_return)

lemma same_calls_infos:
  assumes "same_calls R F"
  shows "same_calls (\<lambda>tr. rbind (error_infos record_proc w tr) R) (\<lambda>t s. rbind (error_infos t w s) (F t))"
proof -
  have r: "rbind (rbind x f) g = rbind x (\<lambda>y. rbind (f y) g)" for x :: "'u result" and f :: "'u \<Rightarrow> 'v result" and g :: "'v \<Rightarrow> 'w result"
    by (rule rbind_assoc)
  have e: "error_infos t w s = rbind (t (Error_info 0 (ucast (drop_bit 36 w AND 0x7ff))) s) (\<lambda>s.
      rbind (t (Error_info 1 (ucast (drop_bit 24 w AND 0x7ff))) s) (\<lambda>s.
      rbind (t (Error_info 2 (ucast (drop_bit 12 w AND 0x7ff))) s) (\<lambda>s.
      rbind (t (Error_info 3 (ucast (drop_bit 0 w AND 0x7ff))) s) Inr)))" for t :: "'u Processor" and s
    by (simp add: error_infos_def rfold.simps [abs_def])
  show ?thesis
    unfolding e r rbind_Inr by (intro same_calls_call) (simp add: assms)
qed

lemma block_error_word_returns: "iW + 8 \<le> length b \<Longrightarrow> \<exists>w. block_error_word b iW = Inr w"
proof -
  assume "iW + 8 \<le> length b"
  then have "rsat (\<lambda>_. False) (\<lambda>_. True) (block_error_word b iW)"
    unfolding block_error_word_def by (intro rsat_fold) auto
  then show ?thesis by (cases "block_error_word b iW") simp_all
qed

text \<open>One turn of the loop, as the calls it makes.\<close>

lemma data_loop_turn:
  assumes "iW + 1 \<le> length b"
  defines "w \<equiv> (push_bit 8 (ucast (b ! (iW - 1))) OR ucast (b ! iW) :: u16)"
  shows "w = 0x77f4 \<Longrightarrow> length b < iW + 8 \<Longrightarrow> data_loop t b iW s = rbind (t Begin_error_block s)
      (parse_error_return t ''Expect eight 8-bit error block words (including 0x77f4 marker)'')"
    and "w = 0x77f4 \<Longrightarrow> \<not> length b < iW + 8 \<Longrightarrow> block_error_word b iW = Inr e \<Longrightarrow> data_loop t b iW s =
      rbind (t Begin_error_block s) (\<lambda>s. rbind (error_infos t e s) (\<lambda>s. rbind (t End_error_block s) (data_loop t b (iW + 8))))"
    and "w = 0x6fed \<Longrightarrow> data_loop t b iW s = Inr (s, True)"
    and "w AND 0x7ff = 0x3fe \<Longrightarrow> data_loop t b iW s =
      rbind (t (Data_no_cluster (ucast (drop_bit 11 w AND 0xf))) s) (data_loop t b (iW + 2))"
    and "w \<noteq> 0x77f4 \<Longrightarrow> w \<noteq> 0x6fed \<Longrightarrow> w AND 0x7ff \<noteq> 0x3fe \<Longrightarrow> w AND 0x8000 \<noteq> 0 \<Longrightarrow> data_loop t b iW s =
      rbind (t (Parse_error ''Bad cluster, bit 15 set'') s) (data_loop t b (iW + 2))"
    and "w \<noteq> 0x77f4 \<Longrightarrow> w \<noteq> 0x6fed \<Longrightarrow> w AND 0x7ff \<noteq> 0x3fe \<Longrightarrow> w AND 0x8000 = 0 \<Longrightarrow> data_loop t b iW s =
      rbind (t (Data_raw_cluster (ucast (drop_bit 11 w AND 0xf)) (w AND 0x7ff)) s) (\<lambda>s.
      rbind (t (Data_cluster (ucast (drop_bit 11 w AND 0xf)) (ucast (drop_bit 3 (w AND 0x7ff) AND 0xff)) (ucast ((w AND 0x7ff) AND 7))) s)
        (data_loop t b (iW + 2)))"
proof -
  have v: "vec_read b (iW - 1) = Inr (b ! (iW - 1))" "vec_read b iW = Inr (b ! iW)" using assms(1) by simp_all
  have ge: "\<not> iW + 1 > length b" using assms(1) by simp
  note body = data_loop.simps [of t b iW s, unfolded v rbind_Inr Let_def w_def [symmetric] if_not_P [OF ge]]
  show "w = 0x77f4 \<Longrightarrow> length b < iW + 8 \<Longrightarrow> data_loop t b iW s = rbind (t Begin_error_block s)
      (parse_error_return t ''Expect eight 8-bit error block words (including 0x77f4 marker)'')"
    unfolding body by simp
  show "w = 0x77f4 \<Longrightarrow> \<not> length b < iW + 8 \<Longrightarrow> block_error_word b iW = Inr e \<Longrightarrow> data_loop t b iW s =
      rbind (t Begin_error_block s) (\<lambda>s. rbind (error_infos t e s) (\<lambda>s. rbind (t End_error_block s) (data_loop t b (iW + 8))))"
    unfolding body by simp
  show "w = 0x6fed \<Longrightarrow> data_loop t b iW s = Inr (s, True)"
    unfolding body by simp
  show "w AND 0x7ff = 0x3fe \<Longrightarrow> data_loop t b iW s =
      rbind (t (Data_no_cluster (ucast (drop_bit 11 w AND 0xf))) s) (data_loop t b (iW + 2))"
  proof -
    assume a: "w AND 0x7ff = 0x3fe"
    have "w \<noteq> 0x77f4" "w \<noteq> 0x6fed" using a by auto
    then show ?thesis unfolding body using a by (simp only: if_False if_True simp_thms)
  qed
  assume ne: "w \<noteq> 0x77f4" "w \<noteq> 0x6fed" "w AND 0x7ff \<noteq> 0x3fe"
  show "w AND 0x8000 \<noteq> 0 \<Longrightarrow> data_loop t b iW s = rbind (t (Parse_error ''Bad cluster, bit 15 set'') s) (data_loop t b (iW + 2))"
    unfolding body using ne by (simp only: if_False if_True not_False_eq_True)
  show "w AND 0x8000 = 0 \<Longrightarrow> data_loop t b iW s =
      rbind (t (Data_raw_cluster (ucast (drop_bit 11 w AND 0xf)) (w AND 0x7ff)) s) (\<lambda>s.
      rbind (t (Data_cluster (ucast (drop_bit 11 w AND 0xf)) (ucast (drop_bit 3 (w AND 0x7ff) AND 0xff)) (ucast ((w AND 0x7ff) AND 7))) s)
        (data_loop t b (iW + 2)))"
    unfolding body using ne by (simp only: if_False if_True simp_thms rbind_assoc)
qed

lemma data_loop_calls:
  "1 \<le> iW \<Longrightarrow> same_calls (\<lambda>tr. data_loop record_proc b iW tr) (\<lambda>(t :: 's Processor) s. data_loop t b iW s)"
proof (induction "length b - iW" arbitrary: iW rule: less_induct)
  case less
  show ?case
  proof (cases "iW + 1 \<le> length b")
    case False
    then have eq: "data_loop t b iW s = parse_error_return t ''Reached end of words without the end pattern!'' s" for t :: "'u Processor" and s
      by (subst data_loop.simps) simp
    show ?thesis by (rule same_calls_eq [OF eq eq same_calls_error])
  next
    case True
    have turns: "same_calls (\<lambda>tr. data_loop record_proc b (iW + k) tr) (\<lambda>(t :: 's Processor) s. data_loop t b (iW + k) s)" if "0 < k" for k
      using True less.prems that by (intro less.hyps) simp_all
    have next_turn: "same_calls (\<lambda>tr. data_loop record_proc b (iW + 2) tr) (\<lambda>(t :: 's Processor) s. data_loop t b (iW + 2) s)"
      "same_calls (\<lambda>tr. data_loop record_proc b (iW + 8) tr) (\<lambda>(t :: 's Processor) s. data_loop t b (iW + 8) s)"
      by (rule turns, simp)+
    define w where "w = (push_bit 8 (ucast (b ! (iW - 1))) OR ucast (b ! iW) :: u16)"
    note turn = data_loop_turn [OF True, folded w_def]
    consider "w = 0x77f4" "length b < iW + 8" | "w = 0x77f4" "\<not> length b < iW + 8" | "w = 0x6fed" | "w AND 0x7ff = 0x3fe"
      | "w \<noteq> 0x77f4" "w \<noteq> 0x6fed" "w AND 0x7ff \<noteq> 0x3fe" "w AND 0x8000 \<noteq> 0"
      | "w \<noteq> 0x77f4" "w \<noteq> 0x6fed" "w AND 0x7ff \<noteq> 0x3fe" "w AND 0x8000 = 0" by blast
    then show ?thesis
    proof cases
      case 1
      show ?thesis by (rule same_calls_eq [OF turn(1) [OF 1] turn(1) [OF 1]]) (intro same_calls_call same_calls_error)
    next
      case 2
      then obtain e where "block_error_word b iW = Inr e" using block_error_word_returns [of iW b] by auto
      note eq = turn(2) [OF 2 this]
      show ?thesis by (rule same_calls_eq [OF eq eq]) (intro same_calls_call same_calls_infos next_turn)
    next
      case 3
      show ?thesis by (rule same_calls_eq [OF turn(3) [OF 3] turn(3) [OF 3] same_calls_return])
    next
      case 4
      show ?thesis by (rule same_calls_eq [OF turn(4) [OF 4] turn(4) [OF 4]]) (intro same_calls_call next_turn)
    next
      case 5
      show ?thesis by (rule same_calls_eq [OF turn(5) [OF 5] turn(5) [OF 5]]) (intro same_calls_call next_turn)
    next
      case 6
      show ?thesis by (rule same_calls_eq [OF turn(6) [OF 6] turn(6) [OF 6]]) (intro same_calls_call next_turn)
    qed
  qed
qed

lemma same_calls_then:
  assumes "same_calls R F" and "\<And>r. same_calls (R2 r) (F2 r)"
  shows "same_calls (\<lambda>tr. rbind (R tr) (\<lambda>(tr, r). R2 r tr)) (\<lambda>t s. rbind (F t s) (\<lambda>(s, r). F2 r t s))"
proof -
  from assms(1) obtain cbs r where R: "\<forall>tr. R tr = Inr (tr @ cbs, r)" and F: "\<forall>t s. F t s = rbind (rfold t cbs s) (\<lambda>s. Inr (s, r))"
    unfolding same_calls_def by blast
  from assms(2) [of r] obtain cbs2 r2 where R2: "\<forall>tr. R2 r tr = Inr (tr @ cbs2, r2)" and F2: "\<forall>t s. F2 r t s = rbind (rfold t cbs2 s) (\<lambda>s. Inr (s, r2))"
    unfolding same_calls_def by blast
  show ?thesis
    unfolding same_calls_def by (intro exI [of _ "cbs @ cbs2"] exI [of _ r2]) (simp add: R R2 F F2 rbind_assoc rfold_append)
qed

lemma rb_in: "i < length b \<Longrightarrow> rb b i = Inr (ucast (b ! i))"
  by (simp add: rb_def)

lemma PRLP_calls:
  assumes "4 \<le> length b"
  shows "same_calls (\<lambda>tr. process_PRLP record_proc pr b tr) (\<lambda>(t :: 's Processor) s. process_PRLP t pr b s)"
proof -
  have b: "rb b 0 = Inr (ucast (b ! 0))" "rb b 1 = Inr (ucast (b ! 1))" using assms by (intro rb_in, linarith)+
  have tail: "same_calls (\<lambda>tr. if \<not> r then Inr (tr, False) else rbind (record_proc Data_end tr) (\<lambda>tr. rbind (record_proc Proc_end tr) (\<lambda>tr. Inr (tr, True))))
      (\<lambda>(t :: 's Processor) s. if \<not> r then Inr (s, False) else rbind (t Data_end s) (\<lambda>s. rbind (t Proc_end s) (\<lambda>s. Inr (s, True))))" for r
    by (cases r) (simp_all only: simp_thms if_True if_False same_calls_call same_calls_return)
  show ?thesis
    unfolding process_PRLP_def b rbind_Inr Let_def
    by (intro same_calls_call same_calls_then data_loop_calls tail) simp
qed

lemma HCC_calls: "same_calls (\<lambda>tr. process_HCC_read record_proc hpr b tr) (\<lambda>t s. process_HCC_read t hpr b s)"
proof (cases "length b = 6")
  case True
  then show ?thesis
    unfolding process_HCC_read_def by (simp add: rb_in Let_def same_calls_call same_calls_return)
qed (simp add: process_HCC_read_def same_calls_error)

lemma ABC_calls: "same_calls (\<lambda>tr. process_ABC_read record_proc hpr b tr) (\<lambda>t s. process_ABC_read t hpr b s)"
proof (cases "length b = 9")
  case True
  then show ?thesis
    unfolding process_ABC_read_def by (simp add: rb_in Let_def same_calls_call same_calls_return)
qed (simp add: process_ABC_read_def same_calls_error)

lemma transparent_calls:
  assumes "9 \<le> length b"
  shows "same_calls (\<lambda>tr. process_transparent record_proc b tr) (\<lambda>t s. process_transparent t b s)"
proof -
  have "rsat (\<lambda>_. False) (\<lambda>_. True) (rfold (\<lambda>i bits. rbind (vec_read b (1 + i)) (\<lambda>w. Inr (push_bit 8 bits OR ucast w))) [0..<8] (0 :: u64))"
    using assms by (intro rsat_fold) auto
  then obtain w where w: "rfold (\<lambda>i bits. rbind (vec_read b (1 + i)) (\<lambda>w. Inr (push_bit 8 bits OR ucast w))) [0..<8] (0 :: u64) = Inr w"
    by (cases "rfold (\<lambda>i bits. rbind (vec_read b (1 + i)) (\<lambda>w. Inr (push_bit 8 bits OR ucast w))) [0..<8] (0 :: u64)") simp_all
  have b: "rb b 0 = Inr (ucast (b ! 0))" using assms by (intro rb_in) linarith
  show ?thesis
    unfolding process_transparent_def b w rbind_Inr by (intro same_calls_call same_calls_return)
qed

text \<open>The one packet whose parse reads past the end of the bytes.\<close>

definition cut_transparent :: "u8 list \<Rightarrow> bool" where
  "cut_transparent b \<longleftrightarrow> 4 \<le> length b \<and> length b < 9 \<and> drop_bit 4 (ucast (b ! 0) :: u32) AND 0xf = 7"

lemma packet_calls:
  assumes "\<not> cut_transparent b"
  shows "same_calls (\<lambda>tr. StarProcessPacket record_proc b tr) (\<lambda>(t :: 's Processor) s. StarProcessPacket t b s)"
proof (cases "length b < 4")
  case True
  then show ?thesis
    unfolding StarProcessPacket_def by (simp only: if_True) (intro same_calls_call same_calls_error)
next
  case False
  then have b0: "rb b 0 = Inr (ucast (b ! 0))" by (intro rb_in) linarith
  let ?raw = "drop_bit 4 (ucast (b ! 0) :: u32) AND 0xf"
  let ?k = "unat (drop_bit 1 (?raw AND 0xe))"
  note four = False [unfolded not_less]
  note ends = same_calls_call same_calls_return same_calls_error PRLP_calls [OF four] HCC_calls ABC_calls
  show ?thesis
  proof (cases "type_codes ! ?k \<noteq> ?raw")
    case True
    then show ?thesis
      unfolding StarProcessPacket_def b0 rbind_Inr Let_def using False
      by (simp only: if_True if_False simp_thms) (intro same_calls_call same_calls_error)
  next
    case ok: False
    have transp: "9 \<le> length b" if "star_packet_types ! ?k = SPT_ABC_TRANSP"
    proof -
      have "take_bit 3 (drop_bit 1 ?raw) = drop_bit 1 (?raw AND 0xe)"
        by (rule bit_word_eqI) (auto simp: bits_simps)
      then have "?k < 8" using unat_take_bit_lt [of 3 "drop_bit 1 ?raw"] by simp
      with that have "?k = 3" by (auto simp: star_packet_types_def less_Suc_eq numeral_eq_Suc)
      with ok have "?raw = 7" by (simp add: type_codes_def)
      with assms four show ?thesis by (simp add: cut_transparent_def)
    qed
    show ?thesis
      unfolding StarProcessPacket_def b0 rbind_Inr Let_def using False ok
      by (simp only: if_False simp_thms, intro same_calls_call)
        (cases "star_packet_types ! ?k"; simp add: ends transparent_calls transp)
  qed
qed

lemma same_calls_on:
  assumes "same_calls R F" and "\<forall>tr. R tr = Inr (tr @ cbs, r)"
  shows "F t s = rbind (rfold t cbs s) (\<lambda>s. Inr (s, r))"
proof -
  from assms(1) obtain cbs2 r2 where R: "\<forall>tr. R tr = Inr (tr @ cbs2, r2)" and F: "\<forall>t s. F t s = rbind (rfold t cbs2 s) (\<lambda>s. Inr (s, r2))"
    unfolding same_calls_def by (elim exE conjE) (rule that)
  have "cbs2 = cbs" "r2 = r" using spec [OF R, of "[]"] spec [OF assms(2), of "[]"] by simp_all
  with F show ?thesis by simp
qed

lemma rfold_reads:
  "rfold (\<lambda>i bits. rbind (vec_read b (Suc i)) (\<lambda>w. Inr (f bits w))) xs s = Inr y \<Longrightarrow> i \<in> set xs \<Longrightarrow> Suc i < length b"
proof (induction xs arbitrary: s)
  case (Cons x xs)
  then show ?case by (auto simp: rbind_eq_Inr_iff vec_read_def split: if_splits)
qed simp

lemma packet_cut:
  assumes "cut_transparent b"
  shows "StarProcessPacket t b s \<noteq> Inr x"
proof
  assume a: "StarProcessPacket t b s = Inr x"
  from assms have raw: "drop_bit 4 (ucast (b ! 0) :: u32) AND 0xf = 7" and len: "\<not> length b < 4" "length b < 9"
    by (simp_all add: cut_transparent_def)
  have b0: "rb b 0 = Inr (ucast (b ! 0))" using len(1) by (intro rb_in) linarith
  have "\<exists>s. process_transparent t b s = Inr x"
    using a len(1) unfolding StarProcessPacket_def b0 rbind_Inr Let_def raw
    by (auto simp: rbind_eq_Inr_iff type_codes_def star_packet_types_def)
  then have "Suc 7 < length b"
    unfolding process_transparent_def by (auto simp: rbind_eq_Inr_iff dest!: rfold_reads [where i = 7])
  with len(2) show False by simp
qed

lemma rfold_SeqProc:
  "rfold p cbs s = Inr s' \<Longrightarrow> rfold q cbs t = Inr t' \<Longrightarrow> rfold (SeqProc p q) cbs (s, t) = Inr (s', t')"
  by (induction cbs arbitrary: s t) (auto simp: SeqProc_def rbind_eq_Inr_iff)

section \<open>Properties\<close>

text \<open>C14: Two processors in sequence see the same parse as each of them alone: if both return on a packet,
  their sequence returns, each with the state it has when it runs alone, and the parser gives the same
  verdict in all three runs.\<close>

theorem SeqProc_both:
  assumes "StarProcessPacket p b s = Inr (s', r)" and "StarProcessPacket q b t = Inr (t', r')"
  shows "StarProcessPacket (SeqProc p q) b (s, t) = Inr ((s', t'), r) \<and> r' = r"
proof -
  have nc: "\<not> cut_transparent b" using packet_cut [of b p s "(s', r)"] assms(1) by auto
  note alone = packet_calls [OF nc, where 's = 'a] packet_calls [OF nc, where 's = 'b] packet_calls [OF nc, where 's = "'a \<times> 'b"]
  obtain cbs v where rec: "\<forall>tr. StarProcessPacket record_proc b tr = Inr (tr @ cbs, v)"
    using alone(1) unfolding same_calls_def by (elim exE conjE) (rule that)
  note run = same_calls_on [OF alone(1) rec] same_calls_on [OF alone(2) rec] same_calls_on [OF alone(3) rec]
  have "rfold p cbs s = Inr s'" "r = v" using assms(1) unfolding run(1) by (simp_all add: rbind_eq_Inr_iff)
  moreover have "rfold q cbs t = Inr t'" "r' = v" using assms(2) unfolding run(2) by (simp_all add: rbind_eq_Inr_iff)
  ultimately show ?thesis unfolding run(3) by (simp add: rfold_SeqProc)
qed

theorem SeqProc_both_witness:
  "\<exists>d. StarProcessPacket (SeqProc record_proc (MyProc 1 (replicate 11 0))) [0x20, 0x51, 0x6f, 0xed] ([], (new_FrontEndData, new_Feedback)) =
     Inr (([Proc_begin, Packet_type 1, Data_header False 0 True 5 0, Data_end, Proc_end], d), True)"
proof -
  have "StarProcessPacket record_proc [0x20, 0x51, 0x6f, 0xed] [] =
      Inr ([Proc_begin, Packet_type 1, Data_header False 0 True 5 0, Data_end, Proc_end], True)" by code_simp
  moreover have "case StarProcessPacket (MyProc 1 (replicate 11 0)) [0x20, 0x51, 0x6f, 0xed] (new_FrontEndData, new_Feedback) of
      Inl e \<Rightarrow> False | Inr (d, r) \<Rightarrow> r" by code_simp
  then obtain d where "StarProcessPacket (MyProc 1 (replicate 11 0)) [0x20, 0x51, 0x6f, 0xed] (new_FrontEndData, new_Feedback) = Inr (d, True)"
    by (auto split: sum.splits)
  ultimately have "StarProcessPacket (SeqProc record_proc (MyProc 1 (replicate 11 0))) [0x20, 0x51, 0x6f, 0xed] ([], (new_FrontEndData, new_Feedback)) =
     Inr (([Proc_begin, Packet_type 1, Data_header False 0 True 5 0, Data_end, Proc_end], d), True) \<and> True = True"
    by (rule SeqProc_both)
  then show ?thesis by blast
qed

end
