(* ===== verification/Star_Trigger.thy ===== *)
theory Star_Trigger
  imports Star_Readout Star_Emu_Access
begin

text \<open>
  From a trigger to an event: what the emulated chipset sends for a trigger in the single-level
  mode, and what the data processor makes of it.
\<close>

section \<open>Front-end data without random draws\<close>

text \<open>An ABC that contributes to a trigger: in one of the test modes, with its readout enabled and no
  limit on the clusters.\<close>

definition reads_out :: "AbcCfg \<Rightarrow> bool" where
  "reads_out abc \<longleftrightarrow> abc_getSubRegisterValue abc ''TM'' \<in> {Inr 1, Inr 2, Inr 3} \<and>
     abc_getSubRegisterValue abc ''LP_ENABLE'' = Inr 1 \<and> abc_getSubRegisterValue abc ''MAX_CLUSTER_ENABLE'' = Inr 0"

text \<open>Its data for the trigger in slot \<open>ibc\<close>: bunch crossing and hits.\<close>

definition trigger_data :: "('g, 'o) Analog \<Rightarrow> ('g, 'o) ChipsetEmu \<Rightarrow> nat \<Rightarrow> AbcCfg \<Rightarrow> (u8 \<times> StripData) result" where
  "trigger_data an s ibc abc =
     rbind (getL0BufferAddr (m_bccnt s) abc (of_nat ibc)) (\<lambda>l0addr.
     rbind (getFEData an abc l0addr s) (\<lambda>(r, _). Inr r))"

lemma test_pattern_l0:
  "m_l0buffer_lite t = m_l0buffer_lite s \<Longrightarrow> test_pattern t abc l0 masks is = test_pattern s abc l0 masks is"
proof (induction "is")
  case (Cons i "is")
  assume "m_l0buffer_lite t = m_l0buffer_lite s"
  then have "l0_read t = l0_read s" by (simp add: l0_read_def fun_eq_iff)
  then show ?case unfolding test_pattern.simps Cons.IH [OF Cons.prems] by simp
qed simp

lemma getFEData_test:
  assumes "abc_getSubRegisterValue abc ''TM'' \<in> {Inr 1, Inr 2, Inr 3}" and "m_l0buffer_lite t = m_l0buffer_lite s"
    and "getFEData an abc l0 s = Inr (r, s')"
  shows "getFEData an abc l0 t = Inr (r, t)"
proof -
  have tp: "generateFEData_TestPulse t abc l0 = generateFEData_TestPulse s abc l0"
  proof -
    have l0: "l0_read t = l0_read s" using assms(2) by (simp add: l0_read_def fun_eq_iff)
    show ?thesis unfolding generateFEData_TestPulse_def test_pattern_l0 [OF assms(2)] l0 by (rule refl)
  qed
  obtain v where v: "abc_getSubRegisterValue abc ''TM'' = Inr v" "(ucast v :: u8) \<noteq> 0" using assms(1) by auto
  show ?thesis
    using assms(3) v(2) unfolding getFEData_def v(1) rbind_Inr Let_def by (auto simp: rbind_eq_Inr_iff tp split: if_splits)
qed

text \<open>Counting hits changes no other field.\<close>

lemma countHits_fields:
  assumes "abc_inv a abc" and "a \<in> {0, 1}" and "r \<in> {''LP_ENABLE'', ''MAX_CLUSTER_ENABLE''}" and "countHits b abc hits = Inr t"
  shows "abc_getSubRegisterValue t r = abc_getSubRegisterValue abc r"
proof -
  have ok: "abc_ok abc" and f: "abcSubRegisterMap_all (abc_info abc) = abc_fields a" using assms(1) by (simp_all add: abc_inv_def)
  obtain en where en: "abc_getSubRegisterValue abc ''ENCOUNT'' = Inr en"
    by (rule common_get [OF ok, of "''ENCOUNT''"]) simp_all
  show ?thesis
  proof (cases "b \<and> en \<noteq> 0")
    case True
    then have "en \<noteq> 0" "b" by simp_all
    obtain u where u: "countHits True abc hits = Inr u" "abc_info u = abc_info abc"
      "\<And>a. abc_getRegisterValue u a = (if a \<in> Counter ` {..<64}
         then rbind (abc_getRegisterValue abc a) (\<lambda>v. Inr (v + count_incr v hits (a - 128))) else abc_getRegisterValue abc a)"
      by (rule countHits_spec [OF ok en \<open>en \<noteq> 0\<close>, of hits]) (rule that)
    have "list_all (\<lambda>a. list_all (\<lambda>r. case abc_fields a r of None \<Rightarrow> True | Some i \<Rightarrow> m_regAddress i < 128)
        [''LP_ENABLE'', ''MAX_CLUSTER_ENABLE'']) [0, 1]" by code_simp
    then have "case abc_fields a r of None \<Rightarrow> True | Some i \<Rightarrow> m_regAddress i < 128"
      using assms(2,3) by (auto simp: list_all_iff)
    moreover have "abc_getRegisterValue u x = abc_getRegisterValue abc x" if "x < 128" for x
      unfolding u(3) using that by (auto simp: Counter_def)
    ultimately have "abc_getSubRegisterValue u r = abc_getSubRegisterValue abc r"
      unfolding abc_getSub_store u(2) f by (auto split: option.splits)
    with u(1) assms(4) \<open>b\<close> show ?thesis by simp
  next
    case False
    with assms(4) en show ?thesis by (auto simp: countHits_def split: if_splits)
  qed
qed

section \<open>The loop over the chips\<close>

text \<open>The state after the ABCs of the channels \<open>ks\<close> of a chipset \<open>s\<close>.\<close>

definition after_chips ::
  "int \<Rightarrow> int \<Rightarrow> nat list \<Rightarrow> (nat \<Rightarrow> StripData) \<Rightarrow> u8 \<Rightarrow> ('g, 'o) ChipsetEmu \<Rightarrow> nat list \<Rightarrow>
   u8 \<times> u16 list list \<times> ('g, 'o) ChipsetEmu \<Rightarrow> bool" where
  "after_chips a h K pat bc s ks r \<longleftrightarrow>
     (case r of (b, clusters, t) \<Rightarrow>
        emu_inv a h K t \<and> m_bccnt t = m_bccnt s \<and> m_l0buffer_lite t = m_l0buffer_lite s \<and> m_rxbuffer t = m_rxbuffer s \<and>
        chip_ids (m_starCfg t) = chip_ids (m_starCfg s) \<and>
        (\<forall>ic. ic \<notin> set ks \<longrightarrow> abc_at (m_starCfg t) ic = abc_at (m_starCfg s) ic) \<and>
        clusters = map (\<lambda>ic. if ic \<in> set ks then clusterFinder (pat ic) 63 else []) [0..<11] \<and>
        (ks \<noteq> [] \<longrightarrow> b = bc))"

lemma after_chip:
  assumes r: "after_chips a h K pat bc s ks r" and "ic \<in> set K" and "ic \<notin> set ks"
    and abc: "abc_at (m_starCfg s) ic = Some abc" and "reads_out abc" and "trigger_data an s ibc abc = Inr (bc, pat ic)"
    and ids: "map_of (chip_ids (m_starCfg s)) (m_abcID abc) = Some ic"
  shows "\<exists>r'. doL0A_single an ibc ic r = Inr r' \<and> after_chips a h K pat bc s (ks @ [ic]) r'"
proof -
  obtain b clusters t where rt: "r = (b, clusters, t)" by (cases r)
  from r have t: "emu_inv a h K t" "m_bccnt t = m_bccnt s" "m_l0buffer_lite t = m_l0buffer_lite s" "m_rxbuffer t = m_rxbuffer s"
      "chip_ids (m_starCfg t) = chip_ids (m_starCfg s)"
    and other: "\<And>ic. ic \<notin> set ks \<Longrightarrow> abc_at (m_starCfg t) ic = abc_at (m_starCfg s) ic"
    and cl: "clusters = map (\<lambda>ic. if ic \<in> set ks then clusterFinder (pat ic) 63 else []) [0..<11]"
    unfolding after_chips_def rt by auto
  note c = emu_inv_cfg [OF t(1)]
  have at: "abc_at (m_starCfg t) ic = Some abc" using other [OF assms(3)] abc by simp
  have inv: "abc_inv a abc" and a: "a \<in> {0, 1}" and ok: "cfg_ok (m_starCfg t)" using c at by (auto simp: cfg_inv_def)
  obtain l0 s' where l0: "getL0BufferAddr (m_bccnt s) abc (of_nat ibc) = Inr l0" "getFEData an abc l0 s = Inr ((bc, pat ic), s')"
    using assms(6) by (auto simp: trigger_data_def rbind_eq_Inr_iff)
  have fe: "getFEData an abc l0 t = Inr ((bc, pat ic), t)"
    by (rule getFEData_test [OF _ t(3) l0(2)]) (use assms(5) in \<open>simp add: reads_out_def\<close>)
  obtain abc' where count: "countHits (m_startHitCount t) abc (pat ic) = Inr abc'" "abc_kept a abc abc'"
    using countHits_ok [OF inv] by (auto simp: rok_iff)
  let ?c = "putAbc (m_starCfg t) ic abc'"
  let ?t = "t\<lparr>m_starCfg := ?c\<rparr>"
  have id: "m_abcID abc' = m_abcID abc" using count(2) by (simp add: abc_kept_def)
  have ids': "chip_ids ?c = chip_ids (m_starCfg s)" using putAbc_ids [OF ok at id] t(5) by simp
  have c': "cfg_inv a h K ?c" by (rule cfg_inv_putAbc [OF c at count(2)])
  have lp: "abc_getSubRegisterValue abc' ''LP_ENABLE'' = Inr 1" "abc_getSubRegisterValue abc' ''MAX_CLUSTER_ENABLE'' = Inr 0"
    using countHits_fields [OF inv a _ count(1)] assms(5) by (simp_all add: reads_out_def)
  have chan: "hccChannelForABCchipID ?c (m_abcID abc') = Inr ic" "ic < MaxABCsPerHCC"
    using cfg_channel [OF c', of "m_abcID abc'" ic] ids by (simp_all add: ids' id)
  let ?cl = "clusters[ic := clusterFinder (pat ic) 63]"
  have "doL0A_single an ibc ic r = Inr (bc, ?cl, ?t)"
    unfolding doL0A_single_def rt prod.case readAbc_at [OF at] rbind_Inr t(2) l0(1) fe count(1) Let_def
    using lp chan by (simp add: getClusters_def put_clusters_def)
  moreover have "after_chips a h K pat bc s (ks @ [ic]) (bc, ?cl, ?t)"
  proof -
    have "?cl = map (\<lambda>k. if k \<in> set (ks @ [ic]) then clusterFinder (pat k) 63 else []) [0..<11]"
    proof (rule nth_equalityI)
      fix i assume "i < length ?cl"
      then have "i < 11" by (simp add: cl)
      then show "?cl ! i = map (\<lambda>k. if k \<in> set (ks @ [ic]) then clusterFinder (pat k) 63 else []) [0..<11] ! i"
        by (cases "i = ic") (simp_all add: cl del: upt_rec_numeral)
    qed (simp add: cl)
    moreover have "emu_inv a h K ?t" using t(1) c' by (rule emu_inv_with_cfg)
    ultimately show ?thesis
      unfolding after_chips_def using t ids' other by simp
  qed
  ultimately show ?thesis by blast
qed

lemma all_chips:
  assumes "emu_inv a h K s" and "distinct ks" and "set ks \<subseteq> set K" and "set ks \<inter> set done_ks = {}"
    and "after_chips a h K pat bc s done_ks r"
    and chips: "\<And>ic. ic \<in> set ks \<Longrightarrow> \<exists>abc. abc_at (m_starCfg s) ic = Some abc \<and> reads_out abc \<and>
      trigger_data an s ibc abc = Inr (bc, pat ic) \<and> map_of (chip_ids (m_starCfg s)) (m_abcID abc) = Some ic"
  shows "\<exists>r'. rfold (doL0A_single an ibc) ks r = Inr r' \<and> after_chips a h K pat bc s (done_ks @ ks) r'"
  using assms(2-6)
proof (induction ks arbitrary: done_ks r)
  case (Cons ic ks)
  obtain abc where abc: "abc_at (m_starCfg s) ic = Some abc" "reads_out abc" "trigger_data an s ibc abc = Inr (bc, pat ic)"
    "map_of (chip_ids (m_starCfg s)) (m_abcID abc) = Some ic"
    using Cons.prems(5) [of ic] by auto
  have ic: "ic \<in> set K" "ic \<notin> set done_ks" using Cons.prems(2,3) by auto
  obtain r1 where r1: "doL0A_single an ibc ic r = Inr r1" "after_chips a h K pat bc s (done_ks @ [ic]) r1"
    using after_chip [OF Cons.prems(4) ic abc] by blast
  have "\<exists>r'. rfold (doL0A_single an ibc) ks r1 = Inr r' \<and> after_chips a h K pat bc s ((done_ks @ [ic]) @ ks) r'"
  proof (rule Cons.IH [OF _ _ _ r1(2)])
    show "distinct ks" "set ks \<subseteq> set K" "set ks \<inter> set (done_ks @ [ic]) = {}" using Cons.prems(1-3) by auto
  qed (rule Cons.prems(5), simp)
  then show ?case by (simp add: r1(1))
qed simp

section \<open>One trigger\<close>

text \<open>The patterns of the eleven channels, and the mask of a trigger in one slot of a frame.\<close>

definition chip_patterns :: "nat list \<Rightarrow> (nat \<Rightarrow> StripData) \<Rightarrow> StripData option list" where
  "chip_patterns K pat = map (\<lambda>ic. if ic \<in> set K then Some (pat ic) else None) [0..<11]"

definition slot_mask :: "nat \<Rightarrow> u8" where
  "slot_mask ibc = push_bit (3 - ibc) 1"

lemma rfold_only:
  assumes "distinct xs" and "k \<in> set xs" and "\<And>x. x \<in> set xs \<Longrightarrow> x \<noteq> k \<Longrightarrow> f x = Inr"
  shows "rfold f xs s = f k s"
  using assms
proof (induction xs)
  case (Cons x xs)
  have rest: "(\<And>x. x \<in> set ys \<Longrightarrow> f x = Inr) \<Longrightarrow> rfold f ys = Inr" for ys
    by (induction ys) (simp_all add: fun_eq_iff)
  show ?case
  proof (cases "x = k")
    case True
    have "rfold f xs = Inr" by (rule rest) (use Cons.prems True in auto)
    with True show ?thesis by (cases "f k s") simp_all
  next
    case False
    with Cons show ?thesis by simp
  qed
qed simp

lemma slot_fold:
  assumes "ibc < 4"
  shows "rfold (\<lambda>k s. if \<not> bit (slot_mask ibc) (3 - k) then Inr s else f k s) [0..<4] s = f ibc s"
proof -
  have b: "bit (slot_mask ibc) (3 - k) \<longleftrightarrow> k = ibc" if "k < 4" for k
    using that assms by (auto simp: slot_mask_def bit_simps)
  show ?thesis by (subst rfold_only [of _ ibc]) (use assms b in \<open>auto simp: fun_eq_iff simp del: upt_rec_numeral\<close>)
qed

lemma no_clusters_patterns: "no_clusters = map (\<lambda>ic. if ic \<in> set [] then clusterFinder (pat ic) 63 else []) [0..<11]"
  by (simp add: no_clusters_def MaxABCsPerHCC_def map_replicate_const)

lemma trigger_event:
  fixes s :: "('g, 'o) ChipsetEmu"
  assumes s: "emu_inv a h K s" and tm: "getHCCSubRegisterValue (m_starCfg s) ''TRIGMODE'' = Inr tm" "tm \<noteq> 0" and "ibc < 4"
    and "K \<noteq> []" and "length chip_map = 11"
    and chips: "\<And>ic. ic \<in> set K \<Longrightarrow> \<exists>abc. abc_at (m_starCfg s) ic = Some abc \<and> reads_out abc \<and>
      trigger_data an s ibc abc = Inr (bc, pat ic) \<and> map_of (chip_ids (m_starCfg s)) (m_abcID abc) = Some ic"
  shows "\<exists>t w. doL0A an bcr (slot_mask ibc) tag s = Inr t \<and> emu_inv a h K t \<and> m_rxbuffer t = m_rxbuffer s @ [w] \<and>
    (\<exists>fb' hs. process_data chip_map w (out, fb) = Inr
      (if \<forall>ic \<in> set K. pat ic = 0 then out
       else with_event (fd_events out) (add_hits hs (new_FrontEndEvent (ucast ((tag + of_nat ibc) AND 0x7f))
         (ucast ((tag + of_nat ibc) AND 0x7f)) (ucast (bc AND 7)))), fb') \<and>
      trigger_tag fb' = ucast ((tag + of_nat ibc) AND 0x7f) \<and> fb_bcid fb' = ucast (bc AND 7) \<and>
      mset hs = readout_hits chip_map (chip_patterns K pat))"
proof -
  note c = emu_inv_cfg [OF s]
  have K: "map fst (m_ABCchips (m_starCfg s)) = K" and ok: "cfg_ok (m_starCfg s)" using c by (simp_all add: cfg_inv_def)
  have dist: "distinct K" using ok K by (auto simp: cfg_ok_def omap_ok_distinct)
  have lt: "ic < 11" if "ic \<in> set K" for ic
    using cfg_inv_at [OF c that] by (metis MaxABCsPerHCC_def)
  have start: "after_chips a h K pat bc s [] (0, no_clusters, s)"
    unfolding after_chips_def prod.case no_clusters_patterns [of pat] using s by simp
  obtain r where r: "rfold (doL0A_single an ibc) K (0, no_clusters, s) = Inr r" "after_chips a h K pat bc s ([] @ K) r"
    using all_chips [OF s dist order_refl _ start chips] by auto
  obtain b clusters t where rt: "r = (b, clusters, t)" by (cases r)
  from r(2) have t: "emu_inv a h K t" "m_rxbuffer t = m_rxbuffer s" "b = bc"
      "clusters = map (\<lambda>ic. if ic \<in> set K then clusterFinder (pat ic) 63 else []) [0..<11]"
    unfolding after_chips_def rt using \<open>K \<noteq> []\<close> by auto
  let ?ps = "chip_patterns K pat"
  let ?packet = "buildPhysicsPacket (map (channel_clusters 63) ?ps) PT_LP (tag + of_nat ibc) bc"
  have cl: "clusters = map (channel_clusters 63) ?ps"
    unfolding t(4) chip_patterns_def by (simp add: comp_def channel_clusters_def del: upt_rec_numeral)
  have some: "Some (pat (hd K)) \<in> set ?ps"
    using \<open>K \<noteq> []\<close> lt [of "hd K"] by (auto simp: chip_patterns_def image_iff simp del: upt_rec_numeral)
  have len: "length ?ps \<le> 11" by (simp add: chip_patterns_def)
  have m: "(63 :: u8) \<le> 63" by simp
  have ne: "?packet \<noteq> []" by (rule packet_sent [OF m some])
  have run: "doL0A an bcr (slot_mask ibc) tag s = Inr (sendPacket ?packet t)"
    unfolding doL0A_def tm(1) rbind_Inr slot_fold [OF \<open>ibc < 4\<close>]
    using tm(2) r(1) ne by (simp add: eachAbc_def K rt send_physics_def cl t(3))
  have "(\<forall>p \<in> set ?ps. p = None \<or> p = Some 0) \<longleftrightarrow> (\<forall>ic \<in> set K. pat ic = 0)"
    using lt by (auto simp: chip_patterns_def simp del: upt_rec_numeral)
  with readout_event [OF m assms(6) len disjI1 [OF refl] some, of "tag + of_nat ibc" bc out fb] run t(1,2)
  show ?thesis
    by (intro exI [of _ "sendPacket ?packet t"] exI [of _ "sendPacket_words ?packet"] conjI)
      (simp_all add: sendPacket_def emu_inv_updates)
qed

section \<open>A chipset with one ABC in the static test mode\<close>

lemma set_byID_value:
  assumes "cfg_inv a h K c" and "map_of (chip_ids c) i = Some ic" and "abc_has_reg a r"
  shows "\<exists>t. cfg_inv a h K t \<and> map_of (chip_ids t) i = Some ic \<and> m_hcc t = m_hcc c \<and> getABCRegisterByID t r i = Inr v \<and>
    (\<forall>b. b \<noteq> r \<longrightarrow> getABCRegisterByID t b i = getABCRegisterByID c b i)"
proof -
  obtain t where t: "setABCRegisterByID c r v i = Inr t" "cfg_inv a h K t"
    using cfg_getByID(2) [OF assms, of v] by (auto simp: rok_iff)
  have ok: "cfg_ok c" using assms(1) by (simp add: cfg_inv_def)
  note laws = setByID_laws [OF ok t(1)]
  have "getABCRegisterByID t b i = getABCRegisterByID c b i" if "b \<noteq> r" for b
    by (rule laws(8)) (use that in simp)
  then show ?thesis using t(2) assms(2) laws(2,3,7) by auto
qed

lemma single_level_chipset:
  fixes an :: "(unit, unit) Analog"
  obtains s :: "(unit, unit) ChipsetEmu" and abc bc m where "emu_ok s" "getHCCSubRegisterValue (m_starCfg s) ''TRIGMODE'' = Inr 1"
    "m_ABCchips (m_starCfg s) = [(7, abc)]" "reads_out abc" "trigger_data an s 2 abc = Inr (bc, m)" "m \<noteq> 0" "m_rxbuffer s = []"
proof -
  obtain c0 t0 :: StarCfg and s :: "(unit, unit) ChipsetEmu" where s: "emu_ok s" "emu_abc_version s = 1"
    "map_of (chip_ids (m_starCfg s)) 3 = Some 7" "m_rxbuffer s = []" "emu_hcc_version s = 1" "map fst (m_ABCchips (m_starCfg s)) = [7]"
    by (rule example_chipset) (rule that)
  have inv: "emu_inv 1 1 [7] s" using s(1,2,5,6) by (simp add: emu_ok_def)
  note c = emu_inv_cfg [OF inv]
  have "hcc_has_reg 1 41" by code_simp
  then obtain d0 where d0: "setHCCRegister (m_starCfg s) 41 1 = Inr d0" "cfg_inv 1 1 [7] d0"
    using cfg_set_hcc [OF c, of 41 1] by (auto simp: rok_iff)
  have trig: "getHCCRegister d0 41 = Inr 1"
    using cfg_hcc.put_Inr [of "m_starCfg s" 41 1 d0] c d0(1) by (auto simp: cfg_inv_def)
  have id0: "map_of (chip_ids d0) 3 = Some 7" using setHCC_frame [OF d0(1)] s(3) by (simp add: chip_ids_def)
  have regs: "abc_has_reg 1 16" "abc_has_reg 1 32" "abc_has_reg 1 33" by code_simp+
  obtain d1 where d1: "cfg_inv 1 1 [7] d1" "map_of (chip_ids d1) 3 = Some 7" "m_hcc d1 = m_hcc d0" "getABCRegisterByID d1 16 3 = Inr 1"
    using set_byID_value [OF d0(2) id0 regs(1), where v = 1] by blast
  obtain d2 where d2: "cfg_inv 1 1 [7] d2" "map_of (chip_ids d2) 3 = Some 7" "m_hcc d2 = m_hcc d1" "getABCRegisterByID d2 32 3 = Inr 0x90"
    "\<And>b. b \<noteq> 32 \<Longrightarrow> getABCRegisterByID d2 b 3 = getABCRegisterByID d1 b 3"
    using set_byID_value [OF d1(1,2) regs(2), where v = "0x90"] by blast
  obtain d where d: "cfg_inv 1 1 [7] d" "map_of (chip_ids d) 3 = Some 7" "m_hcc d = m_hcc d2" "getABCRegisterByID d 33 3 = Inr 0"
    "\<And>b. b \<noteq> 33 \<Longrightarrow> getABCRegisterByID d b 3 = getABCRegisterByID d2 b 3"
    using set_byID_value [OF d2(1,2) regs(3), where v = 0] by blast
  have "7 \<in> set [7 :: nat]" by simp
  then obtain abc where abc: "abc_at d 7 = Some abc" "abc_inv 1 abc" by (rule cfg_inv_at [OF d(1)]) (rule that)
  have reg: "abc_getRegisterValue abc r = getABCRegisterByID d r 3" for r
    by (simp add: by_ID abcFromChipID_ids d(2) chan_get_def readAbc_at [OF abc(1)])
  have vals: "abc_getRegisterValue abc 16 = Inr 1" "abc_getRegisterValue abc 32 = Inr 0x90" "abc_getRegisterValue abc 33 = Inr 0"
    unfolding reg using d(4,5) d2(4,5) d1(4) by simp_all
  have fields: "abc_fields 1 ''TM'' = Some \<lparr>m_regAddress = 32, m_bOffset = 7, m_width = 2, m_subRegName = ''TM''\<rparr>"
    "abc_fields 1 ''LP_ENABLE'' = Some \<lparr>m_regAddress = 32, m_bOffset = 4, m_width = 1, m_subRegName = ''LP_ENABLE''\<rparr>"
    "abc_fields 1 ''MAX_CLUSTER_ENABLE'' = Some \<lparr>m_regAddress = 33, m_bOffset = 15, m_width = 1, m_subRegName = ''MAX_CLUSTER_ENABLE''\<rparr>"
    "hcc_fields 1 ''TRIGMODE'' = Some \<lparr>m_regAddress = 41, m_bOffset = 0, m_width = 1, m_subRegName = ''TRIGMODE''\<rparr>"
    by code_simp+
  have info: "abcSubRegisterMap_all (abc_info abc) = abc_fields 1" "abc_ok abc" using abc(2) by (simp_all add: abc_inv_def)
  have tm: "abc_getSubRegisterValue abc ''TM'' = Inr 1"
    by (simp add: abc_getSub_store info fields vals sub_getValue_def maskBits_def)
  have reads: "reads_out abc"
    unfolding reads_out_def tm by (simp add: abc_getSub_store info fields vals sub_getValue_def maskBits_def)
  have trigmode: "getHCCSubRegisterValue d ''TRIGMODE'' = Inr 1"
    using trig d(1,3) d1(3) d2(3)
    by (simp add: getHCCSub_store cfg_inv_def fields sub_getValue_def maskBits_def getHCCRegister_def)
  obtain m where m: "getMasks abc = Inr m" "\<And>ch. ch < 256 \<Longrightarrow> isMasked abc ch = Inr (bit m ch)"
    by (rule getMasks_bits [OF info(2)]) (rule that)
  have "mask_reg 0 = 16" "mask_bit 0 = 0" by code_simp+
  then have "bit m 0" using m(2) [of 0] by (simp add: isMasked_value vals)
  then have m0: "m \<noteq> 0" by auto
  let ?s = "s\<lparr>m_starCfg := d\<rparr>"
  obtain l0 where l0: "getL0BufferAddr (m_bccnt s) abc (of_nat 2) = Inr l0"
    using getL0BufferAddr_ok [OF abc(2), of "m_bccnt s" "of_nat 2"] by (auto simp: rok_iff)
  have data: "trigger_data an ?s 2 abc = Inr (of_nat l0 AND 0xff, m)"
    using l0 by (simp add: trigger_data_def getFEData_def tm generateFEData_StaticTest_def m(1))
  have "m_ABCchips d = [(7, abc)]"
  proof -
    have "map fst (m_ABCchips d) = [7]" using d(1) by (simp add: cfg_inv_def)
    then obtain x where "m_ABCchips d = [(7, x)]" by auto
    with abc(1) show ?thesis by simp
  qed
  then show thesis
    using that [of ?s abc "of_nat l0 AND 0xff" m] emu_inv_with_cfg [OF inv d(1)] trigmode reads data m0 s(4)
    by (auto simp: emu_ok_iff)
qed

section \<open>Properties\<close>

text \<open>C1: A trigger in the single-level mode, from the emulated chipset to the event: when its ABCs are in
  the test modes, with their readout enabled and no limit on the clusters, a trigger in one slot of an
  LCB frame makes a well-formed chipset send exactly one packet, and the data processor makes of that
  packet one event with the tag and the bunch crossing of the trigger and exactly the hits of the
  front-end patterns at the chips of the map; it makes none when every pattern is empty.\<close>

theorem trigger_readout:
  fixes s :: "('g, 'o) ChipsetEmu" and tag :: u8
  assumes "emu_ok s" and "getHCCSubRegisterValue (m_starCfg s) ''TRIGMODE'' = Inr tm" and "tm \<noteq> 0" and "ibc < 4"
    and "m_ABCchips (m_starCfg s) \<noteq> []" and "distinct (map fst (chip_ids (m_starCfg s)))" and "length chip_map = 11"
    and "\<forall>(ic, abc) \<in> set (m_ABCchips (m_starCfg s)). reads_out abc \<and> trigger_data an s ibc abc = Inr (bc, pat ic)"
  defines "K \<equiv> map fst (m_ABCchips (m_starCfg s))" and "tag' \<equiv> (tag + of_nat ibc) AND 0x7f"
  shows "\<exists>t w fb' hs. doL0A an bcr (slot_mask ibc) tag s = Inr t \<and> emu_ok t \<and> m_rxbuffer t = m_rxbuffer s @ [w] \<and>
    process_data chip_map w (out, fb) = Inr
      (if \<forall>ic \<in> set K. pat ic = 0 then out
       else with_event (fd_events out) (add_hits hs (new_FrontEndEvent (ucast tag') (ucast tag') (ucast (bc AND 7)))), fb') \<and>
    trigger_tag fb' = ucast tag' \<and> fb_bcid fb' = ucast (bc AND 7) \<and> mset hs = readout_hits chip_map (chip_patterns K pat)"
proof -
  have inv: "emu_inv (emu_abc_version s) (emu_hcc_version s) K s" using assms(1) by (simp add: emu_ok_def K_def)
  have ne: "K \<noteq> []" using assms(5) by (simp add: K_def)
  have chip: "\<exists>abc. abc_at (m_starCfg s) ic = Some abc \<and> reads_out abc \<and> trigger_data an s ibc abc = Inr (bc, pat ic) \<and>
      map_of (chip_ids (m_starCfg s)) (m_abcID abc) = Some ic" if ic: "ic \<in> set K" for ic
  proof -
    obtain abc where abc: "abc_at (m_starCfg s) ic = Some abc"
      by (rule cfg_inv_at [OF emu_inv_cfg [OF inv] ic]) (rule that)
    then have m: "(ic, abc) \<in> set (m_ABCchips (m_starCfg s))" by (rule map_of_SomeD)
    then have "(m_abcID abc, ic) \<in> set (chip_ids (m_starCfg s))" by (auto simp: chip_ids_def intro: rev_image_eqI)
    then have "map_of (chip_ids (m_starCfg s)) (m_abcID abc) = Some ic" by (rule map_of_is_SomeI [OF assms(6)])
    with abc m assms(8) show ?thesis by auto
  qed
  from trigger_event [OF inv assms(2-4) ne assms(7) chip, where bcr = bcr and tag = tag and out = out and fb = fb] show ?thesis
    unfolding tag'_def emu_ok_iff by blast
qed

theorem trigger_readout_witness:
  "\<exists>(an :: (unit, unit) Analog) s t w bc fb' hs.
    doL0A an False (slot_mask 2) 5 s = Inr t \<and> m_rxbuffer s = [] \<and> m_rxbuffer t = [w] \<and>
    process_data [0, 1, 2, 3, 4, 5, 6, 7, 8, 9, 10] w (new_FrontEndData, new_Feedback) =
      Inr (with_event [] (add_hits hs (new_FrontEndEvent 7 7 bc)), fb')"
proof -
  obtain an :: "(unit, unit) Analog" where "an = \<lparr>calculateHit = \<lambda>_ _ _ _ _ g. (False, g), draw_below = \<lambda>_ g. (False, g), occupancy_zero = ()\<rparr>"
    by blast
  obtain s abc bc m where s: "emu_ok s" "getHCCSubRegisterValue (m_starCfg s) ''TRIGMODE'' = Inr 1"
    "m_ABCchips (m_starCfg s) = [(7, abc)]" "reads_out abc" "trigger_data an s 2 abc = Inr (bc, m)" "m \<noteq> 0" "m_rxbuffer s = []"
    by (rule single_level_chipset [of an]) (rule that)
  have "\<exists>t w fb' hs. doL0A an False (slot_mask 2) 5 s = Inr t \<and> m_rxbuffer t = [w] \<and>
    process_data [0, 1, 2, 3, 4, 5, 6, 7, 8, 9, 10] w (new_FrontEndData, new_Feedback) =
      Inr (with_event [] (add_hits hs (new_FrontEndEvent 7 7 (ucast (bc AND 7)))), fb')"
    using trigger_readout [of s 1 2 "[0, 1, 2, 3, 4, 5, 6, 7, 8, 9, 10]" an bc "\<lambda>_. m" False 5 new_FrontEndData new_Feedback] s
    by (simp add: chip_ids_def new_FrontEndData_def) blast
  with s(7) show ?thesis by blast
qed

end
