(* ===== verification/Spec2Isabelle.thy ===== *)
theory Spec2Isabelle
  imports Star_Seq Star_Cfg Star_Chip_Packet Star_Clusters Star_L0 Star_Emu_Access Star_Readout Star_SeqProc Star_Trigger
begin

text \<open>
  YARR reads out the pixel and strip detectors of ATLAS. This development models the part of it
  that talks to the strip chips, the HCC and its up to eleven ABCs, and the emulator of those
  chips against which the software is run without hardware.

  \<^bold>\<open>The program.\<close> A scan writes 16-bit frames to the command link of a front-end. The frames are
  built by the namespace LCB (src/src/libStar/include/LCBUtils.h) over the 6b/8b symbols of the
  namespace SixEight; the class StarCmd (src/src/libStar) composes nine of them into one register
  access, and StarSeqGenerator composes accesses, fast commands and triggers into a sequence,
  either as frames (software mode) or as the bytes the FELIX firmware plays
  (src/src/libStar/include/LCBFwUtils.h, whose trickle memory procedure writes them into the
  firmware). The values of the chips' registers are kept in AbcCfg and HccCfg, one of the first
  for each ABC and one of the second, both in StarCfg; all three are built from the lists of
  src/src/libStar/include/StarRegDefs.h and the classes of StarRegister.h.
  The emulator (src/src/libStarEmu) takes the frames from a ring buffer (RingBuffer.h of libEmu):
  StarEmu decodes each for every chipset of its channel, and StarChipsetEmu executes it on a
  StarCfg of its own, so that register writes change masks, latency and operation mode, fast
  commands inject pulses into the L0 pipeline, and triggers read that pipeline, run the cluster
  finder and send packets built by StarPackets. The packets leave as 32-bit words in the receive
  buffer, and StarDataProcessor takes them apart again, with StarChipPacket or with the templated
  parser of StarProcessor.h, into the events of libYarr (EventData.h), which a scan histograms or
  writes to a file.

  \<^bold>\<open>Theories.\<close>
    \<^item> Yarr_Prelude: names of the machine integers, the result type \<open>result\<close> (the value, or the
      \<open>fault\<close> that leaves the operation: an exception, an abort, an undefined read), and the shared
      lemmas on bits, lists and results, in the collections \<open>bits_simps\<close> and \<open>result_simps\<close>.
    \<^item> Six_Eight, Lcb_Frames: the namespaces SixEight and LCB of LCBUtils.h, function by function.
      Round trip of the line code; each reader of a frame returns the field the builder put in; the
      frame kinds exclude each other; a single bit error is detected. Line_Code states the
      interface between the two (a locale interpreted on \<open>encode\<close> and \<open>decode\<close>).
    \<^item> Star_Cmd: StarCmd; Star_Fw: the namespace LCB_FELIX; Star_Seq: StarSeqGenerator, with its text
      parser (a list of commands is taken whole or not at all, and the text of a command is read
      back), its file format and its trigger counters (exact in software mode; in firmware mode
      by how much they overcount).
    \<^item> Reg_Store, Star_Register, Reg_Vector: the interfaces of register storage, StarRegister.h, and
      the vector with an index by address that both configurations keep. The locales \<open>reg_store\<close>,
      \<open>field_store\<close> and \<open>reg_vector\<close> hold the laws and are interpreted on AbcCfg, HccCfg, the whole
      StarCfg and one channel of it.
    \<^item> Star_AbcCfg, Star_HccCfg: AbcCfg.h, AbcCfg.cpp, HccCfg.h, HccCfg.cpp: the register maps of versions 0
      and 1, the constructors, fields, masks and trims. Star_Cfg: StarCfg.cpp over an ordered map
      (Ordered_Map).
    \<^item> Star_Packets, Star_Chip_Packet: StarPackets.h with the builders of StarChipsetEmu.cpp, the
      transport as words, and the parser of StarChipPacket.h; round trips of every packet type the
      emulator sends, and which reads of the parser stay inside the packet.
    \<^item> Star_Clusters: clusterFinder and its row helpers. Star_FrontEnd: the state of the emulated
      chipset (the record \<open>ChipsetEmu\<close>, one field for each member of the class) and its front-end
      data. Star_Chipset: the operations of StarChipsetEmu.cpp. Star_Emu: StarEmu.cpp and RingBuffer.h.
    \<^item> Star_Emu_Wf, Star_Emu_Safe: the invariant \<open>emu_inv\<close> that the constructor establishes and every
      operation keeps, and from it the faults a frame can cause. Star_Hpr: the schedule of the HPR
      packets. Star_L0: the L0 pipeline across frames. Star_Emu_Access: the register command state
      machine against the nine-frame sequences of StarCmd, and the round trip of a register
      through StarCmd, StarEmu, StarPackets and StarChipPacket.
    \<^item> Event_Data: the hits, events and event container of EventData.h with the binary file form, and
      the feedback of FrontEnd.h. Star_Data: StarDataProcessor.cpp and the templated parser of
      StarProcessor.h, whose processors (the class EmptyProc and its children) are functions from
      a \<open>Callback\<close> to a change of the state. Star_Readout: from cluster finder to event, both data
      processors, and what the templated one drops. Star_SeqProc: two processors in sequence.
      Star_Trigger: from a trigger frame's mask and tag, through the front-ends, to the event.

  \<^bold>\<open>State and operations.\<close> A class is a record with the names of its members, a member function is
  a definition of the same name that takes the record and returns it changed, in \<open>result\<close> when it
  can throw. Integers have the width the code gives them; \<open>int\<close> members that hold masked words keep
  the word. An enumerator of a register is its address and one of a sub-register its name, as the
  code generates both from one list. A \<open>std::map\<close> is an association list with increasing keys, so
  that loops visit it in the order of the code.

  \<^bold>\<open>Loops.\<close> All loops are total functions. The cluster finder ends because every turn clears a
  strip, and the text parser because every line is consumed. The loop of StarEmu (\<open>executeLoop\<close>)
  runs in the code until its thread is stopped; the model takes the number of turns, and
  \<open>executeLoop_decodes\<close> shows that as many turns as words wait are enough, after which the buffers
  hold too few words and the thread sleeps. No other loop has a bound of this kind. Loop indices that
  are \<open>unsigned\<close> in the code (the byte index of \<open>trickle_words\<close> and the word indices of \<open>prlp_loop\<close>
  and \<open>data_loop\<close>) are natural numbers, which differ only above \<open>2 ^ 32\<close> elements; counters whose
  wrap can be reached by their inputs (triggers, L0A frames, HPR clock, bunch counter) are words.

  \<^bold>\<open>Parameters.\<close> The analogue model of a strip (StripModel, floating point with Gaussian noise) and
  the random draws are the operations of the record \<open>Analog\<close>, an argument of the operations that
  reach them. Configurations read from JSON files are arguments of the constructors. A read of four
  bytes as one word assumes a little-endian host, on which the software runs.

  \<^bold>\<open>Not modelled.\<close> Vendored code (json.hpp, Catch, enum.h, the Levenberg-Marquardt fit); the hardware
  controllers (FELIX, Bdaq, Spec, Itsdaq, Rogue) and the network and device access in them; the
  analyses, histogrammers and plots, which are floating-point statistics over histograms; the
  console programs, the database and all JSON parsing; threads, which only repeat the operations
  modelled here; the chips other than the strips (Fei4, Rd53a, Rd53b, Itkpixv2) and the scan loops,
  which drive hardware through the interfaces above.
\<close>

end
